(* ===== verification/Prelude.thy ===== *)
theory Prelude
  imports Main "HOL-Library.Word" "HOL-Library.List_Lexorder" "HOL-Library.Char_ord"
begin

text \<open>
  Shared vocabulary of the development: Go's fixed-width integers, byte slices and strings,
  the values a panicking or failing Go call returns, and the generic lemmas on lists and maps
  that the component theories build on.
\<close>

unbundle bit_operations_syntax

subsection \<open>Go types\<close>

type_synonym byte = "8 word"
type_synonym u32 = "32 word"
type_synonym u64 = "64 word"
type_synonym bytes = "byte list"
type_synonym block_id = bytes

text \<open>
  A Go string is a sequence of bytes. The bytes a conversion \<^verbatim>\<open>[]byte(s)\<close> yields are the
  codes of the characters.
\<close>

definition bytes_of_string :: "string \<Rightarrow> bytes" where
  "bytes_of_string s = map (\<lambda>c. word_of_nat (of_char c)) s"

text \<open>encoding/binary: big-endian encodings of 32- and 64-bit words.\<close>

definition PutUint32 :: "u32 \<Rightarrow> bytes" where
  "PutUint32 w = [ucast (drop_bit 24 w), ucast (drop_bit 16 w), ucast (drop_bit 8 w), ucast w]"

definition Uint32_at :: "byte \<Rightarrow> byte \<Rightarrow> byte \<Rightarrow> byte \<Rightarrow> u32" where
  "Uint32_at a b c d =
     push_bit 24 (ucast a) OR push_bit 16 (ucast b) OR push_bit 8 (ucast c) OR ucast d"

lemma length_PutUint32 [simp]: "length (PutUint32 w) = 4"
  by (simp add: PutUint32_def)

subsection \<open>Words\<close>

lemma unat_word_of_nat_le:
  fixes a :: "'a::len word"
  assumes "n \<le> unat a"
  shows "unat (word_of_nat n :: 'a word) = n"
proof -
  have "n < 2 ^ LENGTH('a)" using assms unsigned_less [of a, where 'a = nat] by (meson order_le_less_trans)
  then show ?thesis by (simp add: unsigned_of_nat take_bit_nat_eq_self)
qed

lemma unat_plus_one:
  fixes a :: "'a::len word"
  assumes "a \<noteq> - 1"
  shows "unat (a + 1) = Suc (unat a)"
proof -
  have "1 + a \<noteq> 0" using assms by (metis add.commute add_eq_0_iff2)
  then show ?thesis using unatSuc [of a] by (simp add: add.commute)
qed

lemma less_imp_not_max:
  fixes a :: "'a::len word"
  shows "a < b \<Longrightarrow> a \<noteq> - 1"
  using word_order.extremum_strict by blast

lemma unat_max_word: "unat (- 1 :: 'a::len word) = 2 ^ LENGTH('a) - 1"
  by (simp add: unsigned_minus_1_eq_mask mask_eq_exp_minus_1)

lemma less_plus_one_iff:
  fixes a b :: "'a::len word"
  assumes "a \<noteq> - 1"
  shows "b < a + 1 \<longleftrightarrow> b \<le> a"
  using unat_plus_one [OF assms] by (simp add: word_less_nat_alt word_le_nat_alt less_Suc_eq_le)

end
