(* ===== verification/Messages.thy ===== *)
theory Messages
  imports Prelude "HOL-Library.AList"
begin

text \<open>
  The protobuf messages the components exchange (\<^verbatim>\<open>api/proto/prefixmesh/v1\<close>), as the generated Go
  structs hold them. A message pointer that may be nil is an option; the \<^verbatim>\<open>oneof\<close> of a command is a
  datatype, and a command whose \<^verbatim>\<open>oneof\<close> is not set is \<^term>\<open>None\<close>. The wire format is the protobuf
  library's: it is a parameter, a pair of functions of which the development uses that decoding
  undoes encoding (\<open>codec_ok\<close>).

  Go maps are association lists with distinct keys, updated by \<^const>\<open>AList.update\<close> and
  \<^const>\<open>AList.delete\<close>; the order of the list is the order an iteration meets.
\<close>

record NodeInfo =
  NodeId :: string
  Addr :: string
  CapacityBytes :: u64

record RingMsg =
  REpoch :: u64
  RNodes :: "NodeInfo list"
  VnodesPerNode :: u32

record RebalanceLease =
  LeaseId :: string
  OldOwner :: string
  NewOwner :: string
  FromEpoch :: u64
  ExpiresUnixMs :: int

datatype cluster_cmd =
    CmdNodeJoin NodeInfo
  | CmdNodeLeave string
  | CmdNodeDead string
  | CmdLeaseGrant RebalanceLease
  | CmdLeaseRelease string
  | CmdNoop bool

type_synonym ClusterCommand = "cluster_cmd option"

record Block =
  BlockId :: bytes
  ParentId :: bytes
  ModelId :: string
  Payload :: bytes
  TokenCount :: u32
  CostUs :: u64

record codec =
  Marshal :: "ClusterCommand \<Rightarrow> bytes option"
  Unmarshal :: "bytes \<Rightarrow> ClusterCommand option"

definition codec_ok :: "codec \<Rightarrow> bool" where
  "codec_ok cod \<longleftrightarrow> (\<forall>c b. Marshal cod c = Some b \<longrightarrow> Unmarshal cod b = Some c)"

lemma codec_okD: "codec_ok cod \<Longrightarrow> Marshal cod c = Some b \<Longrightarrow> Unmarshal cod b = Some c"
  by (simp add: codec_ok_def)

text \<open>gRPC status codes the handlers answer with.\<close>

datatype code = InvalidArgument | Unavailable | Internal | FailedPrecondition | Unimplemented

subsection \<open>Maps as association lists\<close>

lemma map_of_update: "map_of (AList.update k v m) = (map_of m)(k \<mapsto> v)"
  by (rule update_conv')

lemma map_of_delete: "map_of (AList.delete k m) = (map_of m)(k := None)"
  by (rule delete_conv')

lemmas alist_simps = map_of_update map_of_delete distinct_update distinct_delete

end
