(* ===== verification/Sha256.thy ===== *)
theory Sha256
  imports Prelude
begin

text \<open>
  The part of Go's \<^verbatim>\<open>crypto/sha256\<close> the program uses (\<^verbatim>\<open>sha256.New\<close>, \<^verbatim>\<open>Write\<close>,
  \<^verbatim>\<open>Sum\<close> and \<^verbatim>\<open>Sum256\<close>): the SHA-256 function of FIPS 180-4 on byte lists.
\<close>

definition rotr32 :: "nat \<Rightarrow> u32 \<Rightarrow> u32" where
  "rotr32 n x = drop_bit n x OR push_bit (32 - n) x"

definition sha_Ch :: "u32 \<Rightarrow> u32 \<Rightarrow> u32 \<Rightarrow> u32" where
  "sha_Ch x y z = (x AND y) XOR (NOT x AND z)"

definition sha_Maj :: "u32 \<Rightarrow> u32 \<Rightarrow> u32 \<Rightarrow> u32" where
  "sha_Maj x y z = (x AND y) XOR (x AND z) XOR (y AND z)"

definition sha_S0 :: "u32 \<Rightarrow> u32" where
  "sha_S0 x = rotr32 2 x XOR rotr32 13 x XOR rotr32 22 x"

definition sha_S1 :: "u32 \<Rightarrow> u32" where
  "sha_S1 x = rotr32 6 x XOR rotr32 11 x XOR rotr32 25 x"

definition sha_s0 :: "u32 \<Rightarrow> u32" where
  "sha_s0 x = rotr32 7 x XOR rotr32 18 x XOR drop_bit 3 x"

definition sha_s1 :: "u32 \<Rightarrow> u32" where
  "sha_s1 x = rotr32 17 x XOR rotr32 19 x XOR drop_bit 10 x"

text \<open>
  The constants are the first 32 bits of the fractional parts of the cube roots (the round constants)
  and of the square roots (the initial state) of the first primes: \<open>root_bits k n b 0\<close> is the
  largest \<open>b\<close>-bit number whose \<open>k\<close>-th power is at most \<open>n\<close>, found bit by bit.
\<close>

fun root_bits :: "nat \<Rightarrow> int \<Rightarrow> nat \<Rightarrow> int \<Rightarrow> int" where
  "root_bits k n 0 r = r"
| "root_bits k n (Suc b) r = root_bits k n b (if (r + 2 ^ b) ^ k \<le> n then r + 2 ^ b else r)"

definition sha_primes :: "int list" where
  "sha_primes = filter (\<lambda>p. list_all (\<lambda>d. p mod d \<noteq> 0) [2..p - 1]) [2..311]"

definition sha_frac :: "nat \<Rightarrow> int \<Rightarrow> u32" where
  "sha_frac k p = word_of_int (root_bits k (p * 2 ^ (32 * k)) 38 0)"

definition sha_K :: "u32 list" where
  "sha_K = map (sha_frac 3) sha_primes"

text \<open>
  A hash state is the eight working variables. The schedule is a sliding window of sixteen
  message words; each round consumes its head and appends the next word.
\<close>

datatype sha_state = ShaState u32 u32 u32 u32 u32 u32 u32 u32

definition sha_init :: sha_state where
  "sha_init = (case map (sha_frac 2) (take 8 sha_primes) of
     [a, b, c, d, e, f, g, h] \<Rightarrow> ShaState a b c d e f g h | _ \<Rightarrow> ShaState 0 0 0 0 0 0 0 0)"

definition sched_next :: "u32 list \<Rightarrow> u32 list" where
  "sched_next w = tl w @ [sha_s1 (w ! 14) + w ! 9 + sha_s0 (w ! 1) + w ! 0]"

fun sha_round :: "sha_state \<Rightarrow> u32 \<Rightarrow> u32 \<Rightarrow> sha_state" where
  "sha_round (ShaState a b c d e f g h) k w =
     (let t1 = h + sha_S1 e + sha_Ch e f g + k + w;
          t2 = sha_S0 a + sha_Maj a b c
      in ShaState (t1 + t2) a b c (d + t1) e f g)"

fun sha_rounds :: "u32 list \<Rightarrow> sha_state \<Rightarrow> u32 list \<Rightarrow> sha_state" where
  "sha_rounds [] st w = st"
| "sha_rounds (k # ks) st w = sha_rounds ks (sha_round st k (w ! 0)) (sched_next w)"

fun sha_add :: "sha_state \<Rightarrow> sha_state \<Rightarrow> sha_state" where
  "sha_add (ShaState a b c d e f g h) (ShaState a' b' c' d' e' f' g' h') =
     ShaState (a + a') (b + b') (c + c') (d + d') (e + e') (f + f') (g + g') (h + h')"

fun words_of_bytes :: "bytes \<Rightarrow> u32 list" where
  "words_of_bytes (a # b # c # d # bs) = Uint32_at a b c d # words_of_bytes bs"
| "words_of_bytes _ = []"

fun sha_blocks :: "nat \<Rightarrow> sha_state \<Rightarrow> u32 list \<Rightarrow> sha_state" where
  "sha_blocks 0 st ws = st"
| "sha_blocks (Suc n) st ws =
     sha_blocks n (sha_add st (sha_rounds sha_K st (take 16 ws))) (drop 16 ws)"

definition sha_pad :: "bytes \<Rightarrow> bytes" where
  "sha_pad m =
     (let n = length m; bits = (word_of_nat (8 * n) :: u64)
      in m @ [0x80] @ replicate ((119 - n mod 64) mod 64) 0
           @ PutUint32 (ucast (drop_bit 32 bits)) @ PutUint32 (ucast bits))"

fun sha_digest :: "sha_state \<Rightarrow> bytes" where
  "sha_digest (ShaState a b c d e f g h) = concat (map PutUint32 [a, b, c, d, e, f, g, h])"

definition Sum256 :: "bytes \<Rightarrow> bytes" where
  "Sum256 m =
     (let p = sha_pad m
      in sha_digest (sha_blocks (length p div 64) sha_init (words_of_bytes p)))"

lemma length_sha_digest [simp]: "length (sha_digest st) = 32"
  by (cases st) simp

lemma length_Sum256 [simp]: "length (Sum256 m) = 32"
  by (simp add: Sum256_def Let_def)

end
