(* ===== verification/Hashring.thy ===== *)
theory Hashring
  imports Sha256 "HOL-Library.Multiset"
begin

text \<open>
  The consistent hash ring, \<^verbatim>\<open>internal/hashring/ring.go\<close>. A Go map that the code iterates is
  an association list with distinct keys: its order is one of the orders Go's unspecified map
  iteration may take. \<^term>\<open>None\<close> is a panic.
\<close>

subsection \<open>Definitions\<close>

definition DefaultVNodes :: nat where
  "DefaultVNodes = 128"

datatype vnode = VNode (point: u64) (nodeID: string)

instantiation vnode :: linorder
begin

definition less_eq_vnode :: "vnode \<Rightarrow> vnode \<Rightarrow> bool" where
  "less_eq_vnode a b \<longleftrightarrow> point a < point b \<or> point a = point b \<and> nodeID a \<le> nodeID b"

definition less_vnode :: "vnode \<Rightarrow> vnode \<Rightarrow> bool" where
  "less_vnode a b \<longleftrightarrow> (if point a \<noteq> point b then point a < point b else nodeID a < nodeID b)"

instance
  by standard (auto simp: less_eq_vnode_def less_vnode_def intro: vnode.expand)

end

record ring =
  Epoch :: u64
  vnodes :: "vnode list"
  addrs :: "(string \<times> string) list"

text \<open>\<^verbatim>\<open>fmt\<close>'s \<^verbatim>\<open>%d\<close> of a non-negative integer and \<^verbatim>\<open>binary.BigEndian.Uint64\<close>.\<close>

fun fmt_d :: "nat \<Rightarrow> string" where
  "fmt_d n = (if n < 10 then [char_of (48 + n)] else fmt_d (n div 10) @ [char_of (48 + n mod 10)])"

declare fmt_d.simps [simp del]

definition Uint64 :: "bytes \<Rightarrow> u64" where
  "Uint64 bs = foldl (\<lambda>a b. push_bit 8 a OR ucast b) 0 (take 8 bs)"

definition vnode_of :: "string \<Rightarrow> nat \<Rightarrow> vnode" where
  "vnode_of nid i = VNode (Uint64 (Sum256 (bytes_of_string (nid @ ''#'' @ fmt_d i)))) nid"

definition node_vnodes :: "nat \<Rightarrow> string \<Rightarrow> vnode list" where
  "node_vnodes vn nid = map (vnode_of nid) [0..<vn]"

definition vnode_count :: "int \<Rightarrow> nat" where
  "vnode_count vnodesPerNode = (if vnodesPerNode \<le> 0 then DefaultVNodes else nat vnodesPerNode)"

definition NewRing :: "u64 \<Rightarrow> (string \<times> string) list \<Rightarrow> int \<Rightarrow> ring" where
  "NewRing epoch nodes vnodesPerNode =
     \<lparr>Epoch = epoch,
      vnodes = sort (concat (map (node_vnodes (vnode_count vnodesPerNode) \<circ> fst) nodes)),
      addrs = nodes\<rparr>"

text \<open>\<^verbatim>\<open>sort.Search\<close>: the standard library's binary search.\<close>

function search_loop :: "(nat \<Rightarrow> bool) \<Rightarrow> nat \<Rightarrow> nat \<Rightarrow> nat" where
  "search_loop f i j =
     (if i < j
      then let h = (i + j) div 2 in if \<not> f h then search_loop f (h + 1) j else search_loop f i h
      else i)"
  by pat_completeness auto
termination
  by (relation "measure (\<lambda>(f, i, j). j - i)") (auto simp: Let_def)

declare search_loop.simps [simp del]

definition Search :: "nat \<Rightarrow> (nat \<Rightarrow> bool) \<Rightarrow> nat" where
  "Search n f = search_loop f 0 n"

function owners_loop ::
  "vnode list \<Rightarrow> nat \<Rightarrow> nat \<Rightarrow> nat \<Rightarrow> string list \<Rightarrow> string list \<Rightarrow> string list" where
  "owners_loop vs i n scanned seen out =
     (if scanned < length vs \<and> length out < n
      then let nid = nodeID (vs ! ((i + scanned) mod length vs))
           in if nid \<in> set seen then owners_loop vs i n (scanned + 1) seen out
              else owners_loop vs i n (scanned + 1) (nid # seen) (out @ [nid])
      else out)"
  by pat_completeness auto
termination
  by (relation "measure (\<lambda>(vs, i, n, scanned, seen, out). length vs - scanned)") auto

declare owners_loop.simps [simp del]

definition Owners :: "ring \<Rightarrow> bytes \<Rightarrow> int \<Rightarrow> string list option" where
  "Owners r blockID n =
     (if vnodes r = [] \<or> n \<le> 0 then Some []
      else let n' = (if n > int (length (addrs r)) then int (length (addrs r)) else n)
      in if length blockID < 8 then None
      else let key = Uint64 blockID;
               i = Search (length (vnodes r)) (\<lambda>i. point (vnodes r ! i) \<ge> key)
      in Some (owners_loop (vnodes r) i (nat n') 0 [] []))"

definition Owner :: "ring \<Rightarrow> bytes \<Rightarrow> (string \<times> string \<times> bool) option" where
  "Owner r blockID =
     (case Owners r blockID 1 of
        None \<Rightarrow> None
      | Some [] \<Rightarrow> Some ('''', '''', False)
      | Some (o0 # _) \<Rightarrow> Some (o0, case map_of (addrs r) o0 of None \<Rightarrow> '''' | Some a \<Rightarrow> a, True))"

definition Nodes :: "ring \<Rightarrow> (string \<times> string) list" where
  "Nodes r = addrs r"

definition Size :: "ring \<Rightarrow> nat" where
  "Size r = length (addrs r)"

subsection \<open>Binary search\<close>

lemma search_loop_correct:
  assumes "i \<le> j" and "j \<le> N" and mono: "\<And>a b. a \<le> b \<Longrightarrow> b < N \<Longrightarrow> f a \<Longrightarrow> f b"
  shows "i \<le> search_loop f i j \<and> search_loop f i j \<le> j \<and>
    (\<forall>k. i \<le> k \<and> k < search_loop f i j \<longrightarrow> \<not> f k) \<and>
    (search_loop f i j < j \<longrightarrow> f (search_loop f i j))"
  using assms(1,2)
proof (induction "j - i" arbitrary: i j rule: less_induct)
  case less
  show ?case
  proof (cases "i < j")
    case True
    let ?h = "(i + j) div 2"
    have h: "i \<le> ?h" "?h < j" using True by auto
    show ?thesis
    proof (cases "f ?h")
      case fh: True
      have "search_loop f i j = search_loop f i ?h"
        using True fh by (simp add: search_loop.simps [of f i j] Let_def)
      moreover have "i \<le> search_loop f i ?h \<and> search_loop f i ?h \<le> ?h \<and>
          (\<forall>k. i \<le> k \<and> k < search_loop f i ?h \<longrightarrow> \<not> f k) \<and>
          (search_loop f i ?h < ?h \<longrightarrow> f (search_loop f i ?h))"
        using h less.prems by (intro less.hyps) auto
      ultimately show ?thesis using h fh by (metis le_less less_imp_le less_le_trans)
    next
      case False
      have nf: "\<not> f k" if "k \<le> ?h" for k
        using mono [OF that] False h less.prems by auto
      have "search_loop f i j = search_loop f (?h + 1) j"
        using True False by (simp add: search_loop.simps [of f i j] Let_def)
      moreover have "?h + 1 \<le> search_loop f (?h + 1) j \<and> search_loop f (?h + 1) j \<le> j \<and>
          (\<forall>k. ?h + 1 \<le> k \<and> k < search_loop f (?h + 1) j \<longrightarrow> \<not> f k) \<and>
          (search_loop f (?h + 1) j < j \<longrightarrow> f (search_loop f (?h + 1) j))"
        using h less.prems by (intro less.hyps) auto
      moreover have "k \<le> ?h \<or> ?h + 1 \<le> k" for k by linarith
      ultimately show ?thesis using h nf by (metis add_leD1 order_trans)
    qed
  next
    case False
    then have "search_loop f i j = i" by (subst search_loop.simps) simp
    then show ?thesis using less.prems False by auto
  qed
qed

lemma Search_split:
  assumes "\<And>a b. a \<le> b \<Longrightarrow> b < length xs \<Longrightarrow> P (xs ! a) \<Longrightarrow> P (xs ! b)"
  defines "i \<equiv> Search (length xs) (\<lambda>i. P (xs ! i))"
  shows "take i xs = filter (\<lambda>x. \<not> P x) xs" and "drop i xs = filter P xs"
proof -
  have s: "i \<le> length xs" "\<forall>k < i. \<not> P (xs ! k)" "i < length xs \<longrightarrow> P (xs ! i)"
    using search_loop_correct [of 0 "length xs" "length xs" "\<lambda>i. P (xs ! i)"] assms(1)
    by (auto simp: i_def Search_def)
  have lo: "\<forall>x \<in> set (take i xs). \<not> P x" using s by (auto simp: in_set_conv_nth)
  have "P (xs ! k)" if "i \<le> k" "k < length xs" for k using assms(1) [OF that] s that by auto
  then have hi: "\<forall>x \<in> set (drop i xs). P x" by (auto simp: in_set_conv_nth)
  have "filter Q xs = filter Q (take i xs) @ filter Q (drop i xs)" for Q
    by (metis append_take_drop_id filter_append)
  then show "take i xs = filter (\<lambda>x. \<not> P x) xs" and "drop i xs = filter P xs"
    using lo hi by auto
qed

subsection \<open>The clockwise walk\<close>

text \<open>Duplicates removed, first occurrences kept in order.\<close>

fun nub :: "'a list \<Rightarrow> 'a list" where
  "nub [] = []"
| "nub (x # xs) = x # filter (\<lambda>y. y \<noteq> x) (nub xs)"

lemma set_nub [simp]: "set (nub xs) = set xs"
  by (induction xs) auto

lemma distinct_nub [simp]: "distinct (nub xs)"
  by (induction xs) auto

lemma filter_nub: "filter P (nub xs) = nub (filter P xs)"
proof (induction xs)
  case (Cons x xs)
  have "filter P (filter (\<lambda>y. y \<noteq> x) ys) = filter (\<lambda>y. y \<noteq> x) (filter P ys)" for ys
    by (simp add: conj_commute)
  then have "filter P (nub (x # xs)) =
      (if P x then [x] else []) @ filter (\<lambda>y. y \<noteq> x) (nub (filter P xs))"
    using Cons by (simp only: nub.simps filter.simps) simp
  moreover have "filter (\<lambda>y. y \<noteq> x) (nub (filter P xs)) = nub (filter P xs)" if "\<not> P x"
    using that by (auto simp: filter_id_conv)
  ultimately show ?case by simp
qed simp

text \<open>
  The reference definition: node IDs in ring order starting at the first point not below the
  key, each node once.
\<close>

definition clockwise :: "vnode list \<Rightarrow> u64 \<Rightarrow> string list" where
  "clockwise vs key =
     nub (map nodeID (filter (\<lambda>v. key \<le> point v) vs @ filter (\<lambda>v. \<not> key \<le> point v) vs))"

lemma owners_loop_step:
  "s < length vs \<Longrightarrow> length out < n \<Longrightarrow>
   owners_loop vs i n s seen out =
     (let nid = nodeID (rotate i vs ! s)
      in if nid \<in> set seen then owners_loop vs i n (Suc s) seen out
         else owners_loop vs i n (Suc s) (nid # seen) (out @ [nid]))"
  by (subst owners_loop.simps) (simp add: nth_rotate Let_def)

lemma owners_loop_eq:
  assumes "set seen = set out" and "length out \<le> n" and "s \<le> length vs"
  shows "owners_loop vs i n s seen out =
    take n (out @ filter (\<lambda>x. x \<notin> set out) (nub (map nodeID (drop s (rotate i vs)))))"
  using assms
proof (induction "length vs - s" arbitrary: s seen out rule: less_induct)
  case less
  show ?case
  proof (cases "s < length vs \<and> length out < n")
    case True
    let ?x = "nodeID (rotate i vs ! s)"
    have d: "drop s (rotate i vs) = rotate i vs ! s # drop (Suc s) (rotate i vs)"
      using True by (simp add: Cons_nth_drop_Suc)
    show ?thesis
    proof (cases "?x \<in> set out")
      case x: True
      have "owners_loop vs i n s seen out = owners_loop vs i n (Suc s) seen out"
        using True x less.prems by (simp add: owners_loop_step Let_def)
      also have "\<dots> = take n (out @ filter (\<lambda>x. x \<notin> set out)
          (nub (map nodeID (drop (Suc s) (rotate i vs)))))"
        using True less.prems by (intro less.hyps) auto
      also have "filter (\<lambda>x. x \<notin> set out) (nub (map nodeID (drop (Suc s) (rotate i vs)))) =
          filter (\<lambda>x. x \<notin> set out) (nub (map nodeID (drop s (rotate i vs))))"
        using x by (auto simp: d filter_filter intro!: filter_cong)
      finally show ?thesis .
    next
      case x: False
      have "owners_loop vs i n s seen out = owners_loop vs i n (Suc s) (?x # seen) (out @ [?x])"
        using True x less.prems by (simp add: owners_loop_step Let_def)
      also have "\<dots> = take n ((out @ [?x]) @ filter (\<lambda>x. x \<notin> set (out @ [?x]))
          (nub (map nodeID (drop (Suc s) (rotate i vs)))))"
        using True less.prems by (intro less.hyps) auto
      also have "filter (\<lambda>x. x \<notin> set (out @ [?x])) (nub (map nodeID (drop (Suc s) (rotate i vs)))) =
          filter (\<lambda>x. x \<notin> set out) (filter (\<lambda>y. y \<noteq> ?x) (nub (map nodeID (drop (Suc s) (rotate i vs)))))"
        by (auto simp: filter_filter intro!: filter_cong)
      finally show ?thesis using x by (simp add: d)
    qed
  next
    case False
    then have "owners_loop vs i n s seen out = out" by (subst owners_loop.simps) auto
    then show ?thesis using False less.prems by (auto simp: le_antisym)
  qed
qed

lemma sorted_point_mono:
  assumes "sorted vs" and "a \<le> b" and "b < length vs"
  shows "point (vs ! a) \<le> point (vs ! b)"
  using sorted_nth_mono [OF assms] by (auto simp: less_eq_vnode_def)

lemma owners_loop_clockwise:
  assumes "sorted vs"
  shows "owners_loop vs (Search (length vs) (\<lambda>i. point (vs ! i) \<ge> key)) n 0 [] [] =
    take n (clockwise vs key)"
proof -
  let ?i = "Search (length vs) (\<lambda>i. key \<le> point (vs ! i))"
  have mono: "key \<le> point (vs ! b)" if "a \<le> b" "b < length vs" "key \<le> point (vs ! a)" for a b
    using sorted_point_mono [OF assms that(1,2)] that(3) by simp
  have split: "take ?i vs = filter (\<lambda>v. \<not> key \<le> point v) vs" "drop ?i vs = filter (\<lambda>v. key \<le> point v) vs"
    using Search_split [of vs "\<lambda>v. key \<le> point v"] mono by auto
  have "?i \<le> length vs"
    using search_loop_correct [of 0 "length vs" "length vs" "\<lambda>i. key \<le> point (vs ! i)"] mono
    by (auto simp: Search_def)
  then have "rotate ?i vs = drop ?i vs @ take ?i vs"
    by (cases "?i = length vs") (auto simp: rotate_drop_take)
  then show ?thesis
    using owners_loop_eq [of "[]" "[]" n 0 vs ?i] by (simp add: clockwise_def split)
qed

subsection \<open>Rings built by New\<close>

lemma vnode_count_pos: "0 < vnode_count v"
  by (simp add: vnode_count_def DefaultVNodes_def)

lemma sorted_vnodes_New: "sorted (vnodes (NewRing e nodes v))"
  by (simp add: NewRing_def)

lemma nodeIDs_New: "nodeID ` set (vnodes (NewRing e nodes v)) = fst ` set nodes"
proof -
  have "nodeID ` set (node_vnodes k x) = {x}" if "0 < k" for k x
    using that by (simp add: node_vnodes_def vnode_of_def image_image image_constant_conv)
  then show ?thesis using vnode_count_pos [of v] by (auto simp: NewRing_def image_UN)
qed

lemma set_clockwise: "set (clockwise vs key) = nodeID ` set vs"
  by (auto simp: clockwise_def)

lemma distinct_clockwise [simp]: "distinct (clockwise vs key)"
  by (simp add: clockwise_def)

lemma clockwise_filter:
  "clockwise (filter (\<lambda>v. P (nodeID v)) vs) key = filter P (clockwise vs key)"
  by (simp add: clockwise_def filter_nub filter_map comp_def conj_commute)

lemma length_clockwise_New:
  assumes "distinct (map fst nodes)"
  shows "length (clockwise (vnodes (NewRing e nodes v)) key) = length nodes"
proof -
  have "length (clockwise (vnodes (NewRing e nodes v)) key) = card (fst ` set nodes)"
    by (metis distinct_card distinct_clockwise nodeIDs_New set_clockwise)
  also have "\<dots> = length nodes" using distinct_card [OF assms] by simp
  finally show ?thesis .
qed

lemma Owners_New:
  assumes "distinct (map fst nodes)" and "8 \<le> length key"
  shows "Owners (NewRing e nodes v) key n =
    Some (take (nat n) (clockwise (vnodes (NewRing e nodes v)) (Uint64 key)))"
proof (cases "vnodes (NewRing e nodes v) = [] \<or> n \<le> 0")
  case True
  then show ?thesis by (auto simp: Owners_def clockwise_def)
next
  case False
  let ?vs = "vnodes (NewRing e nodes v)"
  have "addrs (NewRing e nodes v) = nodes" by (simp add: NewRing_def)
  then show ?thesis
    using False assms owners_loop_clockwise [OF sorted_vnodes_New, of e nodes v "Uint64 key"]
      length_clockwise_New [OF assms(1), of e v "Uint64 key"]
    by (auto simp: Owners_def Let_def)
qed

lemma vnodes_New_filter:
  "vnodes (NewRing e (filter (\<lambda>p. P (fst p)) nodes) v) =
   filter (\<lambda>w. P (nodeID w)) (vnodes (NewRing e' nodes v))"
proof -
  let ?f = "node_vnodes (vnode_count v)"
  have "filter (\<lambda>w. P (nodeID w)) (?f x) = (if P x then ?f x else [])" for x
    by (auto simp: node_vnodes_def vnode_of_def filter_map comp_def)
  then have "concat (map (?f \<circ> fst) (filter (\<lambda>p. P (fst p)) nodes)) =
      filter (\<lambda>w. P (nodeID w)) (concat (map (?f \<circ> fst) nodes))"
    by (induction nodes) auto
  then show ?thesis by (simp add: NewRing_def filter_sort)
qed

lemma vnodes_New_cong:
  assumes "distinct (map fst nodes)" and "distinct (map fst nodes')" and "map_of nodes = map_of nodes'"
  shows "vnodes (NewRing e nodes v) = vnodes (NewRing e nodes' v)"
proof -
  have "mset nodes = mset nodes'"
    using assms map_of_inject_set [OF assms(1,2)]
    by (metis distinct_map set_eq_iff_mset_eq_distinct)
  then have "mset (concat (map f nodes)) = mset (concat (map f nodes'))"
    for f :: "string \<times> string \<Rightarrow> vnode list"
    by (metis mset_concat mset_map sum_mset_sum_list)
  then show ?thesis
    unfolding NewRing_def by (simp add: properties_for_sort)
qed

lemma take_filter_neq:
  assumes "distinct xs"
  shows "take n (filter (\<lambda>y. y \<noteq> x) xs) =
    (if x \<in> set (take n xs) then remove1 x (take (Suc n) xs) else take n xs)"
  using assms
proof (induction xs arbitrary: n)
  case (Cons y ys)
  show ?case
  proof (cases n)
    case (Suc k)
    show ?thesis
    proof (cases "y = x")
      case True
      then have "filter (\<lambda>y. y \<noteq> x) ys = ys" using Cons.prems by (auto simp: filter_id_conv)
      then show ?thesis using Suc True by simp
    next
      case False
      then show ?thesis using Suc Cons by auto
    qed
  qed simp
qed simp

subsection \<open>Properties\<close>

text \<open>
  C9: routing is total, duplicate-free and as wide as the fleet allows. On every ring built by
  \<^const>\<open>NewRing\<close>, \<^const>\<open>Owners\<close> of a key of at least eight bytes returns the first \<open>n\<close> nodes
  of the clockwise walk from the key's point: distinct members of the ring, exactly \<open>n\<close> of them or
  all members when there are fewer, and asking for fewer owners returns a prefix.
\<close>

theorem Owners_spec:
  assumes "distinct (map fst nodes)" and "8 \<le> length key"
  shows "\<exists>os. Owners (NewRing e nodes v) key n = Some os \<and>
    os = take (nat n) (clockwise (vnodes (NewRing e nodes v)) (Uint64 key)) \<and>
    distinct os \<and> set os \<subseteq> fst ` set nodes \<and> length os = min (nat n) (length nodes) \<and>
    Owners (NewRing e nodes v) key (min m n) = Some (take (nat m) os)"
proof -
  let ?c = "clockwise (vnodes (NewRing e nodes v)) (Uint64 key)"
  have "set (take (nat n) ?c) \<subseteq> fst ` set nodes"
    using set_take_subset [of "nat n" ?c] by (simp add: set_clockwise nodeIDs_New)
  moreover have "nat (min m n) = min (nat m) (nat n)" by (simp add: min_def)
  ultimately show ?thesis
    by (simp add: Owners_New [OF assms] length_clockwise_New [OF assms(1)] min.commute)
qed

theorem Owners_spec_witness:
  "\<exists>os. Owners (NewRing 1 [(''cn-1'', ''a:1''), (''cn-2'', ''b:1'')] 4) (replicate 32 7) 2 = Some os \<and>
    distinct os \<and> set os \<subseteq> {''cn-1'', ''cn-2''} \<and> length os = 2"
  using Owners_spec [of "[(''cn-1'', ''a:1''), (''cn-2'', ''b:1'')]" "replicate 32 7" 1 4 2]
  by auto

text \<open>
  C29: the ring does not depend on the order in which Go iterates the membership map: two
  enumerations of the same map build the same sorted virtual nodes, so every gateway, cache node
  and prefetcher routes every key alike.
\<close>

theorem NewRing_map_order:
  assumes "distinct (map fst nodes)" and "distinct (map fst nodes')" and "map_of nodes = map_of nodes'"
  shows "vnodes (NewRing e nodes v) = vnodes (NewRing e nodes' v) \<and>
    Owners (NewRing e nodes v) key n = Owners (NewRing e nodes' v) key n \<and>
    Owner (NewRing e nodes v) key = Owner (NewRing e nodes' v) key \<and>
    Size (NewRing e nodes v) = Size (NewRing e nodes' v)"
proof -
  have len: "length nodes = length nodes'"
    using assms map_of_inject_set [OF assms(1,2)] by (metis distinct_card distinct_map)
  have vs: "vnodes (NewRing e nodes v) = vnodes (NewRing e nodes' v)"
    by (rule vnodes_New_cong [OF assms])
  have ad: "addrs (NewRing e nodes v) = nodes" "addrs (NewRing e nodes' v) = nodes'"
    by (simp_all add: NewRing_def)
  have own: "Owners (NewRing e nodes v) key n = Owners (NewRing e nodes' v) key n" for n
    by (simp add: Owners_def vs ad len)
  then show ?thesis by (simp add: Owner_def Size_def vs ad len assms(3) split: option.split list.split)
qed

theorem NewRing_map_order_witness:
  "Owners (NewRing 1 [(''a'', ''x''), (''b'', ''y'')] 0) (replicate 32 9) 1 =
   Owners (NewRing 1 [(''b'', ''y''), (''a'', ''x'')] 0) (replicate 32 9) 1"
  using NewRing_map_order [of "[(''a'', ''x''), (''b'', ''y'')]" "[(''b'', ''y''), (''a'', ''x'')]"]
  by (auto simp: fun_eq_iff)

text \<open>
  C28: a membership change shifts at most one owner. When node \<open>x\<close> leaves (read backwards: joins),
  a key \<open>x\<close> did not own keeps its owner list unchanged, and a key it owned keeps every other owner
  in order and gains only the next node of the walk.
\<close>

theorem Owners_leave:
  assumes "distinct (map fst nodes)" and "8 \<le> length key"
    and "Owners (NewRing e nodes v) key n = Some os"
    and "Owners (NewRing e nodes v) key (n + 1) = Some os1"
  shows "Owners (NewRing e' (filter (\<lambda>p. fst p \<noteq> x) nodes) v) key n =
    Some (if x \<in> set os then remove1 x os1 else os)"
proof -
  let ?c = "clockwise (vnodes (NewRing e nodes v)) (Uint64 key)"
  have d: "distinct (map fst (filter (\<lambda>p. fst p \<noteq> x) nodes))"
    using assms(1) by (simp add: distinct_map_filter)
  have "clockwise (vnodes (NewRing e' (filter (\<lambda>p. fst p \<noteq> x) nodes) v)) (Uint64 key) =
      filter (\<lambda>y. y \<noteq> x) ?c"
    using vnodes_New_filter [of e' "\<lambda>y. y \<noteq> x" nodes v e]
    by (simp add: clockwise_filter [of "\<lambda>y. y \<noteq> x"])
  moreover have "os = take (nat n) ?c" "os1 = take (nat (n + 1)) ?c"
    using assms(3,4) by (simp_all add: Owners_New [OF assms(1,2)])
  moreover have "0 < n \<Longrightarrow> nat (n + 1) = Suc (nat n)" by simp
  ultimately show ?thesis
    by (cases "0 < n") (simp_all add: Owners_New [OF d assms(2)] take_filter_neq)
qed

theorem Owners_leave_witness:
  "\<exists>os os1. Owners (NewRing 1 [(''a'', ''x''), (''b'', ''y''), (''c'', ''z'')] 0) (replicate 32 9) 2 = Some os \<and>
     Owners (NewRing 1 [(''a'', ''x''), (''b'', ''y''), (''c'', ''z'')] 0) (replicate 32 9) 3 = Some os1 \<and>
     Owners (NewRing 2 [(''a'', ''x''), (''c'', ''z'')] 0) (replicate 32 9) 2 =
       Some (if ''b'' \<in> set os then remove1 ''b'' os1 else os)"
proof -
  let ?ns = "[(''a'', ''x''), (''b'', ''y''), (''c'', ''z'')]"
  have d: "distinct (map fst ?ns)" by simp
  have k: "8 \<le> length (replicate 32 (9 :: byte))" by simp
  show ?thesis
    using Owners_leave [OF d k Owners_New [OF d k, of 1 0 2] Owners_New [OF d k, of 1 0 "2 + 1"],
        of 2 "''b''"] Owners_New [OF d k, of 1 0] by simp
qed

end
