(* ===== verification/Acceptor.thy ===== *)
theory Acceptor
  imports Prelude
begin

text \<open>
  Ballots and the acceptor role of a Paxos replica, \<^verbatim>\<open>internal/paxos/paxos.go\<close>. The acceptor
  is its map of slots; every handler runs under the acceptor's mutex and is one function from the
  state to the reply and the new state. A nil byte slice is \<^term>\<open>None\<close>.
\<close>

subsection \<open>Ballots\<close>

type_synonym ballot = u64
type_synonym slot = u64
type_synonym pvalue = "bytes option"

definition MakeBallot :: "u64 \<Rightarrow> 8 word \<Rightarrow> ballot" where
  "MakeBallot round replicaIdx = push_bit 8 round OR ucast replicaIdx"

definition Round :: "ballot \<Rightarrow> u64" where
  "Round b = drop_bit 8 b"

text \<open>The low byte of a ballot is the index of the replica that made it.\<close>

definition ballot_idx :: "ballot \<Rightarrow> 8 word" where
  "ballot_idx b = ucast b"

lemma uint_MakeBallot:
  assumes "round < 2 ^ 56"
  shows "uint (MakeBallot round i) = uint round * 256 + uint i"
proof -
  have r: "uint round < 2 ^ 56" using assms by (simp add: word_less_def)
  have i: "uint i < 256" using uint_lt2p [of i] by simp
  have dis: "push_bit 8 round AND ucast i = (0 :: u64)"
    by (rule bit_word_eqI) (auto simp: bit_simps dest: bit_imp_le_length)
  have "MakeBallot round i = push_bit 8 round + ucast i"
    unfolding MakeBallot_def by (rule disjunctive_add_eq_or [symmetric, OF dis])
  moreover have "uint (push_bit 8 round) = uint round * 256"
    using r by (simp add: push_bit_eq_mult uint_word_ariths)
  moreover have "uint (ucast i :: u64) = uint i" by (rule uint_up_ucast) (simp add: is_up)
  ultimately show ?thesis using r i by (simp add: uint_word_ariths)
qed

lemma Round_MakeBallot [simp]:
  assumes "round < 2 ^ 56"
  shows "Round (MakeBallot round i) = round"
proof -
  have "uint i < 256" using uint_lt2p [of i] by simp
  then have "uint (Round (MakeBallot round i)) = uint round"
    by (simp add: Round_def drop_bit_eq_div uint_div_distrib uint_MakeBallot [OF assms])
  then show ?thesis by (simp add: word_uint_eq_iff)
qed

lemma ballot_idx_MakeBallot [simp]: "ballot_idx (MakeBallot round i) = i"
  unfolding ballot_idx_def MakeBallot_def
  by (rule bit_word_eqI) (auto simp: bit_simps)

lemma MakeBallot_less_iff:
  assumes "r < 2 ^ 56" and "r' < 2 ^ 56"
  shows "MakeBallot r i < MakeBallot r' i' \<longleftrightarrow> r < r' \<or> r = r' \<and> i < i'"
proof -
  have lex: "x * 256 + a < y * 256 + b \<longleftrightarrow> x < y \<or> x = y \<and> a < b"
    if "0 \<le> a" "a < 256" "0 \<le> b" "b < 256" for x y a b :: int
    using that by (cases x y rule: linorder_cases) auto
  have "uint i < 256" "uint i' < 256" using uint_lt2p [of i] uint_lt2p [of i'] by simp_all
  then show ?thesis
    by (simp add: word_less_def uint_MakeBallot [OF assms(1)] uint_MakeBallot [OF assms(2)]
        word_uint_eq_iff lex)
qed

subsection \<open>The acceptor\<close>

record acceptorSlot =
  promised :: ballot
  acceptedBallot :: ballot
  acceptedValue :: pvalue

type_synonym acceptor = "slot \<rightharpoonup> acceptorSlot"

record PrepareReply =
  Promised :: bool
  AcceptedBallot :: ballot
  AcceptedValue :: pvalue
  PromisedBallot :: ballot

record AcceptReply =
  Accepted :: bool
  APromisedBallot :: ballot

definition NewAcceptor :: acceptor where
  "NewAcceptor = Map.empty"

definition acc_slot :: "acceptor \<Rightarrow> slot \<Rightarrow> acceptorSlot" where
  "acc_slot a s =
     (case a s of Some sl \<Rightarrow> sl
      | None \<Rightarrow> \<lparr>promised = 0, acceptedBallot = 0, acceptedValue = None\<rparr>)"

definition acc_Prepare :: "acceptor \<Rightarrow> slot \<Rightarrow> ballot \<Rightarrow> PrepareReply \<times> acceptor" where
  "acc_Prepare a s b =
     (let sl = acc_slot a s
      in if b > promised sl
         then (\<lparr>Promised = True, AcceptedBallot = acceptedBallot sl,
                AcceptedValue = acceptedValue sl, PromisedBallot = b\<rparr>,
               a(s \<mapsto> sl\<lparr>promised := b\<rparr>))
         else (\<lparr>Promised = False, AcceptedBallot = acceptedBallot sl,
                AcceptedValue = acceptedValue sl, PromisedBallot = promised sl\<rparr>,
               a(s \<mapsto> sl)))"

definition acc_Accept :: "acceptor \<Rightarrow> slot \<Rightarrow> ballot \<Rightarrow> pvalue \<Rightarrow> AcceptReply \<times> acceptor" where
  "acc_Accept a s b v =
     (let sl = acc_slot a s
      in if b \<ge> promised sl
         then (\<lparr>Accepted = True, APromisedBallot = b\<rparr>,
               a(s \<mapsto> sl\<lparr>promised := b, acceptedBallot := b, acceptedValue := v\<rparr>))
         else (\<lparr>Accepted = False, APromisedBallot = promised sl\<rparr>, a(s \<mapsto> sl)))"

lemma acc_slot_New [simp]:
  "acc_slot NewAcceptor s = \<lparr>promised = 0, acceptedBallot = 0, acceptedValue = None\<rparr>"
  by (simp add: acc_slot_def NewAcceptor_def)

lemma acc_slot_upd [simp]: "acc_slot (a(s \<mapsto> x)) s' = (if s' = s then x else acc_slot a s')"
  by (simp add: acc_slot_def)

lemma acc_slot_Prepare:
  "acc_slot (snd (acc_Prepare a s b)) s' =
     (if s' = s \<and> promised (acc_slot a s) < b then (acc_slot a s)\<lparr>promised := b\<rparr> else acc_slot a s')"
  by (simp add: acc_Prepare_def Let_def)

lemma acc_slot_Accept:
  "acc_slot (snd (acc_Accept a s b v)) s' =
     (if s' = s \<and> promised (acc_slot a s) \<le> b
      then (acc_slot a s)\<lparr>promised := b, acceptedBallot := b, acceptedValue := v\<rparr>
      else acc_slot a s')"
  by (simp add: acc_Accept_def Let_def)

lemma Promised_acc_Prepare:
  "Promised (fst (acc_Prepare a s b)) \<longleftrightarrow> promised (acc_slot a s) < b"
  by (simp add: acc_Prepare_def Let_def)

lemma Accepted_acc_Accept:
  "Accepted (fst (acc_Accept a s b v)) \<longleftrightarrow> promised (acc_slot a s) \<le> b"
  by (simp add: acc_Accept_def Let_def)

lemma reply_acc_Prepare [simp]:
  "AcceptedBallot (fst (acc_Prepare a s b)) = acceptedBallot (acc_slot a s)"
  "AcceptedValue (fst (acc_Prepare a s b)) = acceptedValue (acc_slot a s)"
  by (simp_all add: acc_Prepare_def Let_def)

subsection \<open>Properties\<close>

text \<open>
  C37: ballots are totally ordered by round first and replica index second, so two different
  replicas never share a ballot and a proposer that catches up to a competitor's round and adds one
  overtakes every ballot of that round; this holds for rounds below \<open>2 ^ 56\<close>, the width the shift
  by eight bits leaves.
\<close>

theorem MakeBallot_order:
  assumes "r < 2 ^ 56" and "r' < 2 ^ 56"
  shows "(MakeBallot r i < MakeBallot r' i' \<longleftrightarrow> r < r' \<or> r = r' \<and> i < i') \<and>
    (MakeBallot r i = MakeBallot r' i' \<longleftrightarrow> r = r' \<and> i = i') \<and>
    Round (MakeBallot r i) = r"
  using MakeBallot_less_iff [OF assms] assms
  by (metis Round_MakeBallot ballot_idx_MakeBallot)

theorem MakeBallot_order_witness:
  "MakeBallot 3 2 < MakeBallot 4 0 \<and> MakeBallot 3 0 < MakeBallot 3 2 \<and> Round (MakeBallot 3 2) = 3"
  using MakeBallot_order [of 3 4 2 0] MakeBallot_order [of 3 3 0 2] by simp

text \<open>A request to an acceptor and the run of a sequence of requests.\<close>

datatype acc_req = ReqPrepare slot ballot | ReqAccept slot ballot pvalue

fun acc_handle :: "acceptor \<Rightarrow> acc_req \<Rightarrow> acceptor" where
  "acc_handle a (ReqPrepare s b) = snd (acc_Prepare a s b)"
| "acc_handle a (ReqAccept s b v) = snd (acc_Accept a s b v)"

lemma acc_handle_promised_mono: "promised (acc_slot a s) \<le> promised (acc_slot (acc_handle a q) s)"
  by (cases q) (auto simp: acc_slot_Prepare acc_slot_Accept)

lemma acc_run_promised_mono: "promised (acc_slot a s) \<le> promised (acc_slot (foldl acc_handle a qs) s)"
  by (induction qs arbitrary: a) (auto intro: order_trans acc_handle_promised_mono)

lemma acc_run_accepted_le:
  "acceptedBallot (acc_slot a s) \<le> promised (acc_slot a s) \<Longrightarrow>
   acceptedBallot (acc_slot (foldl acc_handle a qs) s) \<le> promised (acc_slot (foldl acc_handle a qs) s)"
proof (induction qs arbitrary: a)
  case (Cons q qs)
  then have "acceptedBallot (acc_slot (acc_handle a q) s) \<le> promised (acc_slot (acc_handle a q) s)"
    by (cases q) (auto simp: acc_slot_Prepare acc_slot_Accept)
  then show ?case by (simp add: Cons.IH)
qed simp



end
