(* ===== verification/PaxosLog.thy ===== *)
theory PaxosLog
  imports Acceptor
begin

text \<open>
  The learner, \<^verbatim>\<open>internal/paxos/log.go\<close>. The map of chosen values is an association list
  with distinct slots; the apply callback is a function on the state of whoever owns it (the
  directory's state machine), threaded through \<open>Commit\<close>. The two scanning loops of the code stop
  at the first slot that is not in the map; their fuel is one more than the number of chosen
  slots, which is enough (\<open>apply_loop_exits\<close>, \<open>first_unchosen_loop_exits\<close>).
\<close>

subsection \<open>Definitions\<close>

type_synonym 'st apply_fn = "slot \<Rightarrow> bytes \<Rightarrow> 'st \<Rightarrow> 'st"

record 'st plog =
  chosen :: "(slot \<times> bytes) list"
  applied :: u64
  maxSeen :: u64
  smst :: 'st

definition NewLog :: "'st \<Rightarrow> 'st plog" where
  "NewLog st0 = \<lparr>chosen = [], applied = 0, maxSeen = 0, smst = st0\<rparr>"

fun apply_loop :: "nat \<Rightarrow> 'st apply_fn \<Rightarrow> 'st plog \<Rightarrow> 'st plog" where
  "apply_loop 0 f l = l"
| "apply_loop (Suc fuel) f l =
     (case map_of (chosen l) (applied l) of
        None \<Rightarrow> l
      | Some v \<Rightarrow> apply_loop fuel f (l\<lparr>smst := f (applied l) v (smst l), applied := applied l + 1\<rparr>))"

definition Commit :: "'st apply_fn \<Rightarrow> slot \<Rightarrow> bytes \<Rightarrow> 'st plog \<Rightarrow> 'st plog" where
  "Commit f s v l =
     (case map_of (chosen l) s of
        Some prev \<Rightarrow> l
      | None \<Rightarrow>
          let l1 = l\<lparr>chosen := (s, v) # chosen l\<rparr>;
              l2 = (if s + 1 > maxSeen l1 then l1\<lparr>maxSeen := s + 1\<rparr> else l1)
          in apply_loop (Suc (length (chosen l2))) f l2)"

fun first_unchosen_loop :: "nat \<Rightarrow> (slot \<times> bytes) list \<Rightarrow> slot \<Rightarrow> slot" where
  "first_unchosen_loop 0 ch s = s"
| "first_unchosen_loop (Suc fuel) ch s =
     (case map_of ch s of None \<Rightarrow> s | Some _ \<Rightarrow> first_unchosen_loop fuel ch (s + 1))"

definition FirstUnchosen :: "'st plog \<Rightarrow> slot" where
  "FirstUnchosen l = first_unchosen_loop (Suc (length (chosen l))) (chosen l) (applied l)"

function gap_loop :: "(slot \<times> bytes) list \<Rightarrow> slot \<Rightarrow> slot \<Rightarrow> (slot \<times> bool)" where
  "gap_loop ch s m =
     (if s < m
      then case map_of ch s of None \<Rightarrow> (s, True) | Some _ \<Rightarrow> gap_loop ch (s + 1) m
      else (0, False))"
  by pat_completeness auto
termination
proof (relation "measure (\<lambda>(ch, s, m). unat m - unat s)", goal_cases)
  case (2 ch s m x)
  then have "unat s < unat m" by (simp add: word_less_nat_alt)
  moreover have "unat (s + 1) = Suc (unat s)"
    using 2 by (intro unat_plus_one less_imp_not_max)
  ultimately show ?case by simp
qed simp

declare gap_loop.simps [simp del]

definition Gap :: "'st plog \<Rightarrow> slot \<times> bool" where
  "Gap l = gap_loop (chosen l) (applied l) (maxSeen l)"

definition Applied :: "'st plog \<Rightarrow> u64" where
  "Applied l = applied l"

subsection \<open>The invariant\<close>

text \<open>
  Slots below \<open>applied\<close> are chosen, the slot \<open>applied\<close> is not, \<open>maxSeen\<close> bounds the chosen slots,
  and the callback's state is the fold of the callback over the chosen values of the slots
  \<open>0 .. applied - 1\<close> in slot order. The number of chosen slots stays below \<open>2 ^ 64 - 1\<close>.
\<close>

definition replay :: "'st apply_fn \<Rightarrow> (slot \<times> bytes) list \<Rightarrow> nat \<Rightarrow> 'st \<Rightarrow> 'st" where
  "replay f ch n st0 =
     fold (\<lambda>k st. case map_of ch (word_of_nat k) of None \<Rightarrow> st | Some v \<Rightarrow> f (word_of_nat k) v st)
       [0..<n] st0"

definition log_pre :: "'st apply_fn \<Rightarrow> 'st \<Rightarrow> 'st plog \<Rightarrow> bool" where
  "log_pre f st0 l \<longleftrightarrow>
     distinct (map fst (chosen l)) \<and>
     (\<forall>s < applied l. s \<in> fst ` set (chosen l)) \<and>
     smst l = replay f (chosen l) (unat (applied l)) st0"

definition log_inv :: "'st apply_fn \<Rightarrow> 'st \<Rightarrow> 'st plog \<Rightarrow> bool" where
  "log_inv f st0 l \<longleftrightarrow>
     log_pre f st0 l \<and> applied l \<notin> fst ` set (chosen l) \<and>
     (\<forall>s \<in> fst ` set (chosen l). s < - 1 \<longrightarrow> s < maxSeen l) \<and>
     (maxSeen l = 0 \<or> maxSeen l - 1 \<in> fst ` set (chosen l))"

definition commits :: "'st apply_fn \<Rightarrow> 'st \<Rightarrow> (slot \<times> bytes) list \<Rightarrow> 'st plog" where
  "commits f st0 cs = fold (\<lambda>(s, v). Commit f s v) cs (NewLog st0)"

lemma map_of_eq_None_fst: "map_of xs k = None \<longleftrightarrow> k \<notin> fst ` set xs"
  by (simp add: map_of_eq_None_iff)

text \<open>Slots below a bound that are all chosen number at most the chosen ones.\<close>

lemma below_chosen_card:
  assumes "\<forall>s < a. s \<in> fst ` set ch"
  shows "unat (a :: u64) \<le> length ch"
proof -
  have "{s. s < a} = word_of_nat ` {0..<unat a}"
  proof (safe, goal_cases)
    case (1 x)
    then show ?case by (intro image_eqI [of _ _ "unat x"]) (auto simp: word_less_nat_alt)
  next
    case (2 _ n)
    then show ?case by (simp add: word_less_nat_alt unat_word_of_nat_le [of n a])
  qed
  moreover have "inj_on (word_of_nat :: nat \<Rightarrow> u64) {0..<unat a}"
    by (intro inj_onI) (metis atLeastLessThan_iff less_imp_le unat_word_of_nat_le)
  ultimately have "card {s. s < a} = unat a" by (simp add: card_image)
  moreover have "card {s. s < a} \<le> card (fst ` set ch)"
    using assms by (intro card_mono) auto
  moreover have "card (fst ` set ch) \<le> length ch"
    using card_image_le [of "set ch" fst] card_length [of ch] by simp
  ultimately show ?thesis by simp
qed

lemma replay_Suc:
  "replay f ch (Suc n) st0 =
     (case map_of ch (word_of_nat n) of None \<Rightarrow> replay f ch n st0
      | Some v \<Rightarrow> f (word_of_nat n) v (replay f ch n st0))"
  by (simp add: replay_def split: option.split)

lemma replay_Cons:
  assumes "n \<le> unat s"
  shows "replay f ((s, v) # ch) n st0 = replay f ch n st0"
  unfolding replay_def
proof (rule fold_cong)
  fix k assume "k \<in> set [0..<n]"
  then have "k \<le> unat s" and "k \<noteq> unat s" using assms by auto
  then have "word_of_nat k \<noteq> s" by (metis unat_word_of_nat_le)
  then show "(\<lambda>st. case map_of ((s, v) # ch) (word_of_nat k) of None \<Rightarrow> st | Some v \<Rightarrow> f (word_of_nat k) v st) =
      (\<lambda>st. case map_of ch (word_of_nat k) of None \<Rightarrow> st | Some v \<Rightarrow> f (word_of_nat k) v st)"
    by simp
qed simp_all

lemma apply_loop_exits:
  assumes "log_pre f st0 l" and "length (chosen l) < 2 ^ 64 - 1"
    and "length (chosen l) < unat (applied l) + fuel"
  shows "log_pre f st0 (apply_loop fuel f l) \<and>
    applied (apply_loop fuel f l) \<notin> fst ` set (chosen l) \<and>
    chosen (apply_loop fuel f l) = chosen l \<and> maxSeen (apply_loop fuel f l) = maxSeen l \<and>
    applied l \<le> applied (apply_loop fuel f l)"
  using assms
proof (induction fuel arbitrary: l)
  case 0
  then have "unat (applied l) \<le> length (chosen l)"
    by (intro below_chosen_card) (auto simp: log_pre_def)
  then show ?case using 0 by simp
next
  case (Suc fuel)
  have le: "unat (applied l) \<le> length (chosen l)"
    using Suc.prems by (intro below_chosen_card) (auto simp: log_pre_def)
  show ?case
  proof (cases "map_of (chosen l) (applied l)")
    case None
    moreover have "applied l \<notin> fst ` set (chosen l)" using None by (simp add: map_of_eq_None_fst)
    ultimately show ?thesis using Suc.prems by simp
  next
    case (Some v)
    let ?l = "l\<lparr>smst := f (applied l) v (smst l), applied := applied l + 1\<rparr>"
    have nm: "applied l \<noteq> - 1"
      using le Suc.prems(2) unat_max_word [where 'a = 64] by auto
    have "applied l \<in> fst ` set (chosen l)" using Some by (metis map_of_eq_None_fst option.distinct(1))
    then have "log_pre f st0 ?l"
      using Suc.prems(1) Some
      by (auto simp: log_pre_def less_plus_one_iff [OF nm] unat_plus_one [OF nm] replay_Suc order_le_less)
    moreover have "applied l \<le> applied l + 1"
      by (simp add: word_le_nat_alt unat_plus_one [OF nm])
    ultimately show ?thesis
      using Suc.IH [of ?l] Suc.prems(2-) Some by (auto simp: unat_plus_one [OF nm])
  qed
qed

lemma first_unchosen_loop_here:
  "s \<notin> fst ` set ch \<Longrightarrow> first_unchosen_loop fuel ch s = s"
  by (cases fuel) (auto split: option.split dest: map_of_SomeD intro: rev_image_eqI)

lemma gap_loop_here:
  assumes "s \<notin> fst ` set ch"
  shows "gap_loop ch s m = (if s < m then (s, True) else (0, False))"
  using assms by (auto simp: gap_loop.simps [of ch s m] split: option.split dest: map_of_SomeD intro: rev_image_eqI)

subsection \<open>Correctness\<close>

lemma log_inv_NewLog: "log_inv f st0 (NewLog st0)"
  by (simp add: log_inv_def log_pre_def NewLog_def replay_def)

lemma replay_prefix:
  assumes "\<forall>k < n. map_of ch (word_of_nat k) = map_of ch' (word_of_nat k)"
  shows "replay f ch n st0 = replay f ch' n st0"
  unfolding replay_def using assms by (intro fold_cong) auto

lemma log_inv_applied_le:
  assumes "log_inv f st0 l" and "s \<notin> fst ` set (chosen l)"
  shows "applied l \<le> s"
  using assms by (force simp: log_inv_def log_pre_def not_less [symmetric])

lemma log_pre_insert:
  assumes inv: "log_inv f st0 l" and new: "s \<notin> fst ` set (chosen l)"
  shows "log_pre f st0 (l\<lparr>chosen := (s, v) # chosen l, maxSeen := m\<rparr>)"
proof -
  have "unat (applied l) \<le> unat s"
    using log_inv_applied_le [OF inv new] by (simp add: word_le_nat_alt)
  then show ?thesis
    using inv new by (auto simp: log_inv_def log_pre_def replay_Cons)
qed

lemma Commit_new:
  assumes "s \<notin> fst ` set (chosen l)"
  shows "Commit f s v l =
    apply_loop (Suc (Suc (length (chosen l)))) f
      (l\<lparr>chosen := (s, v) # chosen l, maxSeen := max (maxSeen l) (s + 1)\<rparr>)"
proof -
  have "map_of (chosen l) s = None" using assms by (simp add: map_of_eq_None_fst)
  then show ?thesis
    by (cases l) (simp add: Commit_def Let_def max_def del: apply_loop.simps)
qed

lemma Commit_known:
  "s \<in> fst ` set (chosen l) \<Longrightarrow> Commit f s v l = l"
  by (cases "map_of (chosen l) s") (auto simp: Commit_def map_of_eq_None_iff)

lemma chosen_apply_loop [simp]: "chosen (apply_loop fuel f l) = chosen l"
  by (induction fuel arbitrary: l) (simp_all split: option.split)

lemma chosen_Commit:
  "chosen (Commit f s v l) = (if s \<in> fst ` set (chosen l) then chosen l else (s, v) # chosen l)"
  by (simp add: Commit_known Commit_new del: apply_loop.simps)

lemma Commit_chosen:
  assumes "log_inv f st0 l" and "length (chosen l) < 2 ^ 64 - 2" and "s \<notin> fst ` set (chosen l)"
  shows "log_pre f st0 (Commit f s v l)" and "chosen (Commit f s v l) = (s, v) # chosen l"
    and "applied (Commit f s v l) \<notin> insert s (fst ` set (chosen l))"
    and "maxSeen (Commit f s v l) = max (maxSeen l) (s + 1)"
    and "applied l \<le> applied (Commit f s v l)"
  using apply_loop_exits [OF log_pre_insert [OF assms(1,3), where v = v and m = "max (maxSeen l) (s + 1)"],
      of "Suc (Suc (length (chosen l)))"] assms(2)
  by (simp_all add: Commit_new [OF assms(3)] del: apply_loop.simps)

lemma log_inv_Commit:
  assumes inv: "log_inv f st0 l" and len: "length (chosen l) < 2 ^ 64 - 2"
  shows "log_inv f st0 (Commit f s v l)"
proof (cases "s \<in> fst ` set (chosen l)")
  case True
  then show ?thesis using inv by (simp add: Commit_known)
next
  case False
  note [simp] = Commit_chosen(2,4) [OF inv len False]
  have "t < max (maxSeen l) (s + 1)" if "t \<in> insert s (fst ` set (chosen l))" "t < - 1" for t
  proof (cases "t = s")
    case True
    then have "s \<noteq> - 1" using that(2) by auto
    then show ?thesis
      using True by (simp add: less_max_iff_disj less_plus_one_iff)
  next
    case False
    then show ?thesis using that inv by (auto simp: log_inv_def less_max_iff_disj)
  qed
  moreover have "max (maxSeen l) (s + 1) = 0 \<or>
      max (maxSeen l) (s + 1) - 1 \<in> insert s (fst ` set (chosen l))"
    using inv by (auto simp: log_inv_def max_def)
  ultimately show ?thesis
    using Commit_chosen(1,3) [OF inv len False, of v] by (simp add: log_inv_def)
qed

lemma map_of_Commit:
  assumes "log_inv f st0 l" and "length (chosen l) < 2 ^ 64 - 2"
  shows "map_of (chosen (Commit f s v l)) =
    (if s \<in> fst ` set (chosen l) then map_of (chosen l) else (map_of (chosen l))(s \<mapsto> v))"
  using Commit_chosen(2) [OF assms, of s v] by (simp add: Commit_known)

lemma length_Commit:
  assumes "log_inv f st0 l" and "length (chosen l) < 2 ^ 64 - 2"
  shows "length (chosen (Commit f s v l)) \<le> Suc (length (chosen l))"
  using Commit_chosen(2) [OF assms, of s v] by (cases "s \<in> fst ` set (chosen l)") (simp_all add: Commit_known)

lemma commits_snoc: "commits f st0 (cs @ [(s, v)]) = Commit f s v (commits f st0 cs)"
  by (simp add: commits_def)

text \<open>The first commit of a slot is the one the log keeps.\<close>

lemma commits_inv:
  assumes "length cs < 2 ^ 64 - 2"
  shows "log_inv f st0 (commits f st0 cs) \<and> length (chosen (commits f st0 cs)) \<le> length cs \<and>
    map_of (chosen (commits f st0 cs)) = map_of cs"
  using assms
proof (induction cs rule: rev_induct)
  case Nil
  then show ?case by (simp add: commits_def log_inv_NewLog) (simp add: NewLog_def)
next
  case (snoc c cs)
  obtain s v where c: "c = (s, v)" by fastforce
  let ?l = "commits f st0 cs"
  have IH: "log_inv f st0 ?l" "length (chosen ?l) \<le> length cs" "map_of (chosen ?l) = map_of cs"
    using snoc by auto
  then have len: "length (chosen ?l) < 2 ^ 64 - 2" using snoc.prems by simp
  have "fst ` set (chosen ?l) = fst ` set cs"
    using IH(3) by (simp add: dom_map_of_conv_image_fst [symmetric])
  then have "map_of (chosen (Commit f s v ?l)) = map_of (cs @ [c])"
    by (auto simp: map_of_Commit [OF IH(1) len] IH(3) c map_add_def fun_eq_iff dom_map_of_conv_image_fst [symmetric] split: option.split)
  then show ?case
    using log_inv_Commit [OF IH(1) len] length_Commit [OF IH(1) len, of s v] IH(2)
    by (simp add: c commits_snoc)
qed

lemma log_inv_applied_unique:
  assumes "log_inv f st0 l" and "log_inv g st1 l'" and "fst ` set (chosen l) = fst ` set (chosen l')"
  shows "applied l = applied l'"
  using assms by (metis log_inv_applied_le log_inv_def order_antisym)

lemma log_inv_FirstUnchosen: "log_inv f st0 l \<Longrightarrow> FirstUnchosen l = applied l"
  by (simp add: FirstUnchosen_def log_inv_def first_unchosen_loop_here del: first_unchosen_loop.simps)

lemma log_inv_Gap:
  "log_inv f st0 l \<Longrightarrow> Gap l = (if applied l < maxSeen l then (applied l, True) else (0, False))"
  by (simp add: Gap_def log_inv_def gap_loop_here)

lemma replay_all_chosen:
  assumes "\<forall>k < n. map_of ch (word_of_nat k) \<noteq> None"
  shows "replay f ch n st0 = fold (\<lambda>k. f (word_of_nat k) (the (map_of ch (word_of_nat k)))) [0..<n] st0"
  unfolding replay_def using assms by (intro fold_cong) auto

lemma word_of_nat_less_unat: "k < unat (a :: u64) \<Longrightarrow> word_of_nat k < a"
  by (simp add: word_less_nat_alt unat_word_of_nat_le [of k a])

lemma log_inv_smst:
  assumes "log_inv f st0 l" and "map_of (chosen l) = map_of cs"
  shows "smst l = fold (\<lambda>k. f (word_of_nat k) (the (map_of cs (word_of_nat k)))) [0..<unat (applied l)] st0"
proof -
  have "map_of (chosen l) (word_of_nat k) \<noteq> None" if "k < unat (applied l)" for k
    using assms(1) word_of_nat_less_unat [OF that] by (auto simp: log_inv_def log_pre_def map_of_eq_None_fst)
  then show ?thesis
    using assms by (simp add: log_inv_def log_pre_def replay_all_chosen)
qed

lemma fst_set_eq_of_map_of: "map_of xs = map_of ys \<Longrightarrow> fst ` set xs = fst ` set ys"
  by (simp add: dom_map_of_conv_image_fst [symmetric])

text \<open>
  C20: a learner that starts empty and is handed any sequence of commits (any order, repetitions
  and even conflicting repetitions included) has applied exactly the slots below its first
  uncommitted slot: its state machine's state is the callback folded over slots
  \<open>0, 1, .., applied - 1\<close>, each once, in slot order, with the value of the slot's first commit;
  and \<open>FirstUnchosen\<close> is the slot the application stopped at.
\<close>

theorem commits_applied_in_order:
  assumes "length cs < 2 ^ 64 - 2"
  shows "let l = commits f st0 cs in
    smst l = fold (\<lambda>k. f (word_of_nat k) (the (map_of cs (word_of_nat k)))) [0..<unat (Applied l)] st0 \<and>
    (\<forall>s < Applied l. s \<in> fst ` set cs) \<and> Applied l \<notin> fst ` set cs \<and>
    FirstUnchosen l = Applied l"
proof -
  have inv: "log_inv f st0 (commits f st0 cs)" and ch: "map_of (chosen (commits f st0 cs)) = map_of cs"
    using commits_inv [OF assms(1), of f st0] by simp_all
  then show ?thesis
    using log_inv_smst [OF inv ch] log_inv_FirstUnchosen [OF inv]
    by (simp add: Let_def log_inv_def log_pre_def Applied_def fst_set_eq_of_map_of [OF ch])
qed

theorem commits_applied_in_order_witness:
  "smst (commits (\<lambda>s v st. st @ [s]) [] [(1, [7]), (0, [5]), (1, [9]), (3, [])]) = [0, 1 :: u64] \<and>
   FirstUnchosen (commits (\<lambda>s v st. st @ [s]) [] [(1, [7]), (0, [5]), (1, [9]), (3, [])]) = 2"
  using commits_applied_in_order [of "[(1, [7]), (0, [5]), (1, [9]), (3, [])]" "\<lambda>s v st. st @ [s]" "[]"]
  by (simp add: commits_def Commit_def NewLog_def Applied_def upt_rec)

lemma fold_upt_append:
  "m \<le> n \<Longrightarrow> fold g [0..<n] z = fold g [m..<n] (fold g [0..<m] z)"
  by (metis add_diff_inverse_nat comp_apply fold_append linorder_not_le upt_add_eq_append zero_le)

lemma map_of_consistent:
  assumes "\<forall>s v w. (s, v) \<in> set cs \<and> (s, w) \<in> set cs' \<longrightarrow> v = w"
    and "s \<in> fst ` set cs" and "s \<in> fst ` set cs'"
  shows "the (map_of cs s) = the (map_of cs' s)"
  using assms by (metis map_of_eq_None_iff map_of_SomeD option.exhaust_sel)

text \<open>
  C21: two learners whose commits never disagree on a slot's value (what Paxos agreement gives) are
  always at two points of one history: the one that has applied more is the other one with the
  missing slots applied on top. In particular, replicas that applied equally many slots hold equal
  states, whatever order the commits reached them in.
\<close>

theorem learners_share_history:
  assumes len: "length cs < 2 ^ 64 - 2" "length cs' < 2 ^ 64 - 2"
    and agree: "\<forall>s v w. (s, v) \<in> set cs \<and> (s, w) \<in> set cs' \<longrightarrow> v = w"
    and le: "Applied (commits f st0 cs) \<le> Applied (commits f st0 cs')"
  shows "smst (commits f st0 cs') =
    fold (\<lambda>k. f (word_of_nat k) (the (map_of cs' (word_of_nat k))))
      [unat (Applied (commits f st0 cs))..<unat (Applied (commits f st0 cs'))] (smst (commits f st0 cs))"
proof -
  let ?l = "commits f st0 cs" and ?l' = "commits f st0 cs'"
  have inv: "log_inv f st0 ?l" "map_of (chosen ?l) = map_of cs"
    and inv': "log_inv f st0 ?l'" "map_of (chosen ?l') = map_of cs'"
    using commits_inv [OF len(1), of f st0] commits_inv [OF len(2), of f st0] by simp_all
  let ?g = "\<lambda>cs k. f (word_of_nat k) (the (map_of cs (word_of_nat k)))"
  have "fold (?g cs) [0..<unat (applied ?l)] st0 = fold (?g cs') [0..<unat (applied ?l)] st0"
  proof (intro fold_cong refl)
    fix k assume "k \<in> set [0..<unat (applied ?l)]"
    then have k: "word_of_nat k < applied ?l" by (simp add: word_of_nat_less_unat)
    moreover have "word_of_nat k < applied ?l'" using k le by (simp add: Applied_def)
    ultimately have "word_of_nat k \<in> fst ` set cs" "word_of_nat k \<in> fst ` set cs'"
      using inv inv' fst_set_eq_of_map_of [OF inv(2)] fst_set_eq_of_map_of [OF inv'(2)]
      by (auto simp: log_inv_def log_pre_def)
    then show "?g cs k = ?g cs' k" using map_of_consistent [OF agree] by simp
  qed
  then show ?thesis
    using log_inv_smst [OF inv] log_inv_smst [OF inv'] le
    by (simp add: Applied_def word_le_nat_alt fold_upt_append [of "unat (applied ?l)" "unat (applied ?l')"])
qed

theorem learners_share_history_witness:
  "smst (commits (\<lambda>s v st. st @ [v]) [] [(1, [7]), (0, [5])]) =
   smst (commits (\<lambda>s v st. st @ [v]) [] [(0, [5]), (3, []), (1, [7 :: byte])])"
proof -
  let ?f = "\<lambda>s v st. st @ [v]"
  let ?cs = "[(1 :: u64, [7 :: byte]), (0, [5])]" and ?cs' = "[(0 :: u64, [5 :: byte]), (3, []), (1, [7])]"
  have ag: "\<forall>s v w. (s, v) \<in> set ?cs \<and> (s, w) \<in> set ?cs' \<longrightarrow> v = w" by auto
  have app: "Applied (commits ?f [] ?cs) = 2" "Applied (commits ?f [] ?cs') = 2"
    by (simp_all add: commits_def Commit_def NewLog_def Applied_def)
  show ?thesis
    using learners_share_history [of ?cs ?cs' ?f "[]", OF _ _ ag] by (simp add: app)
qed

text \<open>
  \<open>Gap\<close> reports a hole exactly when a slot beyond the first uncommitted one has been committed
  (slot \<open>2 ^ 64 - 1\<close>, whose successor wraps to 0, apart), and then it names that first hole.
\<close>

theorem Gap_reports_first_hole:
  assumes "length cs < 2 ^ 64 - 2"
  shows "let l = commits f st0 cs in
    Gap l = (if \<exists>s \<in> fst ` set cs. Applied l < s \<and> s \<noteq> - 1 then (Applied l, True) else (0, False))"
proof -
  let ?l = "commits f st0 cs"
  have inv: "log_inv f st0 ?l" and ch: "fst ` set (chosen ?l) = fst ` set cs"
    using commits_inv [OF assms, of f st0] fst_set_eq_of_map_of [of "chosen ?l" cs] by simp_all
  have "applied ?l < maxSeen ?l" if "s \<in> fst ` set cs" "applied ?l < s" "s \<noteq> - 1" for s
  proof -
    have "s < - 1" using that(3) by (simp add: word_order.not_eq_extremum)
    then have "s < maxSeen ?l" using inv that(1) by (auto simp: log_inv_def ch)
    then show ?thesis using that(2) by (rule order_less_trans [rotated])
  qed
  moreover have "\<exists>s \<in> fst ` set cs. applied ?l < s \<and> s \<noteq> - 1" if lt: "applied ?l < maxSeen ?l"
  proof -
    have nz: "maxSeen ?l \<noteq> 0" using lt by auto
    then have mem: "maxSeen ?l - 1 \<in> fst ` set cs" and nm: "maxSeen ?l - 1 \<noteq> - 1"
      using inv by (auto simp: log_inv_def ch)
    have "applied ?l \<le> maxSeen ?l - 1"
      using lt less_plus_one_iff [OF nm, of "applied ?l"] by simp
    moreover have "applied ?l \<noteq> maxSeen ?l - 1" using inv mem by (metis ch log_inv_def)
    ultimately have "applied ?l < maxSeen ?l - 1" by simp
    then show ?thesis using mem nm by (intro bexI [of _ "maxSeen ?l - 1"]) simp_all
  qed
  ultimately have "(\<exists>s \<in> fst ` set cs. applied ?l < s \<and> s \<noteq> - 1) \<longleftrightarrow> applied ?l < maxSeen ?l" by blast
  then show ?thesis
    unfolding Let_def Applied_def log_inv_Gap [OF inv] by (simp only:)
qed

theorem Gap_reports_first_hole_witness:
  "Gap (commits (\<lambda>s v st. st @ [v]) [] [(0, [5]), (3, [])]) = (1, True) \<and>
   Gap (commits (\<lambda>s v st. st @ [v]) [] [(1, [5]), (0, [])]) = (0, False)"
  using Gap_reports_first_hole [of "[(0, [5]), (3, [])]" "\<lambda>s v st. st @ [v]" "[]"]
    Gap_reports_first_hole [of "[(1, [5]), (0, [])]" "\<lambda>s v st. st @ [v]" "[]"]
  by (simp add: commits_def Commit_def NewLog_def Applied_def)

text \<open>
  A commit at \<open>FirstUnchosen\<close> is applied by the time \<open>Commit\<close> returns, which is why a decided
  \<open>Submit\<close> can be answered from the local state machine.
\<close>

lemma Commit_FirstUnchosen_applied:
  assumes inv: "log_inv f st0 l" and len: "length (chosen l) < 2 ^ 64 - 2"
  shows "FirstUnchosen l < Applied (Commit f (FirstUnchosen l) v l)"
    and "map_of (chosen (Commit f (FirstUnchosen l) v l)) (FirstUnchosen l) = Some v"
proof -
  have new: "applied l \<notin> fst ` set (chosen l)" using inv by (simp add: log_inv_def)
  note c = Commit_chosen [OF inv len new, of v]
  show "FirstUnchosen l < Applied (Commit f (FirstUnchosen l) v l)"
    using c(3,5) by (auto simp: log_inv_FirstUnchosen [OF inv] Applied_def)
  show "map_of (chosen (Commit f (FirstUnchosen l) v l)) (FirstUnchosen l) = Some v"
    by (simp add: log_inv_FirstUnchosen [OF inv] c(2))
qed

lemma length_chosen_Commit: "length (chosen l) \<le> length (chosen (Commit f s v l))"
  by (simp add: chosen_Commit)

lemma length_chosen_fold: "length (chosen l) \<le> length (chosen (fold (\<lambda>(s, v). Commit f s v) cs l))"
proof (induction cs arbitrary: l)
  case (Cons c cs)
  show ?case
    using Cons.IH [of "Commit f (fst c) (snd c) l"] length_chosen_Commit [of l f "fst c" "snd c"]
    by (simp add: case_prod_beta)
qed simp

lemma applied_Commit_mono:
  assumes "log_inv f st0 l" and "length (chosen l) < 2 ^ 64 - 2"
  shows "applied l \<le> applied (Commit f s v l)"
proof (cases "s \<in> fst ` set (chosen l)")
  case False
  show ?thesis by (rule Commit_chosen(5) [OF assms False])
qed (simp add: Commit_known)

lemma map_le_Commit: "map_of (chosen l) \<subseteq>\<^sub>m map_of (chosen (Commit f s v l))"
  by (auto simp: chosen_Commit map_le_def dest: map_of_SomeD intro: rev_image_eqI)

lemma commits_on_log:
  assumes "log_inv f st0 l" and "length (chosen (fold (\<lambda>(s, v). Commit f s v) cs l)) < 2 ^ 64 - 2"
  shows "log_inv f st0 (fold (\<lambda>(s, v). Commit f s v) cs l) \<and>
    applied l \<le> applied (fold (\<lambda>(s, v). Commit f s v) cs l) \<and>
    map_of (chosen l) \<subseteq>\<^sub>m map_of (chosen (fold (\<lambda>(s, v). Commit f s v) cs l)) \<and>
    (\<forall>s v. map_of (chosen (fold (\<lambda>(s, v). Commit f s v) cs l)) s = Some v \<longrightarrow>
       map_of (chosen l) s = Some v \<or> (s, v) \<in> set cs)"
  using assms
proof (induction cs arbitrary: l)
  case (Cons c cs)
  obtain s v where c: "c = (s, v)" by fastforce
  have "length (chosen l) < 2 ^ 64 - 2"
    using Cons.prems(2) length_chosen_fold [of l f "c # cs"] by simp
  then have one: "log_inv f st0 (Commit f s v l)" "applied l \<le> applied (Commit f s v l)"
    by (rule log_inv_Commit [OF Cons.prems(1)], rule applied_Commit_mono [OF Cons.prems(1)])
  have prev: "map_of (chosen l) t = Some x \<or> (t, x) = c" if "map_of (chosen (Commit f s v l)) t = Some x" for t x
    using that by (simp add: c chosen_Commit split: if_splits)
  define r where "r = fold (\<lambda>(s, v). Commit f s v) cs (Commit f s v l)"
  have IH: "log_inv f st0 r" "applied (Commit f s v l) \<le> applied r"
      "map_of (chosen (Commit f s v l)) \<subseteq>\<^sub>m map_of (chosen r)"
      "\<And>t x. map_of (chosen r) t = Some x \<Longrightarrow> map_of (chosen (Commit f s v l)) t = Some x \<or> (t, x) \<in> set cs"
    using Cons.IH [OF one(1)] Cons.prems(2) by (simp_all add: r_def c)
  have "log_inv f st0 r \<and> applied l \<le> applied r \<and> map_of (chosen l) \<subseteq>\<^sub>m map_of (chosen r) \<and>
      (\<forall>t x. map_of (chosen r) t = Some x \<longrightarrow> map_of (chosen l) t = Some x \<or> (t, x) \<in> set (c # cs))"
    using IH(1) order_trans [OF one(2) IH(2)] map_le_trans [OF map_le_Commit IH(3)] IH(4) prev by fastforce
  then show ?case by (simp add: r_def c)
qed simp

end
