(* ===== verification/PaxosNode.thy ===== *)
theory PaxosNode
  imports PaxosLog
begin

text \<open>
  The proposer, \<^verbatim>\<open>internal/paxos/node.go\<close>. A round of \<open>runSlot\<close> talks to the replicas through the
  \<^verbatim>\<open>Transport\<close> interface from one goroutine per peer and reads their results from a channel. The
  model takes those results as its input: the list of replies in the order they arrive, an error
  being \<open>None\<close>. Every order of arrival and every pattern of failures is such a list, one element per
  replica because every goroutine sends exactly once. What the node sends is the list of
  \<open>send\<close>s. The acceptors are not touched by this code; they answer in theory \<open>PaxosSafety\<close>, where the
  phases defined here run against all of them, interleaved.
\<close>

subsection \<open>The node\<close>

datatype ctx_err = Canceled | DeadlineExceeded

datatype perr = ErrSubmitFailed | ErrCtx ctx_err

record config =
  Self :: string
  Replicas :: "string list"
  EqualFn :: "(pvalue \<Rightarrow> pvalue \<Rightarrow> bool) option"
  RPCTimeout :: int
  Noop :: pvalue

definition bytes_Equal :: "pvalue \<Rightarrow> pvalue \<Rightarrow> bool" where
  "bytes_Equal a b \<longleftrightarrow> (case a of None \<Rightarrow> [] | Some x \<Rightarrow> x) = (case b of None \<Rightarrow> [] | Some y \<Rightarrow> y)"

record 'st node =
  cfg :: config
  idx :: "8 word"
  nAcceptor :: acceptor
  nLog :: "'st plog"
  round :: u64

definition Equal :: "'st node \<Rightarrow> pvalue \<Rightarrow> pvalue \<Rightarrow> bool" where
  "Equal n = (case EqualFn (cfg n) of None \<Rightarrow> bytes_Equal | Some e \<Rightarrow> e)"

fun self_index :: "string \<Rightarrow> nat \<Rightarrow> string list \<Rightarrow> int \<Rightarrow> int" where
  "self_index self i [] acc = acc"
| "self_index self i (r # rs) acc = self_index self (Suc i) rs (if r = self then int i else acc)"

definition NewNode :: "config \<Rightarrow> 'st plog \<Rightarrow> 'st node option" where
  "NewNode c lg =
     (let c1 = (if EqualFn c = None then c\<lparr>EqualFn := Some bytes_Equal\<rparr> else c);
          c2 = (if RPCTimeout c1 = 0 then c1\<lparr>RPCTimeout := 500 * 10 ^ 6\<rparr> else c1);
          sorted = sort (Replicas c2);
          i = self_index (Self c2) 0 sorted (- 1)
      in if i < 0 then None
         else Some \<lparr>cfg = c2, idx = word_of_int i, nAcceptor = NewAcceptor, nLog = lg, round = 0\<rparr>)"

definition majority :: "nat \<Rightarrow> nat" where
  "majority n = n div 2 + 1"

subsection \<open>The phases\<close>

record p1_state =
  promises :: nat
  adopted :: pvalue
  adoptedBallot :: ballot
  maxPromised :: ballot

definition p1_init :: p1_state where
  "p1_init = \<lparr>promises = 0, adopted = None, adoptedBallot = 0, maxPromised = 0\<rparr>"

fun p1_step :: "PrepareReply option \<Rightarrow> p1_state \<Rightarrow> p1_state" where
  "p1_step None p = p"
| "p1_step (Some r) p =
     (if Promised r then
        (let q = p\<lparr>promises := promises p + 1\<rparr>
         in if AcceptedValue r \<noteq> None \<and> AcceptedBallot r \<ge> adoptedBallot q
            then q\<lparr>adopted := AcceptedValue r, adoptedBallot := AcceptedBallot r\<rparr> else q)
      else if PromisedBallot r > maxPromised p then p\<lparr>maxPromised := PromisedBallot r\<rparr> else p)"

definition phase1 :: "PrepareReply option list \<Rightarrow> p1_state" where
  "phase1 rs = fold p1_step rs p1_init"

definition proposal_of :: "p1_state \<Rightarrow> pvalue \<Rightarrow> pvalue" where
  "proposal_of p value = (if adopted p \<noteq> None then adopted p else value)"

fun p2_step :: "AcceptReply option \<Rightarrow> nat \<times> ballot \<Rightarrow> nat \<times> ballot" where
  "p2_step None p = p"
| "p2_step (Some r) (accepts, mp) =
     (if Accepted r then (accepts + 1, mp)
      else if APromisedBallot r > mp then (accepts, APromisedBallot r) else (accepts, mp))"

definition phase2 :: "AcceptReply option list \<Rightarrow> nat \<times> ballot" where
  "phase2 rs = fold p2_step rs (0, 0)"

definition catchUpRound :: "u64 \<Rightarrow> ballot \<Rightarrow> u64" where
  "catchUpRound cur b = (let target = Round b in if cur \<ge> target then cur else target)"

subsection \<open>A round and its retries\<close>

datatype send =
    SPrepare string slot ballot
  | SAccept string slot ballot pvalue
  | SLearn string slot pvalue

definition nil_bytes :: "pvalue \<Rightarrow> bytes" where
  "nil_bytes v = (case v of None \<Rightarrow> [] | Some b \<Rightarrow> b)"

type_synonym learned = "(slot \<times> bytes) list"

definition learn_all :: "'st apply_fn \<Rightarrow> learned \<Rightarrow> 'st node \<Rightarrow> 'st node" where
  "learn_all f ls n = n\<lparr>nLog := fold (\<lambda>(s, v). Commit f s v) ls (nLog n)\<rparr>"

record attempt =
  ctxErr :: "ctx_err option"
  before :: learned
  prepResults :: "PrepareReply option list"
  accResults :: "AcceptReply option list"
  during :: learned

text \<open>
  An \<open>attempt\<close> is what the environment does in one turn of the retry loop: the state of the
  context, the values other replicas' \<open>Learn\<close>s committed to the local log before the slot is read
  and while the round runs, and the replies.
\<close>

definition runSlot ::
    "'st apply_fn \<Rightarrow> attempt \<Rightarrow> slot \<Rightarrow> pvalue \<Rightarrow> 'st node \<Rightarrow> (perr + pvalue) \<times> send list \<times> 'st node" where
  "runSlot f e s value n0 =
     (let n = n0\<lparr>round := round n0 + 1\<rparr>;
          ballot = MakeBallot (round n) (idx n);
          peers = Replicas (cfg n);
          sends1 = map (\<lambda>peer. SPrepare peer s ballot) peers;
          p1 = phase1 (prepResults e)
      in if promises p1 < majority (length peers)
         then (Inl ErrSubmitFailed, sends1,
               learn_all f (during e) (n\<lparr>round := catchUpRound (round n) (maxPromised p1)\<rparr>))
         else
           let proposal = proposal_of p1 value;
               sends2 = sends1 @ map (\<lambda>peer. SAccept peer s ballot proposal) peers;
               p2 = phase2 (accResults e)
           in if fst p2 < majority (length peers)
              then (Inl ErrSubmitFailed, sends2,
                    learn_all f (during e) (n\<lparr>round := catchUpRound (round n) (snd p2)\<rparr>))
              else
                let m = learn_all f (during e) n
                in (Inr proposal, sends2 @ map (\<lambda>peer. SLearn peer s proposal) peers,
                    m\<lparr>nLog := Commit f s (nil_bytes proposal) (nLog m)\<rparr>))"

fun submit_loop ::
    "nat \<Rightarrow> 'st apply_fn \<Rightarrow> (nat \<Rightarrow> attempt) \<Rightarrow> nat \<Rightarrow> pvalue \<Rightarrow> 'st node \<Rightarrow> (perr + unit) \<times> 'st node" where
  "submit_loop 0 f env k value n = (Inl ErrSubmitFailed, n)"
| "submit_loop (Suc left) f env k value n =
     (case ctxErr (env k) of
        Some err \<Rightarrow> (Inl (ErrCtx err), n)
      | None \<Rightarrow>
          let n1 = learn_all f (before (env k)) n;
              slot = FirstUnchosen (nLog n1)
          in (case runSlot f (env k) slot value n1 of
                (Inl err, _, n2) \<Rightarrow> submit_loop left f env (Suc k) value n2
              | (Inr won, _, n2) \<Rightarrow>
                  if Equal n2 won value then (Inr (), n2)
                  else submit_loop left f env (Suc k) value n2))"

definition Submit :: "'st apply_fn \<Rightarrow> (nat \<Rightarrow> attempt) \<Rightarrow> pvalue \<Rightarrow> 'st node \<Rightarrow> (perr + unit) \<times> 'st node" where
  "Submit f env value n = submit_loop 20 f env 0 value n"

text \<open>
  The pause after a failed attempt, in nanoseconds: \<open>jitter\<close> is the draw of \<^verbatim>\<open>rand.Int63n(base)\<close>.
\<close>

definition backoff_base :: "nat \<Rightarrow> int" where
  "backoff_base attempt = push_bit (min attempt 5) (10 * 10 ^ 6)"

definition backoff :: "nat \<Rightarrow> (int \<Rightarrow> int) \<Rightarrow> int" where
  "backoff attempt Int63n = (let base = backoff_base attempt; jitter = Int63n base in base + jitter)"

definition gap_tick :: "'st apply_fn \<Rightarrow> (nat \<Rightarrow> attempt) \<Rightarrow> 'st node \<Rightarrow> 'st node" where
  "gap_tick f env n =
     (case Gap (nLog n) of
        (_, stalled) \<Rightarrow> if stalled then snd (Submit f env (Noop (cfg n)) n) else n)"

fun RunGapFiller :: "'st apply_fn \<Rightarrow> (nat \<Rightarrow> attempt) list \<Rightarrow> 'st node \<Rightarrow> 'st node" where
  "RunGapFiller f [] n = n"
| "RunGapFiller f (env # ticks) n = RunGapFiller f ticks (gap_tick f env n)"

subsection \<open>What the phases compute\<close>

definition promised_reply :: "PrepareReply option \<Rightarrow> bool" where
  "promised_reply r \<longleftrightarrow> (case r of None \<Rightarrow> False | Some r \<Rightarrow> Promised r)"

definition accepted_reply :: "AcceptReply option \<Rightarrow> bool" where
  "accepted_reply r \<longleftrightarrow> (case r of None \<Rightarrow> False | Some r \<Rightarrow> Accepted r)"

definition p1_reports :: "PrepareReply option list \<Rightarrow> PrepareReply set" where
  "p1_reports rs = {r. Some r \<in> set rs \<and> Promised r \<and> AcceptedValue r \<noteq> None}"

lemma phase1_snoc: "phase1 (rs @ [r]) = p1_step r (phase1 rs)"
  by (simp add: phase1_def)

lemma phase2_snoc: "phase2 (rs @ [r]) = p2_step r (phase2 rs)"
  by (simp add: phase2_def)

lemma p1_reports_Nil: "p1_reports [] = {}"
  by (simp add: p1_reports_def)

lemma p1_reports_snoc:
  "p1_reports (rs @ [r]) =
     (case r of None \<Rightarrow> p1_reports rs
      | Some x \<Rightarrow> if Promised x \<and> AcceptedValue x \<noteq> None then insert x (p1_reports rs) else p1_reports rs)"
  by (auto simp: p1_reports_def split: option.split)

lemma promises_phase1: "promises (phase1 rs) = length (filter promised_reply rs)"
proof (induction rs rule: rev_induct)
  case (snoc r rs)
  then show ?case by (cases r) (simp_all add: phase1_snoc promised_reply_def Let_def)
qed (simp add: phase1_def p1_init_def)

lemma accepts_phase2: "fst (phase2 rs) = length (filter accepted_reply rs)"
proof (induction rs rule: rev_induct)
  case (snoc r rs)
  then show ?case
    by (cases r; cases "phase2 rs") (simp_all add: phase2_snoc accepted_reply_def)
qed (simp add: phase2_def)

text \<open>
  The value adopted is that of a promise reporting the highest accepted ballot, and there is one as
  soon as any promise reports a value.
\<close>

lemma phase1_adopted:
  "if p1_reports rs = {} then adopted (phase1 rs) = None \<and> adoptedBallot (phase1 rs) = 0
   else \<exists>r \<in> p1_reports rs. adopted (phase1 rs) = AcceptedValue r \<and>
          adoptedBallot (phase1 rs) = AcceptedBallot r \<and>
          (\<forall>r' \<in> p1_reports rs. AcceptedBallot r' \<le> AcceptedBallot r)"
proof (induction rs rule: rev_induct)
  case Nil
  then show ?case by (simp add: p1_reports_Nil phase1_def p1_init_def)
next
  case (snoc x rs)
  show ?case
  proof (cases x)
    case None
    then show ?thesis using snoc by (simp add: phase1_snoc p1_reports_snoc)
  next
    case (Some r)
    show ?thesis
    proof (cases "Promised r \<and> AcceptedValue r \<noteq> None")
      case True
      then have rep: "p1_reports (rs @ [Some r]) = insert r (p1_reports rs)"
        by (simp add: p1_reports_snoc)
      show ?thesis
      proof (cases "AcceptedBallot r \<ge> adoptedBallot (phase1 rs)")
        case ge: True
        then have "\<forall>r' \<in> p1_reports rs. AcceptedBallot r' \<le> AcceptedBallot r"
          using snoc by (auto split: if_splits intro: order_trans)
        then show ?thesis using True ge by (auto simp: rep Some phase1_snoc Let_def)
      next
        case lt: False
        then have "p1_reports rs \<noteq> {}" using snoc by (auto split: if_splits)
        then show ?thesis
          using snoc True lt by (auto simp: rep Some phase1_snoc Let_def not_le intro: less_imp_le)
      qed
    next
      case False
      then have "p1_reports (rs @ [x]) = p1_reports rs" by (auto simp: Some p1_reports_snoc)
      moreover have "adopted (phase1 (rs @ [x])) = adopted (phase1 rs)"
        "adoptedBallot (phase1 (rs @ [x])) = adoptedBallot (phase1 rs)"
        using False by (auto simp: Some phase1_snoc Let_def)
      ultimately show ?thesis using snoc by simp
    qed
  qed
qed

lemma proposal_of_phase1:
  "if p1_reports rs = {} then proposal_of (phase1 rs) v = v
   else \<exists>r \<in> p1_reports rs. proposal_of (phase1 rs) v = AcceptedValue r \<and>
          (\<forall>r' \<in> p1_reports rs. AcceptedBallot r' \<le> AcceptedBallot r)"
  using phase1_adopted [of rs] by (auto simp: proposal_of_def p1_reports_def split: if_splits)

lemma phase1_maxPromised:
  assumes "Some r \<in> set rs" and "\<not> Promised r"
  shows "PromisedBallot r \<le> maxPromised (phase1 rs)"
  using assms(1)
proof (induction rs rule: rev_induct)
  case (snoc x rs)
  have mono: "maxPromised (phase1 rs) \<le> maxPromised (p1_step x (phase1 rs))"
    by (cases x) (auto simp: Let_def)
  show ?case
  proof (cases "x = Some r")
    case True
    then show ?thesis using assms(2) by (simp add: phase1_snoc Let_def not_less)
  next
    case False
    then show ?thesis using snoc mono by (auto simp: phase1_snoc intro: order_trans)
  qed
qed simp

lemma phase2_maxPromised:
  assumes "Some r \<in> set rs" and "\<not> Accepted r"
  shows "APromisedBallot r \<le> snd (phase2 rs)"
  using assms(1)
proof (induction rs rule: rev_induct)
  case (snoc x rs)
  have mono: "snd (phase2 rs) \<le> snd (p2_step x (phase2 rs))"
    by (cases x; cases "phase2 rs") auto
  show ?case
  proof (cases "x = Some r")
    case True
    then show ?thesis using assms(2) by (cases "phase2 rs") (simp add: phase2_snoc not_less)
  next
    case False
    then show ?thesis using snoc mono by (auto simp: phase2_snoc intro: order_trans)
  qed
qed simp

subsection \<open>Replica indices\<close>

lemma self_index_notin: "self \<notin> set rs \<Longrightarrow> self_index self i rs acc = acc"
  by (induction rs arbitrary: i acc) auto

lemma self_index_mem:
  "self \<in> set rs \<Longrightarrow> \<exists>k < length rs. rs ! k = self \<and> self_index self i rs acc = int (i + k)"
proof (induction rs arbitrary: i acc)
  case (Cons r rs)
  show ?case
  proof (cases "self \<in> set rs")
    case True
    from Cons.IH [OF this, of "Suc i" "if r = self then int i else acc"] obtain k where
      "k < length rs" "rs ! k = self"
      "self_index self (Suc i) rs (if r = self then int i else acc) = int (Suc i + k)" by blast
    then show ?thesis by (intro exI [of _ "Suc k"]) simp
  next
    case False
    then have "self_index self i (r # rs) acc = int i"
      using Cons.prems self_index_notin [of self rs] by simp
    then show ?thesis using Cons.prems False by (intro exI [of _ 0]) simp
  qed
qed simp

lemma NewNode_None_iff: "NewNode c lg = None \<longleftrightarrow> Self c \<notin> set (Replicas c)"
proof -
  have "self_index (Self c) 0 (sort (Replicas c)) (- 1) < 0 \<longleftrightarrow> Self c \<notin> set (Replicas c)"
    using self_index_mem [of "Self c" "sort (Replicas c)" 0 "- 1"]
      self_index_notin [of "Self c" "sort (Replicas c)" 0 "- 1"] by (cases "Self c \<in> set (Replicas c)") auto
  then show ?thesis by (simp add: NewNode_def Let_def)
qed

lemma NewNode_idx:
  assumes "NewNode c lg = Some n" and "length (Replicas c) \<le> 256"
  shows "unat (idx n) < length (Replicas c) \<and> sort (Replicas c) ! unat (idx n) = Self c"
proof -
  have "Self c \<in> set (sort (Replicas c))" using assms(1) NewNode_None_iff [of c lg] by simp
  from self_index_mem [OF this, of 0 "- 1"] obtain k where k: "k < length (Replicas c)"
      "sort (Replicas c) ! k = Self c" "self_index (Self c) 0 (sort (Replicas c)) (- 1) = int k"
    by auto
  then have "idx n = word_of_nat k"
    using assms(1) by (auto simp: NewNode_def Let_def split: if_splits)
  moreover have "unat (word_of_nat k :: 8 word) = k"
    using k(1) assms(2) by (simp add: unsigned_of_nat take_bit_nat_eq_self)
  ultimately show ?thesis using k by simp
qed

text \<open>
  C38: a replica panics at start exactly when it is not in its own replica list; and replicas that
  start from the same set of at most 256 replicas, each listing it in its own order, get different
  indices, all below the number of replicas. Ballots of different replicas therefore differ.
\<close>

theorem NewNode_indices:
  assumes "NewNode c lg = Some n" and "NewNode c' lg' = Some n'"
    and "distinct (Replicas c)" and "distinct (Replicas c')" and "set (Replicas c) = set (Replicas c')"
    and "length (Replicas c) \<le> 256"
  shows "(idx n = idx n' \<longleftrightarrow> Self c = Self c') \<and> unat (idx n) < length (Replicas c) \<and>
    Self c \<in> set (Replicas c) \<and> (NewNode d lg = None \<longleftrightarrow> Self d \<notin> set (Replicas d))"
proof -
  have len: "length (Replicas c') = length (Replicas c)" using assms(3-5) by (metis distinct_card)
  have srt: "sort (Replicas c') = sort (Replicas c)"
    using assms(3-5) by (simp add: sorted_distinct_set_unique)
  have "unat (idx n) < length (Replicas c)" "sort (Replicas c) ! unat (idx n) = Self c"
    "unat (idx n') < length (Replicas c)" "sort (Replicas c) ! unat (idx n') = Self c'"
    using NewNode_idx [OF assms(1,6)] NewNode_idx [OF assms(2)] len srt assms(6) by simp_all
  moreover have "distinct (sort (Replicas c))" using assms(3) by simp
  ultimately show ?thesis
    using NewNode_None_iff [of c lg] NewNode_None_iff [of d lg] assms(1)
      nth_eq_iff_index_eq [of "sort (Replicas c)" "unat (idx n)" "unat (idx n')"]
    by (auto simp: word_unat_eq_iff)
qed

theorem NewNode_indices_witness:
  "\<exists>n n'. NewNode \<lparr>Self = ''dir-2'', Replicas = [''dir-2'', ''dir-1''], EqualFn = None, RPCTimeout = 0, Noop = None\<rparr>
       (NewLog ()) = Some n \<and>
     NewNode \<lparr>Self = ''dir-1'', Replicas = [''dir-1'', ''dir-2''], EqualFn = None, RPCTimeout = 0, Noop = None\<rparr>
       (NewLog ()) = Some n' \<and> idx n \<noteq> idx n'"
proof -
  let ?c = "\<lparr>Self = ''dir-2'', Replicas = [''dir-2'', ''dir-1''], EqualFn = None, RPCTimeout = 0, Noop = None\<rparr>"
  let ?d = "\<lparr>Self = ''dir-1'', Replicas = [''dir-1'', ''dir-2''], EqualFn = None, RPCTimeout = 0, Noop = None\<rparr>"
  obtain n n' where "NewNode ?c (NewLog ()) = Some n" "NewNode ?d (NewLog ()) = Some n'"
    using NewNode_None_iff [of ?c "NewLog ()"] NewNode_None_iff [of ?d "NewLog ()"] by auto
  then show ?thesis
    using NewNode_indices [of ?c "NewLog ()" n ?d "NewLog ()" n'] by auto
qed

subsection \<open>Retrying\<close>

lemma MakeBallot_Round_idx: "MakeBallot (Round b) (ballot_idx b) = b"
  by (rule bit_word_eqI)
    (auto simp: MakeBallot_def Round_def ballot_idx_def bit_simps)

lemma unat_Round: "unat (Round b) = unat b div 256"
    unfolding Round_def unsigned_drop_bit_eq
  using unsigned_less [of b, where 'a = nat] by (simp add: drop_bit_eq_div take_bit_nat_eq_self)

lemma Round_less: "Round b < 2 ^ 56"
proof -
  have "unat b div 256 < 2 ^ 56" using unsigned_less [of b, where 'a = nat] by (simp add: less_mult_imp_div_less)
  then show ?thesis by (simp add: word_less_nat_alt unat_Round)
qed

lemma Round_le_overtaken:
  assumes "Round b \<le> r" and "r + 1 < 2 ^ 56" and "r \<noteq> - 1"
  shows "b < MakeBallot (r + 1) i"
proof -
  have "Round b < r + 1" using assms by (simp add: less_plus_one_iff)
  then have "MakeBallot (Round b) (ballot_idx b) < MakeBallot (r + 1) i"
    using Round_less assms(2) by (simp add: MakeBallot_less_iff)
  then show ?thesis by (simp add: MakeBallot_Round_idx)
qed

lemma Round_mono: "b \<le> c \<Longrightarrow> Round b \<le> Round c"
  by (simp add: word_le_nat_alt unat_Round div_le_mono)

lemma le_catchUpRound: "cur \<le> catchUpRound cur b" "Round b \<le> catchUpRound cur b"
  by (auto simp: catchUpRound_def Let_def)

lemma learn_all_sel [simp]:
  "round (learn_all f ls n) = round n" "idx (learn_all f ls n) = idx n" "cfg (learn_all f ls n) = cfg n"
  by (simp_all add: learn_all_def)


definition refused_attempt :: attempt where
  "refused_attempt = \<lparr>ctxErr = None, before = [],
     prepResults = [Some \<lparr>Promised = False, AcceptedBallot = 0, AcceptedValue = None, PromisedBallot = 0x702\<rparr>, None],
     accResults = [], during = []\<rparr>"

definition two_node :: "unit node" where
  "two_node = \<lparr>cfg = \<lparr>Self = ''a'', Replicas = [''a'', ''b''], EqualFn = Some bytes_Equal, RPCTimeout = 1, Noop = None\<rparr>,
     idx = 0, nAcceptor = NewAcceptor, nLog = NewLog (), round = 0\<rparr>"


lemma nLog_runSlot:
  assumes "runSlot f e s v n = (res, sends, n')"
  shows "nLog n' = (case res of Inl _ \<Rightarrow> fold (\<lambda>(s, v). Commit f s v) (during e) (nLog n)
      | Inr w \<Rightarrow> Commit f s (nil_bytes w) (fold (\<lambda>(s, v). Commit f s v) (during e) (nLog n)))"
  using assms by (auto simp: runSlot_def Let_def learn_all_def split: if_splits)

text \<open>
  What a successful attempt leaves behind: its slot is applied, with the value of the round unless a
  concurrent \<open>Learn\<close> had already committed one there.
\<close>

lemma runSlot_applied:
  assumes inv: "log_inv f st0 (nLog n)"
    and run: "runSlot f e (FirstUnchosen (nLog n)) v n = (Inr w, sends, n')"
    and len: "length (chosen (nLog n')) < 2 ^ 64 - 2"
  shows "FirstUnchosen (nLog n) < Applied (nLog n') \<and>
    (\<exists>x. map_of (chosen (nLog n')) (FirstUnchosen (nLog n)) = Some x \<and>
       (x = nil_bytes w \<or> (FirstUnchosen (nLog n), x) \<in> set (during e)))"
proof -
  let ?s = "FirstUnchosen (nLog n)"
  define l where "l = fold (\<lambda>(s, v). Commit f s v) (during e @ [(?s, nil_bytes w)]) (nLog n)"
  have log: "nLog n' = l" using nLog_runSlot [OF run] by (simp add: l_def)
  have facts: "log_inv f st0 l" "applied (nLog n) \<le> applied l"
      "\<And>s x. map_of (chosen l) s = Some x \<Longrightarrow>
         map_of (chosen (nLog n)) s = Some x \<or> (s, x) = (?s, nil_bytes w) \<or> (s, x) \<in> set (during e)"
    using commits_on_log [OF inv len [unfolded log l_def]] by (auto simp: l_def)
  have s: "?s = applied (nLog n)" by (rule log_inv_FirstUnchosen [OF inv])
  have new: "map_of (chosen (nLog n)) ?s = None"
    using inv by (simp add: s log_inv_def map_of_eq_None_fst)
  have mem: "?s \<in> fst ` set (chosen l)" by (simp add: l_def chosen_Commit)
  then obtain x where x: "map_of (chosen l) ?s = Some x"
    by (metis map_of_eq_None_fst option.exhaust)
  have "applied l \<noteq> ?s" using facts(1) mem by (metis log_inv_def)
  then have "?s < applied l" using facts(2) by (simp add: s less_le)
  then show ?thesis using x new facts(3) [OF x] by (auto simp: log Applied_def)
qed

lemma learn_all_nLog: "nLog (learn_all f ls n) = fold (\<lambda>(s, v). Commit f s v) ls (nLog n)"
  by (simp add: learn_all_def)

lemma length_chosen_runSlot:
  assumes "runSlot f e s v n = (res, sends, n')"
  shows "length (chosen (nLog n)) \<le> length (chosen (nLog n'))"
  using length_chosen_fold [of "nLog n" f "during e"]
    length_chosen_Commit [of "fold (\<lambda>(s, v). Commit f s v) (during e) (nLog n)" f s]
  by (auto simp: nLog_runSlot [OF assms] split: sum.split intro: order_trans)

lemma log_inv_runSlot:
  assumes "log_inv f st0 (nLog n)" and "runSlot f e s v n = (res, sends, n')"
    and "length (chosen (nLog n')) < 2 ^ 64 - 2"
  shows "log_inv f st0 (nLog n')"
proof (cases res)
  case (Inl x)
  then show ?thesis
    using commits_on_log [OF assms(1), of "during e"] assms(3) nLog_runSlot [OF assms(2)] by simp
next
  case (Inr w)
  then show ?thesis
    using commits_on_log [OF assms(1), of "during e @ [(s, nil_bytes w)]"] assms(3) nLog_runSlot [OF assms(2)]
    by simp
qed

lemma submit_loop_unfold:
  assumes "ctxErr (env k) = None"
    and "runSlot f (env k) (FirstUnchosen (nLog (learn_all f (before (env k)) n))) v
           (learn_all f (before (env k)) n) = (r, sends, n2)"
  shows "submit_loop (Suc left) f env k v n =
    (if (\<exists>won. r = Inr won \<and> Equal n2 won v) then (Inr (), n2) else submit_loop left f env (Suc k) v n2)"
  using assms by (simp add: Let_def split: sum.split)

lemma length_chosen_submit_loop:
  "length (chosen (nLog n)) \<le> length (chosen (nLog (snd (submit_loop left f env k v n))))"
proof (induction left arbitrary: k n)
  case (Suc left)
  show ?case
  proof (cases "ctxErr (env k)")
    case None
    obtain r sends n2 where run: "runSlot f (env k) (FirstUnchosen (nLog (learn_all f (before (env k)) n))) v
           (learn_all f (before (env k)) n) = (r, sends, n2)"
      by (metis prod_cases3)
    have "length (chosen (nLog n)) \<le> length (chosen (nLog n2))"
      using length_chosen_runSlot [OF run] length_chosen_fold [of "nLog n" f "before (env k)"]
      by (simp add: learn_all_nLog)
    then show ?thesis
      using Suc.IH [of n2 "Suc k"] by (simp add: submit_loop_unfold [where env = env and k = k, OF None run] del: submit_loop.simps)
  qed simp
qed simp

lemma submit_loop_applied:
  assumes "log_inv f st0 (nLog n)" and "submit_loop left f env k v n = (res, n')"
    and "length (chosen (nLog n')) < 2 ^ 64 - 2"
  shows "log_inv f st0 (nLog n') \<and>
    (res = Inr () \<longrightarrow> (\<exists>s w x j. s < Applied (nLog n') \<and> Equal n' w v \<and> map_of (chosen (nLog n')) s = Some x \<and>
       (x = nil_bytes w \<or> (s, x) \<in> set (during (env j))) \<and> j < k + left))"
  using assms
proof (induction left arbitrary: k n)
  case (Suc left)
  show ?case
  proof (cases "ctxErr (env k)")
    case None
    define n1 where "n1 = learn_all f (before (env k)) n"
    obtain r sends n2 where run: "runSlot f (env k) (FirstUnchosen (nLog n1)) v n1 = (r, sends, n2)"
      by (metis prod_cases3)
    note step = submit_loop_unfold [where env = env and k = k and left = left, OF None run [unfolded n1_def]]
    have len2: "length (chosen (nLog n2)) < 2 ^ 64 - 2"
      using Suc.prems(2,3) length_chosen_submit_loop [of n2 left f env "Suc k" v]
      by (simp add: step del: submit_loop.simps split: if_splits)
    then have inv1: "log_inv f st0 (nLog n1)"
      using commits_on_log [OF Suc.prems(1), of "before (env k)"] length_chosen_runSlot [OF run]
      by (simp add: n1_def learn_all_nLog)
    then have inv2: "log_inv f st0 (nLog n2)" using run len2 by (rule log_inv_runSlot)
    show ?thesis
    proof (cases "\<exists>won. r = Inr won \<and> Equal n2 won v")
      case True
      then obtain won where won: "r = Inr won" "Equal n2 won v" by blast
      have "n' = n2" using Suc.prems(2) won by (simp add: step del: submit_loop.simps)
      then show ?thesis
        using inv2 won runSlot_applied [OF inv1 run [unfolded won] len2] by fastforce
    next
      case False
      then have "submit_loop left f env (Suc k) v n2 = (res, n')"
        using Suc.prems(2) unfolding step if_not_P [OF False] by blast
      then show ?thesis using Suc.IH [OF inv2 _ Suc.prems(3), of "Suc k"] by simp
    qed
  qed (use Suc.prems in auto)
qed auto


definition granted_attempt :: attempt where
  "granted_attempt =
     (let p = Some \<lparr>Promised = True, AcceptedBallot = 0, AcceptedValue = None, PromisedBallot = 256\<rparr>;
          a = Some \<lparr>Accepted = True, APromisedBallot = 256\<rparr>
      in \<lparr>ctxErr = None, before = [], prepResults = [p, p], accResults = [a, a], during = []\<rparr>)"


subsection \<open>What submitting leaves alone\<close>

text \<open>
  A property of the state machine's state that the callback keeps is kept by every operation on the
  log, and the node's configuration, index and acceptor are not touched by a proposal.
\<close>

lemma smst_apply_loop:
  assumes "\<And>s v st. P st \<Longrightarrow> P (f s v st)" and "P (smst l)"
  shows "P (smst (apply_loop fuel f l))"
  using assms(2) by (induction fuel arbitrary: l) (auto simp: assms(1) split: option.split)

lemma smst_Commit:
  assumes "\<And>s v st. P st \<Longrightarrow> P (f s v st)" and "P (smst l)"
  shows "P (smst (Commit f s v l))"
  using smst_apply_loop [of P f, OF assms(1)] assms(2)
  by (simp add: Commit_def Let_def del: apply_loop.simps split: option.split)

lemma smst_fold_Commit:
  assumes "\<And>s v st. P st \<Longrightarrow> P (f s v st)" and "P (smst l)"
  shows "P (smst (fold (\<lambda>(s, v). Commit f s v) cs l))"
  using assms(2) by (induction cs arbitrary: l) (auto intro: smst_Commit [of P f, OF assms(1)])

lemma smst_runSlot:
  assumes "\<And>s v st. P st \<Longrightarrow> P (f s v st)" and "P (smst (nLog n))"
  shows "P (smst (nLog (snd (snd (runSlot f e s v n)))))"
proof -
  obtain r sends n' where run: "runSlot f e s v n = (r, sends, n')" by (metis prod_cases3)
  show ?thesis
    using smst_fold_Commit [of P f, OF assms] smst_Commit [of P f, OF assms(1)]
    by (simp add: run nLog_runSlot [OF run] split: sum.split)
qed

lemma smst_submit_loop:
  assumes "\<And>s v st. P st \<Longrightarrow> P (f s v st)" and "P (smst (nLog n))"
  shows "P (smst (nLog (snd (submit_loop left f env k v n))))"
  using assms(2)
proof (induction left arbitrary: k n)
  case (Suc left)
  show ?case
  proof (cases "ctxErr (env k)")
    case None
    obtain r sends n2 where run: "runSlot f (env k) (FirstUnchosen (nLog (learn_all f (before (env k)) n))) v
           (learn_all f (before (env k)) n) = (r, sends, n2)"
      by (metis prod_cases3)
    have "P (smst (nLog (learn_all f (before (env k)) n)))"
      using smst_fold_Commit [of P f, OF assms(1) Suc.prems] by (simp add: learn_all_nLog)
    from smst_runSlot [of P f, OF assms(1) this] have "P (smst (nLog n2))" using run by (metis snd_conv)
    then show ?thesis
      using Suc.IH [of n2 "Suc k"]
      by (simp add: submit_loop_unfold [where env = env and k = k, OF None run] del: submit_loop.simps)
  qed (use Suc.prems in simp)
qed simp

lemma runSlot_sel:
  "cfg (snd (snd (runSlot f e s v n))) = cfg n" "idx (snd (snd (runSlot f e s v n))) = idx n"
  "nAcceptor (snd (snd (runSlot f e s v n))) = nAcceptor n"
  by (simp_all add: runSlot_def Let_def learn_all_def)

lemma submit_loop_sel:
  "cfg (snd (submit_loop left f env k v n)) = cfg n \<and> idx (snd (submit_loop left f env k v n)) = idx n \<and>
   nAcceptor (snd (submit_loop left f env k v n)) = nAcceptor n"
proof (induction left arbitrary: k n)
  case (Suc left)
  show ?case
  proof (cases "ctxErr (env k)")
    case None
    obtain r sends n2 where run: "runSlot f (env k) (FirstUnchosen (nLog (learn_all f (before (env k)) n))) v
           (learn_all f (before (env k)) n) = (r, sends, n2)"
      by (metis prod_cases3)
    have "cfg n2 = cfg n" "idx n2 = idx n" "nAcceptor n2 = nAcceptor n"
      using runSlot_sel [of f "env k" "FirstUnchosen (nLog (learn_all f (before (env k)) n))" v
          "learn_all f (before (env k)) n", unfolded run snd_conv]
      by (simp_all add: learn_all_def)
    then show ?thesis
      using Suc.IH [of "Suc k" n2]
      by (simp add: submit_loop_unfold [where env = env and k = k, OF None run] del: submit_loop.simps)
  qed simp
qed simp

end
