(* ===== verification/PaxosSafety.thy ===== *)
theory PaxosSafety
  imports PaxosNode
begin

text \<open>
  All replicas together. A world is the replicas (acceptor, learner and proposer each, with the
  proposer's position inside \<open>runSlot\<close> made explicit) and the set of messages sent so far. Messages
  are never removed from the set and may be handled any number of times, in any order or never, so
  loss, duplication, delay and reordering are covered; so is every interleaving of handlers and
  proposers, because each of them is one step. A reply belongs to the call it answers, as an RPC's
  does. The bytes of a value may be re-encoded on the way (the directory sends decoded commands), so
  a receiver gets any value the relation \<open>eqv\<close> relates to the one sent; plain \<open>(=)\<close> is the case where
  it does not. Replicas are numbered by their \<open>idx\<close>. The steps use the definitions of theories
  \<open>Acceptor\<close>, \<open>PaxosLog\<close> and \<open>PaxosNode\<close>.

  Acceptors keep their state: the code holds it in memory only, and a restarted replica is outside
  the model.
\<close>

subsection \<open>Agreement from quorums\<close>

text \<open>
  The abstract argument: proposals of a ballot are unique up to \<open>sim\<close>, and a proposal repeats the
  value of the highest ballot below it that its quorum may have voted for.
\<close>

definition mru_safe :: "(nat set \<Rightarrow> bool) \<Rightarrow> (nat \<Rightarrow> ballot \<Rightarrow> bool) \<Rightarrow> (ballot \<Rightarrow> 'v \<Rightarrow> bool) \<Rightarrow> ('v \<Rightarrow> 'v \<Rightarrow> bool) \<Rightarrow> ballot \<Rightarrow> 'v \<Rightarrow> bool" where
  "mru_safe quorum voted prop sim b v \<longleftrightarrow>
     (\<exists>Q. quorum Q \<and>
        ((\<forall>j \<in> Q. \<forall>c < b. \<not> voted j c) \<or>
         (\<exists>a u. a < b \<and> prop a u \<and> sim u v \<and> (\<forall>j \<in> Q. \<forall>c < b. voted j c \<longrightarrow> c \<le> a))))"

locale quorums =
  fixes quorum :: "nat set \<Rightarrow> bool"
  assumes quorum_meet: "quorum Q \<Longrightarrow> quorum R \<Longrightarrow> Q \<inter> R \<noteq> {}"
begin

lemma mru_agreement:
  assumes sim: "equivp sim"
    and uniq: "\<And>b v v'. prop b v \<Longrightarrow> prop b v' \<Longrightarrow> sim v v'"
    and safe: "\<And>b v. prop b v \<Longrightarrow> mru_safe quorum voted prop sim b v"
    and ch: "quorum R" "\<forall>j \<in> R. voted j b" "prop b v"
  shows "prop c u \<Longrightarrow> b \<le> c \<Longrightarrow> sim v u"
proof (induction "unat c" arbitrary: c u rule: less_induct)
  case less
  show ?case
  proof (cases "b = c")
    case True
    then show ?thesis using uniq ch(3) less.prems(1) by blast
  next
    case False
    then have lt: "b < c" using less.prems(2) by simp
    obtain Q where Q: "quorum Q"
        "(\<forall>j \<in> Q. \<forall>d < c. \<not> voted j d) \<or>
         (\<exists>a x. a < c \<and> prop a x \<and> sim x u \<and> (\<forall>j \<in> Q. \<forall>d < c. voted j d \<longrightarrow> d \<le> a))"
      using safe [OF less.prems(1)] by (auto simp: mru_safe_def)
    obtain j where j: "j \<in> Q" "voted j b" using quorum_meet [OF Q(1) ch(1)] ch(2) by blast
    then obtain a x where a: "a < c" "prop a x" "sim x u" "b \<le> a" using Q(2) lt by blast
    then have "sim v x" using less.hyps [of a x] by (simp add: word_less_nat_alt)
    then show ?thesis using a(3) sim by (blast intro: equivp_transp)
  qed
qed

end

lemma majorities_meet:
  assumes "Q \<subseteq> {0..<N}" "R \<subseteq> {0..<N}" "majority N \<le> card Q" "majority N \<le> card R"
  shows "Q \<inter> R \<noteq> {}"
proof
  assume "Q \<inter> R = {}"
  then have "card Q + card R = card (Q \<union> R)"
    using assms(1,2) finite_subset [of _ "{0..<N}"] by (subst card_Un_disjoint) auto
  also have "\<dots> \<le> N" using card_mono [of "{0..<N}" "Q \<union> R"] assms(1,2) by simp
  finally show False using assms(3,4) by (simp add: majority_def)
qed

definition majorities :: "nat \<Rightarrow> nat set \<Rightarrow> bool" where
  "majorities N Q \<longleftrightarrow> Q \<subseteq> {0..<N} \<and> majority N \<le> card Q"

interpretation maj: quorums "majorities N" for N
proof unfold_locales
  show "Q \<inter> R \<noteq> {}" if "majorities N Q" "majorities N R" for Q R
    using that majorities_meet [of Q N R] by (simp add: majorities_def)
qed

subsection \<open>The world\<close>

datatype pc =
    Idle
  | P1 slot ballot pvalue "(nat \<times> PrepareReply option) list"
  | P2 slot ballot pvalue "(nat \<times> AcceptReply option) list"
  | P3 slot pvalue

record 'st replica =
  rnd :: u64
  rpc :: pc
  rlog :: "'st plog"
  racc :: acceptor

datatype msg =
    MPrepare slot ballot
  | MPromise nat slot ballot PrepareReply
  | MAccept slot ballot pvalue
  | MAccepted nat slot ballot AcceptReply
  | MLearn slot pvalue

record 'st world =
  reps :: "nat \<Rightarrow> 'st replica"
  net :: "msg set"

definition world0 :: "'st \<Rightarrow> 'st world" where
  "world0 st0 = \<lparr>reps = (\<lambda>_. \<lparr>rnd = 0, rpc = Idle, rlog = NewLog st0, racc = NewAcceptor\<rparr>), net = {}\<rparr>"

definition upd :: "'st world \<Rightarrow> nat \<Rightarrow> 'st replica \<Rightarrow> msg set \<Rightarrow> 'st world" where
  "upd w i r ms = w\<lparr>reps := (reps w)(i := r), net := net w \<union> ms\<rparr>"

inductive step :: "(bytes \<Rightarrow> bytes \<Rightarrow> bool) \<Rightarrow> 'st apply_fn \<Rightarrow> nat \<Rightarrow> 'st world \<Rightarrow> 'st world \<Rightarrow> bool"
  for eqv f N where
  start:
    "\<lbrakk>i < N; rep = reps w i; rpc rep = Idle; r = rnd rep + 1; s = FirstUnchosen (rlog rep);
      b = MakeBallot r (word_of_nat i)\<rbrakk>
     \<Longrightarrow> step eqv f N w (upd w i (rep\<lparr>rnd := r, rpc := P1 s b (Some v) []\<rparr>) {MPrepare s b})"
| prepare:
    "\<lbrakk>j < N; rep = reps w j; MPrepare s b \<in> net w; acc_Prepare (racc rep) s b = (r, a);
      rel_option eqv (AcceptedValue r) v\<rbrakk>
     \<Longrightarrow> step eqv f N w (upd w j (rep\<lparr>racc := a\<rparr>) {MPromise j s b (r\<lparr>AcceptedValue := v\<rparr>)})"
| gather1:
    "\<lbrakk>i < N; rep = reps w i; rpc rep = P1 s b v rs; j < N; j \<notin> fst ` set rs;
      case res of None \<Rightarrow> True | Some r \<Rightarrow> MPromise j s b r \<in> net w\<rbrakk>
     \<Longrightarrow> step eqv f N w (upd w i (rep\<lparr>rpc := P1 s b v (rs @ [(j, res)])\<rparr>) {})"
| phase1_fail:
    "\<lbrakk>i < N; rep = reps w i; rpc rep = P1 s b v rs; length rs = N; p = phase1 (map snd rs);
      promises p < majority N\<rbrakk>
     \<Longrightarrow> step eqv f N w (upd w i (rep\<lparr>rpc := Idle, rnd := catchUpRound (rnd rep) (maxPromised p)\<rparr>) {})"
| phase1_ok:
    "\<lbrakk>i < N; rep = reps w i; rpc rep = P1 s b v rs; length rs = N; p = phase1 (map snd rs);
      majority N \<le> promises p; q = proposal_of p v\<rbrakk>
     \<Longrightarrow> step eqv f N w (upd w i (rep\<lparr>rpc := P2 s b q []\<rparr>) {MAccept s b q})"
| accept:
    "\<lbrakk>j < N; rep = reps w j; MAccept s b q \<in> net w; rel_option eqv q q';
      acc_Accept (racc rep) s b q' = (r, a)\<rbrakk>
     \<Longrightarrow> step eqv f N w (upd w j (rep\<lparr>racc := a\<rparr>) {MAccepted j s b r})"
| gather2:
    "\<lbrakk>i < N; rep = reps w i; rpc rep = P2 s b q rs; j < N; j \<notin> fst ` set rs;
      case res of None \<Rightarrow> True | Some r \<Rightarrow> MAccepted j s b r \<in> net w\<rbrakk>
     \<Longrightarrow> step eqv f N w (upd w i (rep\<lparr>rpc := P2 s b q (rs @ [(j, res)])\<rparr>) {})"
| phase2_fail:
    "\<lbrakk>i < N; rep = reps w i; rpc rep = P2 s b q rs; length rs = N; p = phase2 (map snd rs);
      fst p < majority N\<rbrakk>
     \<Longrightarrow> step eqv f N w (upd w i (rep\<lparr>rpc := Idle, rnd := catchUpRound (rnd rep) (snd p)\<rparr>) {})"
| phase2_ok:
    "\<lbrakk>i < N; rep = reps w i; rpc rep = P2 s b q rs; length rs = N; p = phase2 (map snd rs);
      majority N \<le> fst p\<rbrakk>
     \<Longrightarrow> step eqv f N w (upd w i (rep\<lparr>rpc := P3 s q\<rparr>) {MLearn s q})"
| commit_local:
    "\<lbrakk>i < N; rep = reps w i; rpc rep = P3 s q\<rbrakk>
     \<Longrightarrow> step eqv f N w (upd w i (rep\<lparr>rpc := Idle, rlog := Commit f s (nil_bytes q) (rlog rep)\<rparr>) {})"
| learn:
    "\<lbrakk>j < N; rep = reps w j; MLearn s q \<in> net w; rel_option eqv q q'\<rbrakk>
     \<Longrightarrow> step eqv f N w (upd w j (rep\<lparr>rlog := Commit f s (nil_bytes q') (rlog rep)\<rparr>) {})"

text \<open>
  Runs from the initial world in which no replica has made \<open>2 ^ 56\<close> attempts, the number of rounds a
  ballot has bits for.
\<close>

inductive run :: "(bytes \<Rightarrow> bytes \<Rightarrow> bool) \<Rightarrow> 'st apply_fn \<Rightarrow> nat \<Rightarrow> 'st \<Rightarrow> 'st world \<Rightarrow> bool"
  for eqv f N st0 where
  run_init: "run eqv f N st0 (world0 st0)"
| run_step: "\<lbrakk>run eqv f N st0 w; step eqv f N w w'; \<forall>i < N. rnd (reps w' i) < 2 ^ 56\<rbrakk> \<Longrightarrow> run eqv f N st0 w'"

subsection \<open>The invariant\<close>

abbreviation acc :: "'st world \<Rightarrow> nat \<Rightarrow> slot \<Rightarrow> acceptorSlot" where
  "acc w j s \<equiv> acc_slot (racc (reps w j)) s"

definition voted :: "'st world \<Rightarrow> slot \<Rightarrow> nat \<Rightarrow> ballot \<Rightarrow> bool" where
  "voted w s j b \<longleftrightarrow> (\<exists>r. MAccepted j s b r \<in> net w \<and> Accepted r)"

definition proposed :: "'st world \<Rightarrow> slot \<Rightarrow> ballot \<Rightarrow> bytes \<Rightarrow> bool" where
  "proposed w s b x \<longleftrightarrow> MAccept s b (Some x) \<in> net w"

definition chosen_at :: "nat \<Rightarrow> 'st world \<Rightarrow> slot \<Rightarrow> ballot \<Rightarrow> bool" where
  "chosen_at N w s b \<longleftrightarrow> (\<exists>Q. majorities N Q \<and> (\<forall>j \<in> Q. voted w s j b))"

text \<open>Acceptors: what they voted for, and what they promised.\<close>

definition acc_ok :: "(bytes \<Rightarrow> bytes \<Rightarrow> bool) \<Rightarrow> 'st world \<Rightarrow> nat \<Rightarrow> slot \<Rightarrow> acceptorSlot \<Rightarrow> bool" where
  "acc_ok eqv w j s sl \<longleftrightarrow>
     acceptedBallot sl \<le> promised sl \<and>
     (\<forall>b. voted w s j b \<longrightarrow> acceptedValue sl \<noteq> None \<and> b \<le> acceptedBallot sl) \<and>
     (\<forall>v. acceptedValue sl = Some v \<longrightarrow> (\<exists>x. proposed w s (acceptedBallot sl) x \<and> eqv x v))"

definition inv_acc :: "(bytes \<Rightarrow> bytes \<Rightarrow> bool) \<Rightarrow> nat \<Rightarrow> 'st world \<Rightarrow> bool" where
  "inv_acc eqv N w \<longleftrightarrow> (\<forall>j < N. \<forall>s. acc_ok eqv w j s (acc w j s))"

definition promise_ok :: "(bytes \<Rightarrow> bytes \<Rightarrow> bool) \<Rightarrow> 'st world \<Rightarrow> nat \<Rightarrow> slot \<Rightarrow> ballot \<Rightarrow> PrepareReply \<Rightarrow> bool" where
  "promise_ok eqv w j s b r \<longleftrightarrow>
     b \<le> promised (acc w j s) \<and>
     (\<forall>c < b. voted w s j c \<longrightarrow> AcceptedValue r \<noteq> None \<and> c \<le> AcceptedBallot r) \<and>
     (\<forall>v. AcceptedValue r = Some v \<longrightarrow>
        AcceptedBallot r < b \<and> (\<exists>x. proposed w s (AcceptedBallot r) x \<and> eqv x v))"

definition inv_promise :: "(bytes \<Rightarrow> bytes \<Rightarrow> bool) \<Rightarrow> nat \<Rightarrow> 'st world \<Rightarrow> bool" where
  "inv_promise eqv N w \<longleftrightarrow>
     (\<forall>j s b r. MPromise j s b r \<in> net w \<and> Promised r \<longrightarrow> promise_ok eqv w j s b r)"

text \<open>Proposers: what they have gathered, whose ballot they use, and one proposal per ballot.\<close>

definition gathered1 :: "nat \<Rightarrow> 'st world \<Rightarrow> slot \<Rightarrow> ballot \<Rightarrow> (nat \<times> PrepareReply option) list \<Rightarrow> bool" where
  "gathered1 N w s b rs \<longleftrightarrow>
     distinct (map fst rs) \<and> fst ` set rs \<subseteq> {0..<N} \<and>
     (\<forall>j r. (j, Some r) \<in> set rs \<longrightarrow> MPromise j s b r \<in> net w)"

definition gathered2 :: "nat \<Rightarrow> 'st world \<Rightarrow> slot \<Rightarrow> ballot \<Rightarrow> (nat \<times> AcceptReply option) list \<Rightarrow> bool" where
  "gathered2 N w s b rs \<longleftrightarrow>
     distinct (map fst rs) \<and> fst ` set rs \<subseteq> {0..<N} \<and>
     (\<forall>j r. (j, Some r) \<in> set rs \<longrightarrow> MAccepted j s b r \<in> net w)"

definition inv_prop :: "nat \<Rightarrow> 'st world \<Rightarrow> bool" where
  "inv_prop N w \<longleftrightarrow>
     (\<forall>s b q. MAccept s b q \<in> net w \<longrightarrow>
        (\<exists>x v rs. q = Some x \<and> gathered1 N w s b rs \<and> majority N \<le> promises (phase1 (map snd rs)) \<and>
           q = proposal_of (phase1 (map snd rs)) v))"

definition pc_ok :: "nat \<Rightarrow> 'st world \<Rightarrow> nat \<Rightarrow> u64 \<Rightarrow> pc \<Rightarrow> bool" where
  "pc_ok N w i r c \<longleftrightarrow>
     (case c of
        Idle \<Rightarrow> True
      | P1 s b v rs \<Rightarrow> b = MakeBallot r (word_of_nat i) \<and> v \<noteq> None \<and>
          gathered1 N w s b rs \<and> (\<forall>s' q. MAccept s' b q \<notin> net w)
      | P2 s b q rs \<Rightarrow> b = MakeBallot r (word_of_nat i) \<and> MAccept s b q \<in> net w \<and>
          gathered2 N w s b rs
      | P3 s q \<Rightarrow> MLearn s q \<in> net w)"

definition inv_pc :: "nat \<Rightarrow> 'st world \<Rightarrow> bool" where
  "inv_pc N w \<longleftrightarrow> (\<forall>i < N. pc_ok N w i (rnd (reps w i)) (rpc (reps w i)))"

definition inv_ballot :: "nat \<Rightarrow> 'st world \<Rightarrow> bool" where
  "inv_ballot N w \<longleftrightarrow>
     (\<forall>s b q. MAccept s b q \<in> net w \<longrightarrow>
        unat (ballot_idx b) < N \<and> Round b \<le> rnd (reps w (unat (ballot_idx b)))) \<and>
     (\<forall>s b q q'. MAccept s b q \<in> net w \<and> MAccept s b q' \<in> net w \<longrightarrow> q = q')"

text \<open>Learners: what is learned or committed was chosen.\<close>

definition inv_learn :: "(bytes \<Rightarrow> bytes \<Rightarrow> bool) \<Rightarrow> nat \<Rightarrow> 'st world \<Rightarrow> bool" where
  "inv_learn eqv N w \<longleftrightarrow>
     (\<forall>s q. MLearn s q \<in> net w \<longrightarrow> (\<exists>b. chosen_at N w s b \<and> MAccept s b q \<in> net w)) \<and>
     (\<forall>i < N. \<forall>s y. (s, y) \<in> set (chosen (rlog (reps w i))) \<longrightarrow>
        (\<exists>b x. chosen_at N w s b \<and> proposed w s b x \<and> eqv x y))"

lemma upd_sel [simp]:
  "reps (upd w i r ms) = (reps w)(i := r)" "net (upd w i r ms) = net w \<union> ms"
  by (simp_all add: upd_def)

lemma voted_upd [simp]:
  "voted (upd w i r ms) s j b \<longleftrightarrow> voted w s j b \<or> (\<exists>x. MAccepted j s b x \<in> ms \<and> Accepted x)"
  by (auto simp: voted_def)

lemma proposed_upd [simp]: "proposed (upd w i r ms) s b x \<longleftrightarrow> proposed w s b x \<or> MAccept s b (Some x) \<in> ms"
  by (auto simp: proposed_def)

lemma chosen_at_mono: "chosen_at N w s b \<Longrightarrow> net w \<subseteq> net w' \<Longrightarrow> chosen_at N w' s b"
  by (fastforce simp: chosen_at_def voted_def)

lemma gathered_mono:
  "gathered1 N w s b rs \<Longrightarrow> net w \<subseteq> net w' \<Longrightarrow> gathered1 N w' s b rs"
  "gathered2 N w s b rs' \<Longrightarrow> net w \<subseteq> net w' \<Longrightarrow> gathered2 N w' s b rs'"
  by (auto simp: gathered1_def gathered2_def)

lemma step_net_mono: "step eqv f N w w' \<Longrightarrow> net w \<subseteq> net w'"
  by (induction rule: step.induct) auto

lemma acc_ok_mono:
  assumes "acc_ok eqv w j s sl" and "net w \<subseteq> net w'" and "\<And>b. voted w' s j b \<Longrightarrow> voted w s j b"
  shows "acc_ok eqv w' j s sl"
  using assms unfolding acc_ok_def proposed_def by blast

lemma inv_acc_frame:
  assumes "inv_acc eqv N w" and "\<And>j. racc (reps w' j) = racc (reps w j)"
    and "\<And>s j b. voted w' s j b \<Longrightarrow> voted w s j b" and "net w \<subseteq> net w'"
  shows "inv_acc eqv N w'"
  unfolding inv_acc_def
proof (intro allI impI)
  fix j s assume "j < N"
  then have "acc_ok eqv w j s (acc w j s)" using assms(1) by (simp add: inv_acc_def)
  then show "acc_ok eqv w' j s (acc w' j s)"
    unfolding assms(2) by (rule acc_ok_mono) (fact assms(4), fact assms(3))
qed

text \<open>The two steps at an acceptor.\<close>

lemma acc_ok_prepare:
  assumes "acc_ok eqv w j s (acc_slot a s)"
  shows "acc_ok eqv w j s (acc_slot (snd (acc_Prepare a t b)) s)"
  using assms by (auto simp: acc_ok_def acc_slot_Prepare)

lemma acc_ok_accept:
  assumes "acc_ok eqv w j s (acc_slot a s)" and "proposed w t b x" and "eqv x y"
    and "r = fst (acc_Accept a t b (Some y))"
  shows "acc_ok eqv (upd w j rep {MAccepted j t b r}) j s (acc_slot (snd (acc_Accept a t b (Some y))) s)"
  using assms by (auto simp: acc_ok_def acc_slot_Accept Accepted_acc_Accept intro: order_trans)

lemma inv_acc_prepare:
  assumes inv: "inv_acc eqv N w" and acc: "acc_Prepare (racc (reps w j)) s b = (r, a)"
  shows "inv_acc eqv N (upd w j ((reps w j)\<lparr>racc := a\<rparr>) {MPromise j s b r'})" (is "inv_acc _ _ ?w")
  unfolding inv_acc_def
proof (intro allI impI)
  fix k t assume "k < N"
  then have ok: "acc_ok eqv w k t (acc w k t)" using inv by (simp add: inv_acc_def)
  have "acc_ok eqv w k t (acc ?w k t)"
    using ok acc_ok_prepare [of eqv w k t "racc (reps w k)" s b] acc by (cases "k = j") auto
  then show "acc_ok eqv ?w k t (acc ?w k t)" by (rule acc_ok_mono) auto
qed

lemma inv_acc_accept:
  assumes inv: "inv_acc eqv N w" and acc: "acc_Accept (racc (reps w j)) s b (Some y) = (r, a)"
    and x: "proposed w s b x" "eqv x y"
  shows "inv_acc eqv N (upd w j ((reps w j)\<lparr>racc := a\<rparr>) {MAccepted j s b r})" (is "inv_acc _ _ ?w")
  unfolding inv_acc_def
proof (intro allI impI)
  fix k t assume "k < N"
  then have ok: "acc_ok eqv w k t (acc w k t)" using inv by (simp add: inv_acc_def)
  show "acc_ok eqv ?w k t (acc ?w k t)"
  proof (cases "k = j")
    case True
    then show ?thesis
      using acc_ok_accept [OF ok x, of r "(reps w j)\<lparr>racc := a\<rparr>"] acc by simp
  next
    case False
    then have "acc ?w k t = acc w k t" by simp
    then show ?thesis using acc_ok_mono [OF ok, of ?w] False by auto
  qed
qed

lemma promise_ok_mono:
  assumes "promise_ok eqv w j s b r" and "net w \<subseteq> net w'"
    and "\<And>c. c < b \<Longrightarrow> voted w' s j c \<Longrightarrow> voted w s j c"
    and "promised (acc w j s) \<le> promised (acc w' j s)"
  shows "promise_ok eqv w' j s b r"
  using assms unfolding promise_ok_def proposed_def by (meson order_trans subsetD)

lemma inv_promise_frame:
  assumes "inv_promise eqv N w" and "\<And>j. racc (reps w' j) = racc (reps w j)"
    and "\<And>s j b. voted w' s j b \<Longrightarrow> voted w s j b" and "net w \<subseteq> net w'"
    and "\<And>j s b r. MPromise j s b r \<in> net w' \<Longrightarrow> MPromise j s b r \<in> net w"
  shows "inv_promise eqv N w'"
  unfolding inv_promise_def
proof (intro allI impI)
  fix j s b r assume "MPromise j s b r \<in> net w' \<and> Promised r"
  then have "promise_ok eqv w j s b r" using assms(1,5) by (simp add: inv_promise_def)
  then show "promise_ok eqv w' j s b r"
    by (rule promise_ok_mono) (use assms(2-4) in auto)
qed

lemma inv_promise_accept:
  assumes inv: "inv_promise eqv N w" and acc: "acc_Accept (racc (reps w j)) s b v = (r, a)"
  shows "inv_promise eqv N (upd w j ((reps w j)\<lparr>racc := a\<rparr>) {MAccepted j s b r})" (is "inv_promise _ _ ?w")
  unfolding inv_promise_def
proof (intro allI impI)
  fix k t c p assume "MPromise k t c p \<in> net ?w \<and> Promised p"
  then have ok: "promise_ok eqv w k t c p" using inv by (simp add: inv_promise_def)
  have r: "Accepted r \<longleftrightarrow> promised (acc w j s) \<le> b"
    using Accepted_acc_Accept [of "racc (reps w j)" s b v] acc by simp
  have a: "acc_slot a t = (if t = s \<and> promised (acc w j s) \<le> b
      then (acc w j s)\<lparr>promised := b, acceptedBallot := b, acceptedValue := v\<rparr> else acc w j t)" for t
    using acc_slot_Accept [of "racc (reps w j)" s b v t] acc by simp
  show "promise_ok eqv ?w k t c p"
    using ok
  proof (rule promise_ok_mono)
    fix d assume "d < c" "voted ?w t k d"
    then show "voted w t k d" using ok by (auto simp: promise_ok_def r)
  qed (auto simp: a)
qed

lemma inv_promise_prepare:
  assumes inv: "inv_promise eqv N w" "inv_acc eqv N w" and j: "j < N"
    and acc: "acc_Prepare (racc (reps w j)) s b = (r, a)"
    and v: "rel_option eqv (AcceptedValue r) v" and eq: "equivp eqv"
  shows "inv_promise eqv N (upd w j ((reps w j)\<lparr>racc := a\<rparr>) {MPromise j s b (r\<lparr>AcceptedValue := v\<rparr>)})"
    (is "inv_promise _ _ ?w")
  unfolding inv_promise_def
proof (intro allI impI)
  fix k t c p assume p: "MPromise k t c p \<in> net ?w \<and> Promised p"
  have a: "acc_slot a t = (if t = s \<and> promised (acc w j s) < b then (acc w j s)\<lparr>promised := b\<rparr> else acc w j t)" for t
    using acc_slot_Prepare [of "racc (reps w j)" s b t] acc by simp
  show "promise_ok eqv ?w k t c p"
  proof (cases "MPromise k t c p \<in> net w")
    case True
    then have "promise_ok eqv w k t c p" using inv(1) p by (simp add: inv_promise_def)
    then show ?thesis by (rule promise_ok_mono) (auto simp: a)
  next
    case False
    then have new: "k = j" "t = s" "c = b" "p = r\<lparr>AcceptedValue := v\<rparr>" using p by auto
    have r: "Promised r \<longleftrightarrow> promised (acc w j s) < b" "AcceptedBallot r = acceptedBallot (acc w j s)"
        "AcceptedValue r = acceptedValue (acc w j s)"
      using Promised_acc_Prepare [of "racc (reps w j)" s b] reply_acc_Prepare [of "racc (reps w j)" s b] acc
      by simp_all
    have ok: "acc_ok eqv w j s (acc w j s)" using inv(2) j by (simp add: inv_acc_def)
    then have "acceptedBallot (acc w j s) < b" using p new r by (auto simp: acc_ok_def intro: order_le_less_trans)
    moreover have "\<exists>x. proposed w s (acceptedBallot (acc w j s)) x \<and> eqv x y" if vy: "v = Some y" for y
    proof -
      obtain y' where "acceptedValue (acc w j s) = Some y'" "eqv y' y"
        using v [unfolded r(3)] vy by (cases "acceptedValue (acc w j s)") simp_all
      then show ?thesis using ok eq unfolding acc_ok_def by (metis equivp_transp)
    qed
    moreover have "v = None \<longleftrightarrow> acceptedValue (acc w j s) = None"
      using v [unfolded r(3)] by (cases v; cases "acceptedValue (acc w j s)") auto
    ultimately show ?thesis
      using ok p new r by (auto simp: promise_ok_def acc_ok_def a)
  qed
qed

lemma inv_acc_step:
  assumes "step eqv f N w w'" and "inv_acc eqv N w" and "inv_prop N w"
  shows "inv_acc eqv N w'"
  using assms(1)
proof cases
  case (prepare j rep s b r a v)
  then show ?thesis using inv_acc_prepare [OF assms(2)] by simp
next
  case (accept j rep s b q q' r a)
  then obtain x where q: "q = Some x" using assms(3) unfolding inv_prop_def by metis
  then obtain y where "q' = Some y" "eqv x y" using accept by (cases q') auto
  then show ?thesis
    using accept q inv_acc_accept [OF assms(2), of j s b y r a x] by (simp add: proposed_def)
qed ((rule inv_acc_frame [OF assms(2)]; simp add: subset_insertI split: if_splits)+)

lemma inv_promise_step:
  assumes "step eqv f N w w'" and "inv_promise eqv N w" and "inv_acc eqv N w" and "equivp eqv"
  shows "inv_promise eqv N w'"
  using assms(1)
proof cases
  case (prepare j rep s b r a v)
  then show ?thesis using inv_promise_prepare [OF assms(2,3)] assms(4) by simp
next
  case (accept j rep s b q q' r a)
  then show ?thesis using inv_promise_accept [OF assms(2)] by simp
qed ((rule inv_promise_frame [OF assms(2)]; simp add: subset_insertI split: if_splits)+)

text \<open>The proposers.\<close>

lemma inv_prop_step:
  assumes st: "step eqv f N w w'" and inv: "inv_prop N w" "inv_pc N w"
  shows "inv_prop N w'"
proof -
  have old: "\<exists>x v rs. q = Some x \<and> gathered1 N w' s b rs \<and> majority N \<le> promises (phase1 (map snd rs)) \<and>
      q = proposal_of (phase1 (map snd rs)) v" if "MAccept s b q \<in> net w" for s b q
    using inv(1) that gathered_mono(1) [OF _ step_net_mono [OF st]] unfolding inv_prop_def by metis
  have new: "MAccept s b q \<in> net w \<or>
      (\<exists>x v rs. q = Some x \<and> gathered1 N w' s b rs \<and> majority N \<le> promises (phase1 (map snd rs)) \<and>
        q = proposal_of (phase1 (map snd rs)) v)" if "MAccept s b q \<in> net w'" for s b q
    using st that
  proof cases
    case (phase1_ok i rep t c v rs p u)
    have "pc_ok N w i (rnd (reps w i)) (P1 t c v rs)"
      using inv(2) phase1_ok by (auto simp: inv_pc_def)
    then have g: "gathered1 N w t c rs" "v \<noteq> None" by (auto simp: pc_ok_def)
    have "u \<noteq> None"
      using proposal_of_phase1 [of "map snd rs" v] g(2) phase1_ok
      by (auto simp: p1_reports_def split: if_splits)
    then show ?thesis
      using gathered_mono(1) [OF g(1) step_net_mono [OF st]] phase1_ok that by auto
  qed auto
  show ?thesis unfolding inv_prop_def using old new by blast
qed

lemma pc_ok_mono:
  assumes "pc_ok N w i r c" and "net w \<subseteq> net w'"
    and "\<And>s q. MAccept s (MakeBallot r (word_of_nat i)) q \<in> net w' \<Longrightarrow> MAccept s (MakeBallot r (word_of_nat i)) q \<in> net w"
  shows "pc_ok N w' i r c"
  using assms gathered_mono [OF _ assms(2)] unfolding pc_ok_def
  by (cases c) (auto dest: subsetD)

lemma unat_word_of_nat8: "i < 256 \<Longrightarrow> unat (word_of_nat i :: 8 word) = i"
  by (simp add: unsigned_of_nat take_bit_nat_eq_self)

lemma word8_inj: "i < N \<Longrightarrow> j < N \<Longrightarrow> N \<le> 256 \<Longrightarrow> (word_of_nat i :: 8 word) = word_of_nat j \<Longrightarrow> i = j"
  by (metis unat_word_of_nat8 order_less_le_trans)

definition inv_rnd :: "nat \<Rightarrow> 'st world \<Rightarrow> bool" where
  "inv_rnd N w \<longleftrightarrow> (\<forall>i < N. rnd (reps w i) < 2 ^ 56)"

lemma inv_pc_upd:
  assumes inv: "inv_pc N w" and i: "i < N" "N \<le> 256"
    and own: "pc_ok N (upd w i rep ms) i (rnd rep) (rpc rep)"
    and fresh: "\<And>s b q. MAccept s b q \<in> ms \<Longrightarrow> ballot_idx b = word_of_nat i"
  shows "inv_pc N (upd w i rep ms)"
  unfolding inv_pc_def
proof (intro allI impI)
  fix k assume k: "k < N"
  show "pc_ok N (upd w i rep ms) k (rnd (reps (upd w i rep ms) k)) (rpc (reps (upd w i rep ms) k))"
  proof (cases "k = i")
    case False
    have "pc_ok N w k (rnd (reps w k)) (rpc (reps w k))" using inv k by (simp add: inv_pc_def)
    then have "pc_ok N (upd w i rep ms) k (rnd (reps w k)) (rpc (reps w k))"
    proof (rule pc_ok_mono)
      fix s q
      assume "MAccept s (MakeBallot (rnd (reps w k)) (word_of_nat k)) q \<in> net (upd w i rep ms)"
      then show "MAccept s (MakeBallot (rnd (reps w k)) (word_of_nat k)) q \<in> net w"
        using fresh [of s "MakeBallot (rnd (reps w k)) (word_of_nat k)" q] word8_inj [OF k i] False by auto
    qed simp
    then show ?thesis using False by simp
  qed (use own in simp)
qed

lemma pc_ok_of: "inv_pc N w \<Longrightarrow> i < N \<Longrightarrow> pc_ok N w i (rnd (reps w i)) (rpc (reps w i))"
  by (simp add: inv_pc_def)

lemma inv_pc_upd_same:
  assumes inv: "inv_pc N w" and i: "i < N" "N \<le> 256"
    and same: "rnd rep = rnd (reps w i)" "rpc rep = rpc (reps w i)"
    and ms: "\<And>s b q. MAccept s b q \<notin> ms"
  shows "inv_pc N (upd w i rep ms)"
proof (rule inv_pc_upd [OF inv i])
  show "pc_ok N (upd w i rep ms) i (rnd rep) (rpc rep)"
    using pc_ok_of [OF inv i(1)] unfolding same by (rule pc_ok_mono) (simp_all add: ms)
qed (simp add: ms)

lemma start_ballot_fresh:
  assumes "inv_ballot N w" and "inv_rnd N w" and "i < N" "N \<le> 256" and "rnd (reps w i) + 1 < 2 ^ 56"
  shows "MAccept s (MakeBallot (rnd (reps w i) + 1) (word_of_nat i)) q \<notin> net w"
proof
  assume "MAccept s (MakeBallot (rnd (reps w i) + 1) (word_of_nat i)) q \<in> net w"
  then have "Round (MakeBallot (rnd (reps w i) + 1) (word_of_nat i)) \<le> rnd (reps w (unat (word_of_nat i :: 8 word)))"
    using assms(1) unfolding inv_ballot_def by (metis ballot_idx_MakeBallot)
  then have le: "rnd (reps w i) + 1 \<le> rnd (reps w i)"
    using assms(3-5) by (simp add: unat_word_of_nat8)
  have "rnd (reps w i) \<noteq> - 1" using assms(2,3) unfolding inv_rnd_def
    by (metis less_imp_not_max)
  then show False using less_plus_one_iff [of "rnd (reps w i)" "rnd (reps w i)"] le by simp
qed

lemma gathered_snoc:
  "gathered1 N w s b rs \<Longrightarrow> j < N \<Longrightarrow> j \<notin> fst ` set rs \<Longrightarrow>
    (case res of None \<Rightarrow> True | Some r \<Rightarrow> MPromise j s b r \<in> net w) \<Longrightarrow> gathered1 N w s b (rs @ [(j, res)])"
  "gathered2 N w s b rs' \<Longrightarrow> j < N \<Longrightarrow> j \<notin> fst ` set rs' \<Longrightarrow>
    (case res' of None \<Rightarrow> True | Some r \<Rightarrow> MAccepted j s b r \<in> net w) \<Longrightarrow> gathered2 N w s b (rs' @ [(j, res')])"
  by (auto simp: gathered1_def gathered2_def)

lemma inv_pc_step:
  assumes st: "step eqv f N w w'" and inv: "inv_pc N w" "inv_ballot N w"
    and rnd: "inv_rnd N w" "inv_rnd N w'" and N: "N \<le> 256"
  shows "inv_pc N w'"
  using st
proof cases
  case (start i rep r s b v)
  then have "r < 2 ^ 56" using rnd(2) by (auto simp: inv_rnd_def)
  then have "\<forall>s q. MAccept s b q \<notin> net w"
    using start_ballot_fresh [OF inv(2) rnd(1) _ N, of i] start by auto
  then show ?thesis
    unfolding start(1) using start(2)
    by (intro inv_pc_upd [OF inv(1) _ N]) (simp_all add: start pc_ok_def gathered1_def)
next
  case (prepare j rep s b r a v)
  show ?thesis
    unfolding prepare(1) by (rule inv_pc_upd_same [OF inv(1) prepare(2) N]) (simp_all add: prepare(3))
next
  case (gather1 i rep s b v rs j res)
  have "pc_ok N w i (rnd (reps w i)) (P1 s b v rs)" using pc_ok_of [OF inv(1) gather1(2)] gather1 by simp
  then show ?thesis
    unfolding gather1(1) using gathered_snoc(1) [OF _ gather1(5-7)]
    by (intro inv_pc_upd [OF inv(1) gather1(2) N]) (auto simp: gather1(3) pc_ok_def intro: gathered_mono)
next
  case (phase1_fail i rep s b v rs p)
  show ?thesis
    unfolding phase1_fail(1) by (intro inv_pc_upd [OF inv(1) phase1_fail(2) N]) (simp_all add: pc_ok_def)
next
  case (phase1_ok i rep s b v rs p q)
  have "pc_ok N w i (rnd (reps w i)) (P1 s b v rs)" using pc_ok_of [OF inv(1) phase1_ok(2)] phase1_ok by simp
  then show ?thesis
    unfolding phase1_ok(1)
    by (intro inv_pc_upd [OF inv(1) phase1_ok(2) N]) (auto simp: phase1_ok(3) pc_ok_def gathered2_def)
next
  case (accept j rep s b q q' r a)
  show ?thesis
    unfolding accept(1) by (rule inv_pc_upd_same [OF inv(1) accept(2) N]) (simp_all add: accept(3))
next
  case (gather2 i rep s b q rs j res)
  have "pc_ok N w i (rnd (reps w i)) (P2 s b q rs)" using pc_ok_of [OF inv(1) gather2(2)] gather2 by simp
  then show ?thesis
    unfolding gather2(1) using gathered_snoc(2) [OF _ gather2(5-7)]
    by (intro inv_pc_upd [OF inv(1) gather2(2) N]) (auto simp: gather2(3) pc_ok_def intro: gathered_mono)
next
  case (phase2_fail i rep s b q rs p)
  show ?thesis
    unfolding phase2_fail(1) by (intro inv_pc_upd [OF inv(1) phase2_fail(2) N]) (simp_all add: pc_ok_def)
next
  case (phase2_ok i rep s b q rs p)
  show ?thesis
    unfolding phase2_ok(1) by (intro inv_pc_upd [OF inv(1) phase2_ok(2) N]) (simp_all add: pc_ok_def)
next
  case (commit_local i rep s q)
  show ?thesis
    unfolding commit_local(1) by (intro inv_pc_upd [OF inv(1) commit_local(2) N]) (simp_all add: pc_ok_def)
next
  case (learn j rep s q q')
  show ?thesis
    unfolding learn(1) by (rule inv_pc_upd_same [OF inv(1) learn(2) N]) (simp_all add: learn(3))
qed

lemma inv_ballotD:
  assumes "inv_ballot N w" and "MAccept s b q \<in> net w"
  shows "unat (ballot_idx b) < N" and "Round b \<le> rnd (reps w (unat (ballot_idx b)))"
    and "MAccept s b q' \<in> net w \<Longrightarrow> q' = q"
  using assms unfolding inv_ballot_def by blast+

lemma inv_ballot_upd:
  assumes inv: "inv_ballot N w" and i: "i < N" "i < 256"
    and rep: "rnd rep = rnd (reps w i)" "rnd rep < 2 ^ 56" and b: "b = MakeBallot (rnd rep) (word_of_nat i)"
    and fresh: "\<And>s q. MAccept s b q \<notin> net w"
  shows "inv_ballot N (upd w i rep {MAccept s b q})" (is "inv_ballot N ?w")
proof -
  have "rnd (reps ?w k) = rnd (reps w k)" for k using rep(1) by simp
  then have "unat (ballot_idx c) < N \<and> Round c \<le> rnd (reps ?w (unat (ballot_idx c)))"
    if "MAccept t c x \<in> net ?w" for t c x
    using that inv_ballotD(1,2) [OF inv, of t c x] i rep by (auto simp: b unat_word_of_nat8)
  moreover have "x = y" if "MAccept t c x \<in> net ?w" "MAccept t c y \<in> net ?w" for t c x y
    using that inv_ballotD(3) [OF inv, of t c x y] fresh by auto
  ultimately show ?thesis unfolding inv_ballot_def by blast
qed

lemma inv_ballot_frame:
  assumes inv: "inv_ballot N w" and le: "\<And>i. rnd (reps w i) \<le> rnd (reps w' i)"
    and ms: "\<And>s b q. MAccept s b q \<in> net w' \<Longrightarrow> MAccept s b q \<in> net w"
  shows "inv_ballot N w'"
  using assms unfolding inv_ballot_def by (meson order_trans)

lemma inv_ballot_step:
  assumes st: "step eqv f N w w'" and inv: "inv_ballot N w" "inv_pc N w"
    and rnd: "inv_rnd N w" and N: "N \<le> 256"
  shows "inv_ballot N w'"
  using st
proof cases
  case (start i rep r s b v)
  have "rnd (reps w i) \<noteq> - 1" using rnd start(2) unfolding inv_rnd_def by (metis less_imp_not_max)
  then have "rnd (reps w i) \<le> rnd (reps w i) + 1"
    using less_plus_one_iff [of "rnd (reps w i)" "rnd (reps w i)"] by simp
  then show ?thesis by (intro inv_ballot_frame [OF inv(1)]) (auto simp: start)
next
  case (phase1_ok i rep s b v rs p q)
  have "pc_ok N w i (rnd (reps w i)) (P1 s b v rs)" using pc_ok_of [OF inv(2) phase1_ok(2)] phase1_ok by simp
  then show ?thesis
    unfolding phase1_ok(1) using rnd N phase1_ok(2)
    by (intro inv_ballot_upd [OF inv(1)]) (auto simp: phase1_ok(3) pc_ok_def inv_rnd_def)
qed ((rule inv_ballot_frame [OF inv(1)]; simp add: le_catchUpRound)+)

text \<open>The learners.\<close>

lemma gathered2_chosen:
  assumes "gathered2 N w s b rs" and "majority N \<le> fst (phase2 (map snd rs))"
  shows "chosen_at N w s b"
proof -
  let ?Q = "fst ` set (filter (\<lambda>x. accepted_reply (snd x)) rs)"
  have "distinct (map fst (filter (\<lambda>x. accepted_reply (snd x)) rs))"
    using assms(1) by (simp add: gathered2_def distinct_map_filter)
  then have "card ?Q = length (filter (\<lambda>x. accepted_reply (snd x)) rs)"
    by (metis distinct_card length_map set_map)
  also have "\<dots> = fst (phase2 (map snd rs))"
    by (simp add: accepts_phase2 filter_map comp_def)
  finally have "majority N \<le> card ?Q" using assms(2) by simp
  moreover have "?Q \<subseteq> {0..<N}" using assms(1) by (auto simp: gathered2_def)
  moreover have "voted w s j b" if "j \<in> ?Q" for j
    using that assms(1) unfolding voted_def gathered2_def
    by (auto simp: accepted_reply_def split: option.splits) blast
  ultimately show ?thesis unfolding chosen_at_def majorities_def by blast
qed

lemma gathered1_quorum:
  assumes "gathered1 N w s b rs" and "majority N \<le> promises (phase1 (map snd rs))"
  shows "majorities N (fst ` set (filter (\<lambda>x. promised_reply (snd x)) rs))"
proof -
  let ?Q = "fst ` set (filter (\<lambda>x. promised_reply (snd x)) rs)"
  have "distinct (map fst (filter (\<lambda>x. promised_reply (snd x)) rs))"
    using assms(1) by (simp add: gathered1_def distinct_map_filter)
  then have "card ?Q = length (filter (\<lambda>x. promised_reply (snd x)) rs)"
    by (metis distinct_card length_map set_map)
  also have "\<dots> = promises (phase1 (map snd rs))"
    by (simp add: promises_phase1 filter_map comp_def)
  finally show ?thesis using assms by (auto simp: gathered1_def majorities_def)
qed

lemma set_chosen_Commit: "set (chosen (Commit f s v l)) \<subseteq> insert (s, v) (set (chosen l))"
  by (auto simp: chosen_Commit)

lemma inv_learn_frame:
  assumes inv: "inv_learn eqv N w" and sub: "net w \<subseteq> net w'"
    and new: "\<And>s q. MLearn s q \<in> net w' \<Longrightarrow> MLearn s q \<in> net w \<or> (\<exists>b. chosen_at N w' s b \<and> MAccept s b q \<in> net w')"
    and log: "\<And>i s y. i < N \<Longrightarrow> (s, y) \<in> set (chosen (rlog (reps w' i))) \<Longrightarrow>
      (s, y) \<in> set (chosen (rlog (reps w i))) \<or> (\<exists>b x. chosen_at N w s b \<and> proposed w s b x \<and> eqv x y)"
  shows "inv_learn eqv N w'"
proof -
  have "\<exists>b. chosen_at N w' s b \<and> MAccept s b q \<in> net w'" if "MLearn s q \<in> net w'" for s q
    using new [OF that] inv chosen_at_mono [OF _ sub] sub unfolding inv_learn_def by blast
  moreover have "\<exists>b x. chosen_at N w' s b \<and> proposed w' s b x \<and> eqv x y"
    if "i < N" "(s, y) \<in> set (chosen (rlog (reps w' i)))" for i s y
  proof -
    have "\<exists>b x. chosen_at N w s b \<and> proposed w s b x \<and> eqv x y"
      using log [OF that] inv that(1) unfolding inv_learn_def by blast
    then show ?thesis using chosen_at_mono [OF _ sub] sub unfolding proposed_def by blast
  qed
  ultimately show ?thesis unfolding inv_learn_def by blast
qed

lemma inv_learn_chosen:
  assumes "inv_learn eqv N w" and "inv_prop N w" and "MLearn s q \<in> net w"
  obtains b x where "chosen_at N w s b" and "proposed w s b x" and "q = Some x"
  using assms unfolding inv_learn_def inv_prop_def proposed_def by metis

lemma inv_learn_step:
  assumes st: "step eqv f N w w'" and inv: "inv_learn eqv N w" "inv_prop N w" "inv_pc N w" and eq: "equivp eqv"
  shows "inv_learn eqv N w'"
  using st
proof cases
  case (phase2_ok i rep s b q rs p)
  have "pc_ok N w i (rnd (reps w i)) (P2 s b q rs)" using pc_ok_of [OF inv(3) phase2_ok(2)] phase2_ok by simp
  then have "chosen_at N w s b" "MAccept s b q \<in> net w"
    using gathered2_chosen [of N w s b rs] phase2_ok by (auto simp: pc_ok_def)
  then have "\<exists>b. chosen_at N w' s b \<and> MAccept s b q \<in> net w'"
    using chosen_at_mono step_net_mono [OF st] by blast
  then show ?thesis
    using phase2_ok by (intro inv_learn_frame [OF inv(1) step_net_mono [OF st]]) (auto split: if_splits)
next
  case (commit_local i rep s q)
  have "MLearn s q \<in> net w" using pc_ok_of [OF inv(3) commit_local(2)] commit_local by (simp add: pc_ok_def)
  then obtain b x where "chosen_at N w s b" "proposed w s b x" "q = Some x"
    using inv_learn_chosen [OF inv(1,2)] by blast
  then have "\<exists>b x. chosen_at N w s b \<and> proposed w s b x \<and> eqv x (nil_bytes q)"
    using equivp_reflp [OF eq] by (auto simp: nil_bytes_def)
  then show ?thesis
    using commit_local set_chosen_Commit [of f s "nil_bytes q" "rlog rep"]
    by (intro inv_learn_frame [OF inv(1) step_net_mono [OF st]]) (auto split: if_splits)
next
  case (learn j rep s q q')
  obtain b x where x: "chosen_at N w s b" "proposed w s b x" "q = Some x"
    using inv_learn_chosen [OF inv(1,2) learn(4)] by blast
  then have "\<exists>b x. chosen_at N w s b \<and> proposed w s b x \<and> eqv x (nil_bytes q')"
    using learn(5) by (cases q') (auto simp: nil_bytes_def)
  then show ?thesis
    using learn set_chosen_Commit [of f s "nil_bytes q'" "rlog rep"]
    by (intro inv_learn_frame [OF inv(1) step_net_mono [OF st]]) (auto split: if_splits)
qed ((rule inv_learn_frame [OF inv(1) step_net_mono [OF st]]; simp split: if_splits)+)

subsection \<open>Agreement\<close>

definition paxos_inv :: "(bytes \<Rightarrow> bytes \<Rightarrow> bool) \<Rightarrow> nat \<Rightarrow> 'st world \<Rightarrow> bool" where
  "paxos_inv eqv N w \<longleftrightarrow>
     inv_acc eqv N w \<and> inv_promise eqv N w \<and> inv_prop N w \<and> inv_pc N w \<and> inv_ballot N w \<and>
     inv_rnd N w \<and> inv_learn eqv N w"

lemma paxos_inv_init: "paxos_inv eqv N (world0 st0)"
  by (simp add: paxos_inv_def inv_acc_def acc_ok_def voted_def inv_promise_def inv_prop_def inv_pc_def
      pc_ok_def inv_ballot_def inv_rnd_def inv_learn_def world0_def NewLog_def)

lemma run_paxos_inv:
  assumes "run eqv f N st0 w" and "equivp eqv" and "N \<le> 256"
  shows "paxos_inv eqv N w"
  using assms(1)
proof induction
  case (run_step w w')
  note st = \<open>step eqv f N w w'\<close>
  have rnd: "inv_rnd N w'" using run_step by (simp add: inv_rnd_def)
  have inv: "inv_acc eqv N w" "inv_promise eqv N w" "inv_prop N w" "inv_pc N w" "inv_ballot N w"
      "inv_rnd N w" "inv_learn eqv N w"
    using run_step.IH by (simp_all add: paxos_inv_def)
  show ?case
    unfolding paxos_inv_def
    using inv_acc_step [OF st inv(1,3)] inv_promise_step [OF st inv(2,1) assms(2)] inv_prop_step [OF st inv(3,4)]
      inv_pc_step [OF st inv(4,5,6) rnd assms(3)] inv_ballot_step [OF st inv(5,4,6) assms(3)]
      inv_learn_step [OF st inv(7,3,4) assms(2)] rnd
    by blast
qed (rule paxos_inv_init)

lemma proposed_mru_safe:
  assumes inv: "paxos_inv eqv N w" and x: "proposed w s b x"
  shows "mru_safe (majorities N) (voted w s) (proposed w s) eqv b x"
proof -
  obtain v rs where rs: "gathered1 N w s b rs" "majority N \<le> promises (phase1 (map snd rs))"
      "Some x = proposal_of (phase1 (map snd rs)) v"
    using inv x unfolding paxos_inv_def inv_prop_def proposed_def by metis
  let ?Q = "fst ` set (filter (\<lambda>x. promised_reply (snd x)) rs)"
  have ok: "promise_ok eqv w j s b r" if "(j, Some r) \<in> set rs" "Promised r" for j r
    using that rs(1) inv unfolding paxos_inv_def inv_promise_def gathered1_def by blast
  have Q: "\<exists>r. (j, Some r) \<in> set rs \<and> Promised r" if "j \<in> ?Q" for j
    using that by (auto simp: promised_reply_def split: option.splits)
  have vote: "\<exists>r \<in> p1_reports (map snd rs). c \<le> AcceptedBallot r" if vt: "j \<in> ?Q" "c < b" "voted w s j c" for j c
  proof -
    obtain r where r: "(j, Some r) \<in> set rs" "Promised r" using Q [OF vt(1)] by blast
    then have "AcceptedValue r \<noteq> None" "c \<le> AcceptedBallot r"
      using ok [OF r] vt(2,3) by (simp_all add: promise_ok_def)
    then show ?thesis using r by (intro bexI [of _ r]) (auto simp: p1_reports_def intro: rev_image_eqI)
  qed
  have "(\<forall>j \<in> ?Q. \<forall>c < b. \<not> voted w s j c) \<or>
      (\<exists>a u. a < b \<and> proposed w s a u \<and> eqv u x \<and> (\<forall>j \<in> ?Q. \<forall>c < b. voted w s j c \<longrightarrow> c \<le> a))"
  proof (cases "p1_reports (map snd rs) = {}")
    case True
    then show ?thesis using vote by blast
  next
    case False
    then obtain r where r: "r \<in> p1_reports (map snd rs)" "AcceptedValue r = Some x"
        "\<forall>r' \<in> p1_reports (map snd rs). AcceptedBallot r' \<le> AcceptedBallot r"
      using proposal_of_phase1 [of "map snd rs" v] rs(3) unfolding if_not_P [OF False] by metis
    then obtain j where j: "(j, Some r) \<in> set rs" "Promised r" by (auto simp: p1_reports_def)
    have "AcceptedBallot r < b" "\<exists>u. proposed w s (AcceptedBallot r) u \<and> eqv u x"
      using ok [OF j] r(2) by (simp_all add: promise_ok_def)
    moreover have "c \<le> AcceptedBallot r" if "j \<in> ?Q" "c < b" "voted w s j c" for j c
      using vote [OF that] r(3) by (auto intro: order_trans)
    ultimately show ?thesis by blast
  qed
  then show ?thesis unfolding mru_safe_def using gathered1_quorum [OF rs(1,2)] by blast
qed

lemma chosen_agree:
  assumes inv: "paxos_inv eqv N w" and eq: "equivp eqv"
    and x: "chosen_at N w s b" "proposed w s b x" and y: "chosen_at N w s c" "proposed w s c y"
  shows "eqv x y"
proof -
  have uniq: "eqv u v" if "proposed w s d u" "proposed w s d v" for d u v
  proof -
    have "Some u = Some v"
      using that inv unfolding paxos_inv_def proposed_def by (metis inv_ballotD(3))
    then show ?thesis using equivp_reflp [OF eq] by simp
  qed
  have agree: "eqv u v" if "chosen_at N w s d" "proposed w s d u" "proposed w s e v" "d \<le> e" for d e u v
  proof -
    obtain R where "majorities N R" "\<forall>j \<in> R. voted w s j d" using \<open>chosen_at N w s d\<close> by (auto simp: chosen_at_def)
    then show ?thesis
      using maj.mru_agreement [of eqv "proposed w s" N "voted w s" R d u e v] eq uniq
        proposed_mru_safe [OF inv] that by blast
  qed
  show ?thesis
  proof (cases "b \<le> c")
    case True
    then show ?thesis using agree x y by blast
  next
    case False
    then have "eqv y x" using agree [OF y x(2)] by simp
    then show ?thesis using eq by (rule equivp_symp [rotated])
  qed
qed

lemma run_logs_agree:
  assumes "run eqv f N st0 w" and "equivp eqv" and "N \<le> 256" and "i < N" "j < N"
    and "(s, x) \<in> set (chosen (rlog (reps w i)))" and "(s, y) \<in> set (chosen (rlog (reps w j)))"
  shows "eqv x y"
proof -
  have inv: "paxos_inv eqv N w" by (rule run_paxos_inv [OF assms(1-3)])
  obtain b x' where x: "chosen_at N w s b" "proposed w s b x'" "eqv x' x"
    using inv assms(4,6) unfolding paxos_inv_def inv_learn_def by blast
  obtain c y' where y: "chosen_at N w s c" "proposed w s c y'" "eqv y' y"
    using inv assms(5,7) unfolding paxos_inv_def inv_learn_def by blast
  have "eqv x' y'" by (rule chosen_agree [OF inv assms(2) x(1,2) y(1,2)])
  then show ?thesis using x(3) y(3) assms(2) by (meson equivp_symp equivp_transp)
qed

lemma run_log_inv:
  assumes "run eqv f N st0 w" and "length (chosen (rlog (reps w i))) < 2 ^ 64 - 2"
  shows "log_inv f st0 (rlog (reps w i))"
  using assms
proof (induction arbitrary: i)
  case run_init
  then show ?case by (simp add: world0_def log_inv_NewLog)
next
  case (run_step w w')
  have "\<exists>s v. rlog (reps w' i) = rlog (reps w i) \<or> rlog (reps w' i) = Commit f s v (rlog (reps w i))"
    using run_step.hyps(2) by cases auto
  then obtain s v where w': "rlog (reps w' i) = rlog (reps w i) \<or> rlog (reps w' i) = Commit f s v (rlog (reps w i))"
    by blast
  then have "length (chosen (rlog (reps w i))) \<le> length (chosen (rlog (reps w' i)))"
    using length_chosen_Commit [of "rlog (reps w i)" f s v] by auto
  then have "length (chosen (rlog (reps w i))) < 2 ^ 64 - 2" "log_inv f st0 (rlog (reps w i))"
    using run_step.IH [of i] run_step.prems by simp_all
  then show ?case using w' log_inv_Commit by metis
qed

text \<open>
  C1: agreement. In every run, whatever messages are lost, repeated or reordered and however the
  replicas' proposals interleave, two replicas never commit different values to the same slot.
\<close>

theorem paxos_agreement:
  assumes "run eqv f N st0 w" and "equivp eqv" and "N \<le> 256" and "i < N" "j < N"
    and "map_of (chosen (rlog (reps w i))) s = Some x" and "map_of (chosen (rlog (reps w j))) s = Some y"
  shows "eqv x y"
  using run_logs_agree [OF assms(1-5)] map_of_SomeD [OF assms(6)] map_of_SomeD [OF assms(7)] by blast

lemma log_inv_chosen_below:
  assumes "log_inv f st0 l" and "k < unat (applied l)"
  shows "\<exists>v. map_of (chosen l) (word_of_nat k) = Some v"
  using assms word_of_nat_less_unat [OF assms(2)] unfolding log_inv_def log_pre_def
  by (metis map_of_eq_None_fst option.exhaust)

lemma agreeing_logs_states:
  assumes inv: "log_inv f st0 l" "log_inv f st0 l'" and le: "applied l \<le> applied l'"
    and agree: "\<And>s x y. map_of (chosen l) s = Some x \<Longrightarrow> map_of (chosen l') s = Some y \<Longrightarrow> eqv x y"
    and resp: "\<And>s x y st. eqv x y \<Longrightarrow> f s x st = f s y st"
  shows "smst l' = fold (\<lambda>k. f (word_of_nat k) (the (map_of (chosen l') (word_of_nat k))))
    [unat (applied l)..<unat (applied l')] (smst l)"
proof -
  let ?g = "\<lambda>l k. f (word_of_nat k) (the (map_of (chosen l) (word_of_nat k)))"
  have le': "unat (applied l) \<le> unat (applied l')" using le by (simp add: word_le_nat_alt)
  have "fold (?g l) [0..<unat (applied l)] st0 = fold (?g l') [0..<unat (applied l)] st0"
  proof (intro fold_cong refl)
    fix k assume "k \<in> set [0..<unat (applied l)]"
    then have "k < unat (applied l)" "k < unat (applied l')" using le' by simp_all
    then obtain x y where "map_of (chosen l) (word_of_nat k) = Some x" "map_of (chosen l') (word_of_nat k) = Some y"
      using log_inv_chosen_below [OF inv(1)] log_inv_chosen_below [OF inv(2)] by blast
    then show "?g l k = ?g l' k" using agree resp by auto
  qed
  then show ?thesis
    using log_inv_smst [OF inv(1) refl] log_inv_smst [OF inv(2) refl] le'
    by (simp add: fold_upt_append [of "unat (applied l)" "unat (applied l')"])
qed

text \<open>
  C10: replicated state. If the state machine does not look at how a value is encoded, then in every
  run any two replicas' state machines are at two points of one history: the one that has applied
  more slots is the other one with the slots in between applied on top, and replicas that have
  applied equally many are in equal states.
\<close>

theorem replicas_same_history:
  assumes "run eqv f N st0 w" and "equivp eqv" and "N \<le> 256" and "i < N" "j < N"
    and "\<forall>s x y st. eqv x y \<longrightarrow> f s x st = f s y st"
    and "length (chosen (rlog (reps w i))) < 2 ^ 64 - 2" and "length (chosen (rlog (reps w j))) < 2 ^ 64 - 2"
    and "Applied (rlog (reps w i)) \<le> Applied (rlog (reps w j))"
  shows "smst (rlog (reps w j)) =
      fold (\<lambda>k. f (word_of_nat k) (the (map_of (chosen (rlog (reps w j))) (word_of_nat k))))
        [unat (Applied (rlog (reps w i)))..<unat (Applied (rlog (reps w j)))] (smst (rlog (reps w i)))"
  unfolding Applied_def
proof (rule agreeing_logs_states [where eqv = eqv])
  show "eqv x y" if "map_of (chosen (rlog (reps w i))) s = Some x" "map_of (chosen (rlog (reps w j))) s = Some y" for s x y
    using run_logs_agree [OF assms(1-5)] map_of_SomeD [OF that(1)] map_of_SomeD [OF that(2)] by blast
qed (use run_log_inv [OF assms(1)] assms(6-9) in \<open>auto simp: Applied_def\<close>)

subsection \<open>A proposer nobody interferes with finishes\<close>

text \<open>
  The stages of such a round, counting the replicas that have answered. The rounds and logs of the
  replicas (\<open>rn\<close> and \<open>lg\<close>) do not change while the replies are gathered.
\<close>

definition promising ::
    "nat \<Rightarrow> nat \<Rightarrow> slot \<Rightarrow> ballot \<Rightarrow> pvalue \<Rightarrow> (nat \<Rightarrow> u64) \<Rightarrow> (nat \<Rightarrow> 'st plog) \<Rightarrow> nat \<Rightarrow> 'st world \<Rightarrow> bool" where
  "promising N i s b v rn lg k w \<longleftrightarrow>
     MPrepare s b \<in> net w \<and> (\<forall>j. rnd (reps w j) = rn j \<and> rlog (reps w j) = lg j) \<and>
     (\<forall>j < N. if j < k then promised (acc w j s) \<le> b else promised (acc w j s) < b) \<and>
     (\<exists>rs. rpc (reps w i) = P1 s b v rs \<and> map fst rs = [0..<k] \<and> list_all promised_reply (map snd rs))"

definition accepting ::
    "nat \<Rightarrow> nat \<Rightarrow> slot \<Rightarrow> ballot \<Rightarrow> pvalue \<Rightarrow> (nat \<Rightarrow> u64) \<Rightarrow> (nat \<Rightarrow> 'st plog) \<Rightarrow> nat \<Rightarrow> 'st world \<Rightarrow> bool" where
  "accepting N i s b q rn lg k w \<longleftrightarrow>
     MAccept s b q \<in> net w \<and> (\<forall>j. rnd (reps w j) = rn j \<and> rlog (reps w j) = lg j) \<and>
     (\<forall>j < N. promised (acc w j s) \<le> b) \<and>
     (\<exists>rs. rpc (reps w i) = P2 s b q rs \<and> map fst rs = [0..<k] \<and> list_all accepted_reply (map snd rs))"

definition learning ::
    "'st apply_fn \<Rightarrow> nat \<Rightarrow> slot \<Rightarrow> pvalue \<Rightarrow> (nat \<Rightarrow> u64) \<Rightarrow> (nat \<Rightarrow> 'st plog) \<Rightarrow> nat \<Rightarrow> 'st world \<Rightarrow> bool" where
  "learning f i s q rn lg k w \<longleftrightarrow>
     MLearn s q \<in> net w \<and> rpc (reps w i) = P3 s q \<and>
     (\<forall>j. rnd (reps w j) = rn j \<and> rlog (reps w j) = (if j < k then Commit f s (nil_bytes q) (lg j) else lg j))"

lemma rel_option_reflp: "reflp R \<Longrightarrow> rel_option R x x"
  by (simp add: option.rel_reflp reflpD)

lemma promising_step:
  assumes run: "run eqv f N st0 w" and pr: "promising N i s b v rn lg k w"
    and k: "k < N" "i < N" and rf: "reflp eqv" and rn: "\<forall>j < N. rn j < 2 ^ 56"
  shows "\<exists>w'. run eqv f N st0 w' \<and> promising N i s b v rn lg (Suc k) w'"
proof -
  obtain rs where rs: "rpc (reps w i) = P1 s b v rs" "map fst rs = [0..<k]" "list_all promised_reply (map snd rs)"
    using pr by (auto simp: promising_def)
  obtain r a where pa: "acc_Prepare (racc (reps w k)) s b = (r, a)" by fastforce
  have lt: "promised (acc w k s) < b" using pr k by (auto simp: promising_def)
  have r: "Promised r" using Promised_acc_Prepare [of "racc (reps w k)" s b] pa lt by simp
  have a: "acc_slot a s = (acc w k s)\<lparr>promised := b\<rparr>"
    using acc_slot_Prepare [of "racc (reps w k)" s b s] pa lt by simp
  define w1 where "w1 = upd w k ((reps w k)\<lparr>racc := a\<rparr>) {MPromise k s b r}"
  define w2 where "w2 = upd w1 i ((reps w1 i)\<lparr>rpc := P1 s b v (rs @ [(k, Some r)])\<rparr>) {}"
  have "step eqv f N w w1"
    using step.prepare [OF k(1) refl _ pa, of eqv "AcceptedValue r" f] rel_option_reflp [OF rf] pr
    by (simp add: w1_def promising_def)
  then have r1: "run eqv f N st0 w1"
    by (rule run_step [OF run]) (use rn pr in \<open>simp add: w1_def promising_def\<close>)
  have "k \<notin> fst ` set rs" using rs(2) by (metis atLeastLessThan_iff less_irrefl set_map set_upt)
  then have st2: "step eqv f N w1 w2"
    unfolding w2_def using rs(1) k by (intro step.gather1) (auto simp: w1_def)
  have sel: "\<And>j. rnd (reps w2 j) = rnd (reps w j) \<and> rlog (reps w2 j) = rlog (reps w j)"
      "\<And>j. acc w2 j s = (if j = k then (acc w k s)\<lparr>promised := b\<rparr> else acc w j s)"
      "rpc (reps w2 i) = P1 s b v (rs @ [(k, Some r)])" "net w \<subseteq> net w2"
    by (auto simp: w1_def w2_def a)
  have pr2: "promising N i s b v rn lg (Suc k) w2"
    unfolding promising_def
  proof (intro conjI allI impI)
    show "MPrepare s b \<in> net w2" using pr sel(4) by (auto simp: promising_def)
    show "\<exists>rs. rpc (reps w2 i) = P1 s b v rs \<and> map fst rs = [0..<Suc k] \<and> list_all promised_reply (map snd rs)"
      using rs r by (intro exI [of _ "rs @ [(k, Some r)]"]) (simp add: sel(3) promised_reply_def)
    fix j
    show "rnd (reps w2 j) = rn j" "rlog (reps w2 j) = lg j" using pr by (simp_all add: sel(1) promising_def)
    show "if j < Suc k then promised (acc w2 j s) \<le> b else promised (acc w2 j s) < b" if "j < N"
      using pr that by (auto simp: sel(2) promising_def less_Suc_eq)
  qed
  have "\<forall>j < N. rnd (reps w2 j) < 2 ^ 56" using pr2 rn by (simp add: promising_def)
  then show ?thesis using run_step [OF r1 st2] pr2 by blast
qed

lemma accepting_step:
  assumes run: "run eqv f N st0 w" and ac: "accepting N i s b q rn lg k w"
    and k: "k < N" "i < N" and rf: "reflp eqv" and rn: "\<forall>j < N. rn j < 2 ^ 56"
  shows "\<exists>w'. run eqv f N st0 w' \<and> accepting N i s b q rn lg (Suc k) w'"
proof -
  obtain rs where rs: "rpc (reps w i) = P2 s b q rs" "map fst rs = [0..<k]" "list_all accepted_reply (map snd rs)"
    using ac by (auto simp: accepting_def)
  obtain r a where pa: "acc_Accept (racc (reps w k)) s b q = (r, a)" by fastforce
  have le: "promised (acc w k s) \<le> b" using ac k by (auto simp: accepting_def)
  have r: "Accepted r" using Accepted_acc_Accept [of "racc (reps w k)" s b q] pa le by simp
  have a: "acc_slot a s = (acc w k s)\<lparr>promised := b, acceptedBallot := b, acceptedValue := q\<rparr>"
    using acc_slot_Accept [of "racc (reps w k)" s b q s] pa le by simp
  define w1 where "w1 = upd w k ((reps w k)\<lparr>racc := a\<rparr>) {MAccepted k s b r}"
  define w2 where "w2 = upd w1 i ((reps w1 i)\<lparr>rpc := P2 s b q (rs @ [(k, Some r)])\<rparr>) {}"
  have "step eqv f N w w1"
    unfolding w1_def using ac by (intro step.accept [OF k(1) refl _ rel_option_reflp [OF rf] pa]) (simp add: accepting_def)
  then have r1: "run eqv f N st0 w1"
    by (rule run_step [OF run]) (use rn ac in \<open>simp add: w1_def accepting_def\<close>)
  have "k \<notin> fst ` set rs" using rs(2) by (metis atLeastLessThan_iff less_irrefl set_map set_upt)
  then have st2: "step eqv f N w1 w2"
    unfolding w2_def using rs(1) k by (intro step.gather2) (auto simp: w1_def)
  have sel: "\<And>j. rnd (reps w2 j) = rnd (reps w j) \<and> rlog (reps w2 j) = rlog (reps w j)"
      "\<And>j. promised (acc w2 j s) = (if j = k then b else promised (acc w j s))"
      "rpc (reps w2 i) = P2 s b q (rs @ [(k, Some r)])" "net w \<subseteq> net w2"
    by (auto simp: w1_def w2_def a)
  have ac2: "accepting N i s b q rn lg (Suc k) w2"
    unfolding accepting_def
  proof (intro conjI allI impI)
    show "MAccept s b q \<in> net w2" using ac sel(4) by (auto simp: accepting_def)
    show "\<exists>rs. rpc (reps w2 i) = P2 s b q rs \<and> map fst rs = [0..<Suc k] \<and> list_all accepted_reply (map snd rs)"
      using rs r by (intro exI [of _ "rs @ [(k, Some r)]"]) (simp add: sel(3) accepted_reply_def)
    fix j
    show "rnd (reps w2 j) = rn j" "rlog (reps w2 j) = lg j" using ac by (simp_all add: sel(1) accepting_def)
    show "promised (acc w2 j s) \<le> b" if "j < N" using ac that by (simp add: sel(2) accepting_def)
  qed
  have "\<forall>j < N. rnd (reps w2 j) < 2 ^ 56" using ac2 rn by (simp add: accepting_def)
  then show ?thesis using run_step [OF r1 st2] ac2 by blast
qed

lemma learning_step:
  assumes run: "run eqv f N st0 w" and le: "learning f i s q rn lg k w"
    and k: "k < N" and rf: "reflp eqv" and rn: "\<forall>j < N. rn j < 2 ^ 56"
  shows "\<exists>w'. run eqv f N st0 w' \<and> learning f i s q rn lg (Suc k) w'"
proof -
  define w1 where "w1 = upd w k ((reps w k)\<lparr>rlog := Commit f s (nil_bytes q) (rlog (reps w k))\<rparr>) {}"
  have "step eqv f N w w1"
    unfolding w1_def using le by (intro step.learn [OF k refl _ rel_option_reflp [OF rf]]) (simp add: learning_def)
  then have "run eqv f N st0 w1"
    by (rule run_step [OF run]) (use rn le in \<open>simp add: w1_def learning_def\<close>)
  moreover have "learning f i s q rn lg (Suc k) w1"
    using le by (auto simp: learning_def w1_def less_Suc_eq)
  ultimately show ?thesis by blast
qed

text \<open>Iterating a stage that can always be continued.\<close>

lemma iterate_stage:
  assumes "\<forall>k w. run eqv f N st0 w \<and> P k w \<and> k < N \<longrightarrow> (\<exists>w'. run eqv f N st0 w' \<and> P (Suc k) w')"
    and "run eqv f N st0 w" and "P 0 w"
  shows "k \<le> N \<Longrightarrow> \<exists>w'. run eqv f N st0 w' \<and> P k w'"
proof (induction k)
  case (Suc k)
  then show ?case using assms(1) by (metis Suc_leD Suc_le_lessD)
qed (use assms(2,3) in blast)

lemma promising_done:
  assumes run: "run eqv f N st0 w" and pr: "promising N i s b v rn lg N w"
    and i: "i < N" and rn: "\<forall>j < N. rn j < 2 ^ 56"
  shows "\<exists>w' q. run eqv f N st0 w' \<and> accepting N i s b q rn lg 0 w'"
proof -
  obtain rs where rs: "rpc (reps w i) = P1 s b v rs" "map fst rs = [0..<N]" "list_all promised_reply (map snd rs)"
    using pr by (auto simp: promising_def)
  have len: "length rs = N" using rs(2) by (metis length_map length_upt minus_nat.diff_0)
  have "filter promised_reply (map snd rs) = map snd rs"
    using rs(3) by (auto simp: list_all_iff intro!: filter_True)
  then have maj: "majority N \<le> promises (phase1 (map snd rs))"
    using i len unfolding promises_phase1 by (simp add: majority_def)
  define q where "q = proposal_of (phase1 (map snd rs)) v"
  define w1 where "w1 = upd w i ((reps w i)\<lparr>rpc := P2 s b q []\<rparr>) {MAccept s b q}"
  have "step eqv f N w w1"
    unfolding w1_def by (rule step.phase1_ok [OF i refl rs(1) len refl maj q_def])
  then have "run eqv f N st0 w1"
    by (rule run_step [OF run]) (use rn pr in \<open>simp add: w1_def promising_def\<close>)
  moreover have "accepting N i s b q rn lg 0 w1"
    using pr by (auto simp: accepting_def promising_def w1_def)
  ultimately show ?thesis by blast
qed

lemma accepting_done:
  assumes run: "run eqv f N st0 w" and ac: "accepting N i s b q rn lg N w"
    and i: "i < N" and rn: "\<forall>j < N. rn j < 2 ^ 56"
  shows "\<exists>w'. run eqv f N st0 w' \<and> learning f i s q rn lg 0 w'"
proof -
  obtain rs where rs: "rpc (reps w i) = P2 s b q rs" "map fst rs = [0..<N]" "list_all accepted_reply (map snd rs)"
    using ac by (auto simp: accepting_def)
  have len: "length rs = N" using rs(2) by (metis length_map length_upt minus_nat.diff_0)
  have "filter accepted_reply (map snd rs) = map snd rs"
    using rs(3) by (auto simp: list_all_iff intro!: filter_True)
  then have maj: "majority N \<le> fst (phase2 (map snd rs))"
    using i len unfolding accepts_phase2 by (simp add: majority_def)
  define w1 where "w1 = upd w i ((reps w i)\<lparr>rpc := P3 s q\<rparr>) {MLearn s q}"
  have "step eqv f N w w1"
    unfolding w1_def by (rule step.phase2_ok [OF i refl rs(1) len refl maj])
  then have "run eqv f N st0 w1"
    by (rule run_step [OF run]) (use rn ac in \<open>simp add: w1_def accepting_def\<close>)
  moreover have "learning f i s q rn lg 0 w1" using ac by (simp add: learning_def accepting_def w1_def)
  ultimately show ?thesis by blast
qed

lemma free_round_completes:
  assumes run: "run eqv f N st0 w" and rf: "reflp eqv" and i: "i < N" and idle: "rpc (reps w i) = Idle"
    and s: "s = FirstUnchosen (rlog (reps w i))" and b: "b = MakeBallot (rnd (reps w i) + 1) (word_of_nat i)"
    and rnd: "\<forall>j < N. rnd (reps w j) < 2 ^ 56" "rnd (reps w i) + 1 < 2 ^ 56"
    and top: "\<forall>j < N. promised (acc_slot (racc (reps w j)) s) < b"
  shows "\<exists>w' x. run eqv f N st0 w' \<and> (\<forall>j < N. rlog (reps w' j) = Commit f s x (rlog (reps w j)))"
proof -
  define w1 where "w1 = upd w i ((reps w i)\<lparr>rnd := rnd (reps w i) + 1, rpc := P1 s b (Some []) []\<rparr>) {MPrepare s b}"
  define rn where "rn = (\<lambda>j. rnd (reps w1 j))"
  define lg where "lg = (\<lambda>j. rlog (reps w1 j))"
  have rn: "\<forall>j < N. rn j < 2 ^ 56" using rnd by (simp add: rn_def w1_def)
  have "step eqv f N w w1" unfolding w1_def by (rule step.start [OF i refl idle refl s b])
  then have r1: "run eqv f N st0 w1" by (rule run_step [OF run]) (use rn in \<open>simp add: rn_def\<close>)
  have p1: "promising N i s b (Some []) rn lg 0 w1"
    using top by (auto simp: promising_def rn_def lg_def w1_def)
  obtain w2 where w2: "run eqv f N st0 w2" "promising N i s b (Some []) rn lg N w2"
    using iterate_stage [OF _ r1, where P = "promising N i s b (Some []) rn lg", OF _ p1 order_refl]
      promising_step [OF _ _ _ i rf rn] by meson
  from promising_done [OF w2 i rn] obtain w3 q where w3: "run eqv f N st0 w3" "accepting N i s b q rn lg 0 w3"
    by blast
  obtain w4 where w4: "run eqv f N st0 w4" "accepting N i s b q rn lg N w4"
    using iterate_stage [OF _ w3(1), where P = "accepting N i s b q rn lg", OF _ w3(2) order_refl]
      accepting_step [OF _ _ _ i rf rn] by meson
  from accepting_done [OF w4 i rn] obtain w5 where w5: "run eqv f N st0 w5" "learning f i s q rn lg 0 w5" by blast
  obtain w6 where "run eqv f N st0 w6" "learning f i s q rn lg N w6"
    using iterate_stage [OF _ w5(1), where P = "learning f i s q rn lg", OF _ w5(2) order_refl]
      learning_step [OF _ _ _ rf rn] by meson
  then show ?thesis by (auto simp: learning_def lg_def w1_def intro!: exI [of _ w6] exI [of _ "nil_bytes q"])
qed



lemma decided_run:
  "\<exists>w' x. run (=) (\<lambda>s v st. v # st) 3 [] w' \<and> (\<forall>j < 3. rlog (reps w' j) = Commit (\<lambda>s v st. v # st) 0 x (NewLog []))"
  using free_round_completes [OF run_init [of "(=)" "\<lambda>s v st. v # st" 3 "[]"], of 0 0 256]
  by (simp add: world0_def FirstUnchosen_def NewLog_def MakeBallot_def)

theorem paxos_agreement_witness:
  "\<exists>w x y. run (=) (\<lambda>s v st. v # st) 3 [] w \<and> map_of (chosen (rlog (reps w 0))) 0 = Some x \<and>
     map_of (chosen (rlog (reps w 1))) 0 = Some y \<and> x = y"
proof -
  let ?f = "\<lambda>s v st. v # st"
  obtain w x where w: "run (=) ?f 3 [] w" "\<forall>j < 3. rlog (reps w j) = Commit ?f 0 x (NewLog [])"
    using decided_run by blast
  then have m: "map_of (chosen (rlog (reps w 0))) 0 = Some x" "map_of (chosen (rlog (reps w 1))) 0 = Some x"
    by (simp_all add: chosen_Commit NewLog_def)
  show ?thesis using paxos_agreement [OF w(1) identity_equivp _ _ _ m] w(1) m by auto
qed

theorem replicas_same_history_witness:
  "\<exists>w. run (=) (\<lambda>s v st. v # st) 3 [] w \<and> Applied (rlog (reps w 0)) = 1 \<and>
     smst (rlog (reps w 0)) = smst (rlog (reps w 1))"
proof -
  let ?f = "\<lambda>s v st. v # st"
  obtain w x where w: "run (=) ?f 3 [] w" "\<forall>j < 3. rlog (reps w j) = Commit ?f 0 x (NewLog [])"
    using decided_run by blast
  then have l: "rlog (reps w 0) = Commit ?f 0 x (NewLog [])" "rlog (reps w 1) = Commit ?f 0 x (NewLog [])" by simp_all
  have a: "Applied (Commit ?f 0 x (NewLog [])) = 1" "length (chosen (Commit ?f 0 x (NewLog []))) = 1"
    by (simp_all add: Commit_def NewLog_def Applied_def)
  have "smst (rlog (reps w 1)) = smst (rlog (reps w 0))"
    using replicas_same_history [OF w(1) identity_equivp, of 0 1] a unfolding l by simp
  then show ?thesis using w(1) a l by (intro exI [of _ w]) simp
qed

end
