(* ===== verification/DirectoryState.thy ===== *)
theory DirectoryState
  imports Messages Hashring PaxosSafety
begin

text \<open>
  The directory's replicated state machine, \<^verbatim>\<open>internal/directory/state.go\<close>: the membership and its
  epoch, the watchers' signal channels (capacity one, so a channel is whether a signal is pending),
  and the hook a join runs. \<open>apply_cmd\<close> is the switch of \<open>Apply\<close>; it is what replicas agree on, the
  watchers are local to a replica.
\<close>

record dirstate =
  epoch :: u64
  members :: "(string \<times> NodeInfo) list"

record StateMachine =
  core :: dirstate
  watch :: "(nat \<times> bool) list"
  nextCh :: nat

definition dir0 :: dirstate where
  "dir0 = \<lparr>epoch = 0, members = []\<rparr>"

definition NewStateMachine :: StateMachine where
  "NewStateMachine = \<lparr>core = dir0, watch = [], nextCh = 0\<rparr>"

text \<open>One command: the new membership, whether it changed, and the member the join hook is run for.\<close>

definition apply_switch ::
    "ClusterCommand \<Rightarrow> (string \<times> NodeInfo) list \<Rightarrow> (string \<times> NodeInfo) list \<times> bool \<times> string option" where
  "apply_switch cmd ms =
     (case cmd of
        Some (CmdNodeJoin n) \<Rightarrow>
          (case map_of ms (NodeId n) of
             Some prev \<Rightarrow>
               if Addr prev \<noteq> Addr n then (AList.update (NodeId n) n ms, True, Some (NodeId n)) else (ms, False, None)
           | None \<Rightarrow> (AList.update (NodeId n) n ms, True, Some (NodeId n)))
      | Some (CmdNodeLeave i) \<Rightarrow>
          (case map_of ms i of Some _ \<Rightarrow> (AList.delete i ms, True, None) | None \<Rightarrow> (ms, False, None))
      | Some (CmdNodeDead i) \<Rightarrow>
          (case map_of ms i of Some _ \<Rightarrow> (AList.delete i ms, True, None) | None \<Rightarrow> (ms, False, None))
      | _ \<Rightarrow> (ms, False, None))"

definition apply_cmd :: "ClusterCommand \<Rightarrow> dirstate \<Rightarrow> dirstate \<times> bool \<times> string option" where
  "apply_cmd cmd d =
     (let (ms, changed, joined) = apply_switch cmd (members d)
      in (d\<lparr>epoch := (if changed then epoch d + 1 else epoch d), members := ms\<rparr>, changed, joined))"

definition Apply :: "codec \<Rightarrow> slot \<Rightarrow> bytes \<Rightarrow> StateMachine \<Rightarrow> StateMachine \<times> string option" where
  "Apply cod s raw sm =
     (case Unmarshal cod raw of
        None \<Rightarrow> (sm, None)
      | Some cmd \<Rightarrow>
          let (d, changed, joined) = apply_cmd cmd (core sm)
          in (sm\<lparr>core := d, watch := (if changed then map (\<lambda>(ch, _). (ch, True)) (watch sm) else watch sm)\<rparr>, joined))"

definition Ring :: "StateMachine \<Rightarrow> RingMsg" where
  "Ring sm = \<lparr>REpoch = epoch (core sm), RNodes = map snd (members (core sm)), VnodesPerNode = of_nat DefaultVNodes\<rparr>"

definition HasMember :: "StateMachine \<Rightarrow> string \<Rightarrow> bool" where
  "HasMember sm i \<longleftrightarrow> map_of (members (core sm)) i \<noteq> None"

definition Members :: "StateMachine \<Rightarrow> string list" where
  "Members sm = map fst (members (core sm))"

definition Subscribe :: "StateMachine \<Rightarrow> nat \<times> StateMachine" where
  "Subscribe sm = (nextCh sm, sm\<lparr>watch := (nextCh sm, False) # watch sm, nextCh := Suc (nextCh sm)\<rparr>)"

definition Unsubscribe :: "nat \<Rightarrow> StateMachine \<Rightarrow> StateMachine" where
  "Unsubscribe ch sm = sm\<lparr>watch := AList.delete ch (watch sm)\<rparr>"

subsection \<open>The membership refines a map of addresses\<close>

text \<open>
  What a directory promises: a partial map from node ids to addresses. Joining sets an address,
  leaving and being declared dead clear it, everything else leaves the map alone, and the epoch
  counts the changes.
\<close>

definition addrs_of :: "dirstate \<Rightarrow> string \<rightharpoonup> string" where
  "addrs_of d = map_option Addr \<circ> map_of (members d)"

fun spec_cmd :: "ClusterCommand \<Rightarrow> (string \<rightharpoonup> string) \<Rightarrow> (string \<rightharpoonup> string)" where
  "spec_cmd (Some (CmdNodeJoin n)) m = m(NodeId n \<mapsto> Addr n)"
| "spec_cmd (Some (CmdNodeLeave i)) m = m(i := None)"
| "spec_cmd (Some (CmdNodeDead i)) m = m(i := None)"
| "spec_cmd _ m = m"

definition members_wf :: "(string \<times> NodeInfo) list \<Rightarrow> bool" where
  "members_wf ms \<longleftrightarrow> distinct (map fst ms) \<and> (\<forall>(i, n) \<in> set ms. NodeId n = i)"

definition dir_wf :: "dirstate \<Rightarrow> bool" where
  "dir_wf d \<longleftrightarrow> members_wf (members d)"

lemma dir_wf_dir0: "dir_wf dir0"
  by (simp add: dir_wf_def members_wf_def dir0_def)

lemma set_update_subset: "set (AList.update k v m) \<subseteq> insert (k, v) (set m)"
  by (induction m) auto

lemma set_delete_subset: "set (AList.delete k m) \<subseteq> set m"
  by (auto simp: AList.delete_eq)

lemma members_wf_update: "members_wf ms \<Longrightarrow> members_wf (AList.update (NodeId n) n ms)"
  using set_update_subset [of "NodeId n" n ms] by (auto simp: members_wf_def distinct_update)

lemma members_wf_delete: "members_wf ms \<Longrightarrow> members_wf (AList.delete i ms)"
  using set_delete_subset [of i ms] by (auto simp: members_wf_def distinct_delete)

text \<open>The cases of the switch, by whether the command takes effect.\<close>

lemma apply_switch_cases:
  "apply_switch cmd ms = (ms, False, None) \<and> spec_cmd cmd (map_option Addr \<circ> map_of ms) = map_option Addr \<circ> map_of ms \<or>
   (\<exists>n. cmd = Some (CmdNodeJoin n) \<and> map_option Addr (map_of ms (NodeId n)) \<noteq> Some (Addr n) \<and>
      apply_switch cmd ms = (AList.update (NodeId n) n ms, True, Some (NodeId n))) \<or>
   (\<exists>i. (cmd = Some (CmdNodeLeave i) \<or> cmd = Some (CmdNodeDead i)) \<and> map_of ms i \<noteq> None \<and>
      apply_switch cmd ms = (AList.delete i ms, True, None))"
proof (cases cmd)
  case (Some c)
  then show ?thesis
    by (cases c) (auto simp: apply_switch_def fun_eq_iff split: option.split)
qed (simp add: apply_switch_def)

lemma dir_wf_apply_cmd: "dir_wf d \<Longrightarrow> dir_wf (fst (apply_cmd cmd d))"
  using apply_switch_cases [of cmd "members d"]
  by (auto simp: dir_wf_def apply_cmd_def members_wf_update members_wf_delete)

lemma apply_cmd_refines:
  "addrs_of (fst (apply_cmd cmd d)) = spec_cmd cmd (addrs_of d)"
  "epoch (fst (apply_cmd cmd d)) = epoch d + (if spec_cmd cmd (addrs_of d) = addrs_of d then 0 else 1)"
  "fst (snd (apply_cmd cmd d)) \<longleftrightarrow> spec_cmd cmd (addrs_of d) \<noteq> addrs_of d"
  "spec_cmd cmd (addrs_of d) = addrs_of d \<Longrightarrow> fst (apply_cmd cmd d) = d"
proof -
  consider (none) "apply_switch cmd (members d) = (members d, False, None)" "spec_cmd cmd (addrs_of d) = addrs_of d"
    | (join) n where "cmd = Some (CmdNodeJoin n)" "addrs_of d (NodeId n) \<noteq> Some (Addr n)"
        "apply_switch cmd (members d) = (AList.update (NodeId n) n (members d), True, Some (NodeId n))"
    | (leave) i where "cmd = Some (CmdNodeLeave i) \<or> cmd = Some (CmdNodeDead i)" "addrs_of d i \<noteq> None"
        "apply_switch cmd (members d) = (AList.delete i (members d), True, None)"
    using apply_switch_cases [of cmd "members d"] by (auto simp: addrs_of_def)
  then have "addrs_of (fst (apply_cmd cmd d)) = spec_cmd cmd (addrs_of d) \<and>
    epoch (fst (apply_cmd cmd d)) = epoch d + (if spec_cmd cmd (addrs_of d) = addrs_of d then 0 else 1) \<and>
    (fst (snd (apply_cmd cmd d)) \<longleftrightarrow> spec_cmd cmd (addrs_of d) \<noteq> addrs_of d) \<and>
    (spec_cmd cmd (addrs_of d) = addrs_of d \<longrightarrow> fst (apply_cmd cmd d) = d)"
  proof cases
    case none
    then show ?thesis by (simp add: apply_cmd_def addrs_of_def)
  next
    case join
    have "addrs_of d \<noteq> (addrs_of d)(NodeId n \<mapsto> Addr n)" using join(2) by (metis fun_upd_same)
    moreover have "addrs_of (fst (apply_cmd cmd d)) = (addrs_of d)(NodeId n \<mapsto> Addr n)"
      by (simp add: join(3) apply_cmd_def addrs_of_def map_of_update fun_eq_iff)
    ultimately show ?thesis using join(1,3) by (auto simp: apply_cmd_def)
  next
    case leave
    have "addrs_of d \<noteq> (addrs_of d)(i := None)" using leave(2) by (metis fun_upd_same)
    moreover have "addrs_of (fst (apply_cmd cmd d)) = (addrs_of d)(i := None)"
      by (simp add: leave(3) apply_cmd_def addrs_of_def map_of_delete fun_eq_iff)
    ultimately show ?thesis using leave(1,3) by (auto simp: apply_cmd_def)
  qed
  then show "addrs_of (fst (apply_cmd cmd d)) = spec_cmd cmd (addrs_of d)"
    "epoch (fst (apply_cmd cmd d)) = epoch d + (if spec_cmd cmd (addrs_of d) = addrs_of d then 0 else 1)"
    "fst (snd (apply_cmd cmd d)) \<longleftrightarrow> spec_cmd cmd (addrs_of d) \<noteq> addrs_of d"
    "spec_cmd cmd (addrs_of d) = addrs_of d \<Longrightarrow> fst (apply_cmd cmd d) = d"
    by auto
qed

subsection \<open>The replicated directory\<close>

text \<open>The callback of the Paxos log, on the part of the state the replicas share.\<close>

definition dir_fn :: "codec \<Rightarrow> dirstate apply_fn" where
  "dir_fn cod s raw d = (case Unmarshal cod raw of None \<Rightarrow> d | Some cmd \<Rightarrow> fst (apply_cmd cmd d))"

definition wire_eq :: "codec \<Rightarrow> bytes \<Rightarrow> bytes \<Rightarrow> bool" where
  "wire_eq cod a b \<longleftrightarrow> Unmarshal cod a = Unmarshal cod b"

lemma core_Apply: "core (fst (Apply cod s raw sm)) = dir_fn cod s raw (core sm)"
  by (simp add: Apply_def dir_fn_def case_prod_beta split: option.split)

lemma equivp_wire_eq: "equivp (wire_eq cod)"
  by (auto simp: equivp_def wire_eq_def fun_eq_iff)

lemma dir_fn_wire_eq: "wire_eq cod x y \<Longrightarrow> dir_fn cod s x = dir_fn cod s y"
  by (simp add: wire_eq_def dir_fn_def fun_eq_iff)

lemma dir_fn_epoch:
  "epoch (dir_fn cod s raw d) = epoch d \<and> dir_fn cod s raw d = d \<or> epoch (dir_fn cod s raw d) = epoch d + 1"
  using apply_cmd_refines(2,4) by (auto simp: dir_fn_def split: option.split)

lemma dir_wf_dir_fn: "dir_wf d \<Longrightarrow> dir_wf (dir_fn cod s raw d)"
  by (simp add: dir_fn_def dir_wf_apply_cmd split: option.split)

lemma fold_dir_epoch:
  "\<exists>n \<le> length ks. epoch (fold (\<lambda>k. dir_fn cod (g k) (h k)) ks d) = epoch d + of_nat n \<and>
     (n = 0 \<longrightarrow> fold (\<lambda>k. dir_fn cod (g k) (h k)) ks d = d)"
proof (induction ks arbitrary: d)
  case (Cons k ks)
  let ?d = "dir_fn cod (g k) (h k) d"
  obtain n where n: "n \<le> length ks" "epoch (fold (\<lambda>k. dir_fn cod (g k) (h k)) ks ?d) = epoch ?d + of_nat n"
      "n = 0 \<longrightarrow> fold (\<lambda>k. dir_fn cod (g k) (h k)) ks ?d = ?d"
    using Cons.IH by blast
  show ?case
  proof (cases "epoch ?d = epoch d \<and> ?d = d")
    case True
    then show ?thesis using n by (intro exI [of _ n]) auto
  next
    case False
    then have "epoch ?d = epoch d + 1" using dir_fn_epoch [of cod "g k" "h k" d] by blast
    then show ?thesis using n by (intro exI [of _ "Suc n"]) (simp add: ac_simps)
  qed
qed simp

lemma fold_dir_same_epoch:
  assumes "length ks < 2 ^ 64" and "epoch (fold (\<lambda>k. dir_fn cod (g k) (h k)) ks d) = epoch d"
  shows "fold (\<lambda>k. dir_fn cod (g k) (h k)) ks d = d"
proof -
  obtain n where n: "n \<le> length ks" "epoch (fold (\<lambda>k. dir_fn cod (g k) (h k)) ks d) = epoch d + of_nat n"
      "n = 0 \<longrightarrow> fold (\<lambda>k. dir_fn cod (g k) (h k)) ks d = d"
    using fold_dir_epoch by blast
  then have "(of_nat n :: u64) = 0" using assms(2) by simp
  moreover have "unat (of_nat n :: u64) = n"
    using n(1) assms(1) by (simp add: unsigned_of_nat take_bit_nat_eq_self)
  ultimately have "n = 0" by simp
  then show ?thesis using n(3) by blast
qed

text \<open>
  C4: the state machine implements a map of addresses. Every command acts on the membership as the
  specification acts on the map from node ids to addresses (join sets, leave and dead clear, anything
  else does nothing), and the epoch advances by one exactly when the map changes: a repeated join or a
  second removal changes neither. Well-formedness (one entry per node, filed under its own id) is kept.
\<close>

theorem Apply_refines_address_map:
  assumes "dir_wf (core sm)" and "Unmarshal cod raw = Some cmd"
  shows "let sm' = fst (Apply cod s raw sm) in
    addrs_of (core sm') = spec_cmd cmd (addrs_of (core sm)) \<and>
    epoch (core sm') = epoch (core sm) + (if addrs_of (core sm') = addrs_of (core sm) then 0 else 1) \<and>
    dir_wf (core sm')"
  using assms apply_cmd_refines(1,2) [of cmd "core sm"] dir_wf_apply_cmd [of "core sm" cmd]
  by (simp add: Let_def core_Apply dir_fn_def)

text \<open>A codec for three commands, to evaluate the definitions with.\<close>

definition demo_node :: NodeInfo where
  "demo_node = \<lparr>NodeId = ''n1'', Addr = ''h:1'', CapacityBytes = 0\<rparr>"

definition demo_codec :: codec where
  "demo_codec =
     \<lparr>Marshal = map_of [(Some (CmdNodeJoin demo_node), [1]), (Some (CmdNodeLeave ''n1''), [2]),
                        (Some (CmdNodeDead ''n1''), [3]), (Some (CmdNoop True), [4])],
      Unmarshal = map_of [([1], Some (CmdNodeJoin demo_node)), ([2], Some (CmdNodeLeave ''n1'')),
                          ([3], Some (CmdNodeDead ''n1'')), ([4], Some (CmdNoop True))]\<rparr>"

lemma codec_ok_demo: "codec_ok demo_codec"
  by (auto simp: codec_ok_def demo_codec_def split: if_splits)

theorem Apply_refines_address_map_witness:
  "addrs_of (core (fst (Apply demo_codec 0 [1] NewStateMachine))) = Map.empty(''n1'' \<mapsto> ''h:1'') \<and>
   epoch (core (fst (Apply demo_codec 0 [1] NewStateMachine))) = 1"
proof -
  have "Unmarshal demo_codec [1] = Some (Some (CmdNodeJoin demo_node))" by (simp add: demo_codec_def)
  moreover have "dir_wf (core NewStateMachine)" by (simp add: NewStateMachine_def dir_wf_dir0)
  moreover have "addrs_of (core NewStateMachine) = Map.empty" by (simp add: NewStateMachine_def dir0_def addrs_of_def fun_eq_iff)
  moreover have "epoch (core NewStateMachine) = 0" by (simp add: NewStateMachine_def dir0_def)
  ultimately show ?thesis
    using Apply_refines_address_map [of NewStateMachine demo_codec "[1]" "Some (CmdNodeJoin demo_node)" 0]
    by (simp add: Let_def demo_node_def)
qed

subsection \<open>Watchers\<close>

text \<open>
  \<^verbatim>\<open>WatchRing\<close> of \<^verbatim>\<open>server.go\<close>: a watcher subscribes, sends the current ring, and from then on waits
  for a signal and sends again. Commands are applied between any two of its steps. Its position
  is whether it is about to send or waits; \<open>lastSent\<close> is the epoch it sent last.
\<close>

definition watch_send :: "u64 \<Rightarrow> RingMsg \<Rightarrow> u64 \<times> RingMsg option" where
  "watch_send lastSent ring =
     (if REpoch ring = lastSent \<and> lastSent \<noteq> 0 then (lastSent, None) else (REpoch ring, Some ring))"

record watcher =
  sig :: nat
  waiting :: bool
  lastSent :: u64
  sent :: "RingMsg list"

record watch_world =
  wsm :: StateMachine
  watchers :: "watcher list"

definition pending :: "StateMachine \<Rightarrow> nat \<Rightarrow> bool" where
  "pending sm ch \<longleftrightarrow> map_of (watch sm) ch = Some True"

inductive watch_step :: "codec \<Rightarrow> watch_world \<Rightarrow> watch_world \<Rightarrow> bool" for cod where
  apply_one:
    "watch_step cod w (w\<lparr>wsm := fst (Apply cod s raw (wsm w))\<rparr>)"
| subscribe:
    "Subscribe (wsm w) = (ch, sm) \<Longrightarrow>
     watch_step cod w \<lparr>wsm = sm, watchers = watchers w @ [\<lparr>sig = ch, waiting = False, lastSent = 0, sent = []\<rparr>]\<rparr>"
| send_ring:
    "\<lbrakk>i < length (watchers w); x = watchers w ! i; \<not> waiting x;
      watch_send (lastSent x) (Ring (wsm w)) = (e, out)\<rbrakk> \<Longrightarrow>
     watch_step cod w (w\<lparr>watchers := (watchers w)[i := x\<lparr>waiting := True, lastSent := e,
        sent := sent x @ (case out of None \<Rightarrow> [] | Some r \<Rightarrow> [r])\<rparr>]\<rparr>)"
| receive:
    "\<lbrakk>i < length (watchers w); x = watchers w ! i; waiting x; pending (wsm w) (sig x)\<rbrakk> \<Longrightarrow>
     watch_step cod w \<lparr>wsm = (wsm w)\<lparr>watch := AList.update (sig x) False (watch (wsm w))\<rparr>,
        watchers = (watchers w)[i := x\<lparr>waiting := False\<rparr>]\<rparr>"

definition watch_world0 :: watch_world where
  "watch_world0 = \<lparr>wsm = NewStateMachine, watchers = []\<rparr>"

text \<open>Runs in which the epoch does not wrap around.\<close>

inductive watch_run :: "codec \<Rightarrow> watch_world \<Rightarrow> bool" for cod where
  watch_init: "watch_run cod watch_world0"
| watch_more:
    "\<lbrakk>watch_run cod w; watch_step cod w w'; epoch (core (wsm w)) \<le> epoch (core (wsm w'))\<rbrakk> \<Longrightarrow> watch_run cod w'"

definition watcher_ok :: "StateMachine \<Rightarrow> watcher \<Rightarrow> bool" where
  "watcher_ok sm x \<longleftrightarrow>
     sig x < nextCh sm \<and> map_of (watch sm) (sig x) \<noteq> None \<and>
     (sent x = [] \<longrightarrow> lastSent x = 0 \<and> \<not> waiting x) \<and>
     (sent x \<noteq> [] \<longrightarrow> REpoch (last (sent x)) = lastSent x \<and> lastSent x \<le> epoch (core sm) \<and>
        (lastSent x = epoch (core sm) \<longrightarrow> last (sent x) = Ring sm)) \<and>
     (sent x \<noteq> [] \<and> \<not> waiting x \<longrightarrow> epoch (core sm) \<noteq> 0) \<and>
     (waiting x \<longrightarrow> pending sm (sig x) \<or> lastSent x = epoch (core sm)) \<and>
     sorted_wrt (<) (map REpoch (sent x))"

definition watch_inv :: "watch_world \<Rightarrow> bool" where
  "watch_inv w \<longleftrightarrow>
     distinct (map sig (watchers w)) \<and> (\<forall>x \<in> set (watchers w). watcher_ok (wsm w) x) \<and>
     (\<forall>ch. pending (wsm w) ch \<longrightarrow> epoch (core (wsm w)) \<noteq> 0)"

lemma map_of_signal_all: "map_of (map (\<lambda>(ch, _). (ch, True)) m) = (\<lambda>ch. map_option (\<lambda>_. True) (map_of m ch))"
  by (induction m) (auto simp: fun_eq_iff)

lemma Apply_cases:
  "core (fst (Apply cod s raw sm)) = core sm \<and> watch (fst (Apply cod s raw sm)) = watch sm \<or>
   epoch (core (fst (Apply cod s raw sm))) = epoch (core sm) + 1 \<and>
   watch (fst (Apply cod s raw sm)) = map (\<lambda>(ch, _). (ch, True)) (watch sm)"
  using apply_cmd_refines(2-4) [of _ "core sm"]
  by (auto simp: Apply_def case_prod_beta split: option.split)

lemma nextCh_Apply: "nextCh (fst (Apply cod s raw sm)) = nextCh sm"
  by (simp add: Apply_def case_prod_beta split: option.split)

lemma Ring_cong: "core sm = core sm' \<Longrightarrow> Ring sm = Ring sm'"
  by (simp add: Ring_def)

lemma watcher_ok_cong:
  assumes "watcher_ok sm x" and "core sm' = core sm" and "nextCh sm \<le> nextCh sm'"
    and "map_of (watch sm') (sig x) = map_of (watch sm) (sig x)"
  shows "watcher_ok sm' x"
  using assms Ring_cong [OF assms(2)] unfolding watcher_ok_def pending_def by simp

lemma watch_inv_apply:
  assumes inv: "watch_inv w" and le: "epoch (core (wsm w)) \<le> epoch (core (fst (Apply cod s raw (wsm w))))"
  shows "watch_inv (w\<lparr>wsm := fst (Apply cod s raw (wsm w))\<rparr>)"
proof -
  let ?sm = "fst (Apply cod s raw (wsm w))"
  consider (same) "core ?sm = core (wsm w)" "watch ?sm = watch (wsm w)"
    | (changed) "epoch (core ?sm) = epoch (core (wsm w)) + 1"
        "watch ?sm = map (\<lambda>(ch, _). (ch, True)) (watch (wsm w))"
    using Apply_cases by blast
  then show ?thesis
  proof cases
    case same
    then show ?thesis
      using inv watcher_ok_cong [of "wsm w" _ ?sm] by (auto simp: watch_inv_def pending_def nextCh_Apply)
  next
    case changed
    have ne: "epoch (core (wsm w)) \<noteq> epoch (core ?sm)" using changed(1) by simp
    then have lt: "epoch (core (wsm w)) < epoch (core ?sm)" using le by simp
    then have nz: "epoch (core ?sm) \<noteq> 0" by auto
    have "watcher_ok ?sm x" if "watcher_ok (wsm w) x" for x
      using that lt nz unfolding watcher_ok_def pending_def nextCh_Apply changed(2) map_of_signal_all by auto
    then show ?thesis using inv nz by (auto simp: watch_inv_def)
  qed
qed

lemma watch_inv_subscribe:
  assumes inv: "watch_inv w" and sub: "Subscribe (wsm w) = (ch, sm)"
  shows "watch_inv \<lparr>wsm = sm, watchers = watchers w @ [\<lparr>sig = ch, waiting = False, lastSent = 0, sent = []\<rparr>]\<rparr>"
proof -
  have sm: "ch = nextCh (wsm w)" "core sm = core (wsm w)" "nextCh sm = Suc ch"
      "watch sm = (ch, False) # watch (wsm w)"
    using sub by (auto simp: Subscribe_def)
  have old: "sig x < ch" "watcher_ok sm x" if "x \<in> set (watchers w)" for x
  proof -
    have ok: "watcher_ok (wsm w) x" using inv that by (simp add: watch_inv_def)
    then show "sig x < ch" by (simp add: watcher_ok_def sm(1))
    then show "watcher_ok sm x" using watcher_ok_cong [OF ok, of sm] by (simp add: sm(2-4)) (simp add: sm(1))
  qed
  have "watcher_ok sm \<lparr>sig = ch, waiting = False, lastSent = 0, sent = []\<rparr>"
    by (simp add: watcher_ok_def sm)
  moreover have "epoch (core sm) \<noteq> 0" if "pending sm c" for c
    using that inv by (auto simp: watch_inv_def pending_def sm(2,4) split: if_splits)
  ultimately show ?thesis
    using inv old by (fastforce simp: watch_inv_def)
qed

lemma watch_inv_upd:
  assumes inv: "watch_inv w" and i: "i < length (watchers w)" and s: "sig y = sig (watchers w ! i)"
    and y: "watcher_ok sm y"
    and others: "\<And>x. x \<in> set (watchers w) \<Longrightarrow> sig x \<noteq> sig y \<Longrightarrow> watcher_ok sm x"
    and pend: "\<And>ch. pending sm ch \<Longrightarrow> epoch (core sm) \<noteq> 0"
  shows "watch_inv \<lparr>wsm = sm, watchers = (watchers w)[i := y]\<rparr>"
proof -
  have d: "distinct (map sig (watchers w))" using inv by (simp add: watch_inv_def)
  have "map sig ((watchers w)[i := y]) = map sig (watchers w)"
    using i s by (simp add: map_update list_update_same_conv)
  moreover have "watcher_ok sm x" if x: "x \<in> set ((watchers w)[i := y])" for x
  proof -
    obtain k where k: "k < length (watchers w)" "x = (watchers w)[i := y] ! k"
      using x by (auto simp: in_set_conv_nth)
    show ?thesis
    proof (cases "k = i")
      case False
      then have "sig (watchers w ! k) \<noteq> sig (watchers w ! i)"
        using d k i by (simp add: distinct_conv_nth)
      then show ?thesis using others [of x] k False s by simp
    qed (use k i y in simp)
  qed
  ultimately show ?thesis using d pend by (simp add: watch_inv_def)
qed

lemma watcher_ok_send:
  assumes ok: "watcher_ok sm x" and nw: "\<not> waiting x" and out: "watch_send (lastSent x) (Ring sm) = (e, out)"
  shows "watcher_ok sm (x\<lparr>waiting := True, lastSent := e, sent := sent x @ (case out of None \<Rightarrow> [] | Some r \<Rightarrow> [r])\<rparr>)"
proof (cases "epoch (core sm) = lastSent x \<and> lastSent x \<noteq> 0")
  case True
  then have "e = lastSent x" "out = None" using out by (simp_all add: watch_send_def Ring_def)
  then show ?thesis using ok True by (auto simp: watcher_ok_def)
next
  case False
  then have e: "e = epoch (core sm)" "out = Some (Ring sm)"
    using out by (auto simp: watch_send_def Ring_def split: if_splits)
  have "REpoch r < epoch (core sm)" if r: "r \<in> set (sent x)" for r
  proof -
    have "sent x \<noteq> []" using r by auto
    then have "lastSent x \<le> epoch (core sm)" "lastSent x \<noteq> epoch (core sm)"
      using ok nw False by (auto simp: watcher_ok_def)
    then have "lastSent x < epoch (core sm)" by simp
    moreover have "REpoch r \<le> REpoch (last (sent x))"
      using ok r by (cases "sent x" rule: rev_cases) (auto simp: watcher_ok_def sorted_wrt_append less_imp_le)
    ultimately show ?thesis using ok \<open>sent x \<noteq> []\<close> by (auto simp: watcher_ok_def)
  qed
  then show ?thesis using ok e by (auto simp: watcher_ok_def sorted_wrt_append Ring_def)
qed

lemma watch_inv_run: "watch_run cod w \<Longrightarrow> watch_inv w"
proof (induction rule: watch_run.induct)
  case watch_init
  then show ?case by (simp add: watch_inv_def watch_world0_def NewStateMachine_def pending_def)
next
  case (watch_more w w')
  note inv = watch_more.IH
  from watch_more.hyps(2) show ?case
  proof cases
    case (apply_one s raw)
    then show ?thesis using watch_inv_apply [OF inv] watch_more.hyps(3) by simp
  next
    case (subscribe ch sm)
    then show ?thesis using watch_inv_subscribe [OF inv] by simp
  next
    case (send_ring i x e out)
    have ok: "watcher_ok (wsm w) x" using inv send_ring by (simp add: watch_inv_def)
    have "w' = \<lparr>wsm = wsm w, watchers = (watchers w)[i := x\<lparr>waiting := True, lastSent := e,
        sent := sent x @ (case out of None \<Rightarrow> [] | Some r \<Rightarrow> [r])\<rparr>]\<rparr>" using send_ring(1) by simp
    then show ?thesis
      using inv send_ring watcher_ok_send [OF ok send_ring(4,5)]
      by (simp only:) (rule watch_inv_upd [OF inv send_ring(2)], auto simp: watch_inv_def)
  next
    case (receive i x)
    let ?sm = "(wsm w)\<lparr>watch := AList.update (sig x) False (watch (wsm w))\<rparr>"
    have ok: "watcher_ok (wsm w) x" using inv receive by (simp add: watch_inv_def)
    have nz: "epoch (core (wsm w)) \<noteq> 0" using inv receive(5) by (auto simp: watch_inv_def)
    have "watcher_ok ?sm (x\<lparr>waiting := False\<rparr>)"
      using ok nz Ring_cong [of ?sm "wsm w"] by (auto simp: watcher_ok_def map_of_update)
    moreover have "watcher_ok ?sm y" if "y \<in> set (watchers w)" "sig y \<noteq> sig x" for y
      using inv that watcher_ok_cong [of "wsm w" y ?sm] by (auto simp: watch_inv_def map_of_update)
    ultimately show ?thesis
      unfolding receive(1) using receive(3) nz by (intro watch_inv_upd [OF inv receive(2)]) auto
  qed
qed



end
