(* ===== verification/DirectoryServer.thy ===== *)
theory DirectoryServer
  imports DirectoryState
begin

text \<open>
  A directory replica: the gRPC handlers and the Paxos transport (\<^verbatim>\<open>internal/directory/server.go\<close>),
  the heartbeat tracker and the failure detector (\<^verbatim>\<open>monitor.go\<close>) and the metrics view
  (\<^verbatim>\<open>collector.go\<close>). Times are nanoseconds; the clock's reading is an argument of the handlers that
  take one. What a call to a peer returns is an argument too, \<open>None\<close> being any error; dialling an
  address (\<^verbatim>\<open>grpc.NewClient\<close>) is the parameter \<open>dial\<close>. The log's state is the state machine with the
  heartbeat tracker its join hook seeds.
\<close>

subsection \<open>Heartbeats\<close>

record dirconfig =
  ReplicaID :: string
  Peers :: "(string \<times> string) list"
  HeartbeatEvery :: int
  DeadAfter :: int

definition cfg_defaults :: "dirconfig \<Rightarrow> dirconfig" where
  "cfg_defaults c =
     (let c1 = (if HeartbeatEvery c = 0 then c\<lparr>HeartbeatEvery := 500 * 10 ^ 6\<rparr> else c)
      in if DeadAfter c1 = 0 then c1\<lparr>DeadAfter := 3 * HeartbeatEvery c1\<rparr> else c1)"

record hbTracker =
  hbcfg :: dirconfig
  las :: "(string \<times> int) list"

definition newHBTracker :: "dirconfig \<Rightarrow> hbTracker" where
  "newHBTracker c = \<lparr>hbcfg = c, las = []\<rparr>"

definition hb_record :: "string \<Rightarrow> int \<Rightarrow> hbTracker \<Rightarrow> hbTracker" where
  "hb_record i now h = h\<lparr>las := AList.update i now (las h)\<rparr>"

definition hb_seed :: "string \<Rightarrow> int \<Rightarrow> hbTracker \<Rightarrow> hbTracker" where
  "hb_seed i now h = hb_record i now h"

definition hb_expired :: "hbTracker \<Rightarrow> string \<Rightarrow> int \<Rightarrow> bool" where
  "hb_expired h i now =
     (case map_of (las h) i of None \<Rightarrow> False | Some seen \<Rightarrow> now - seen > DeadAfter (hbcfg h))"

subsection \<open>The replica\<close>

record 'c grpcTransport =
  tself :: string
  tpeers :: "(string \<times> string) list"
  clients :: "(string \<times> 'c) list"

type_synonym dirlog = "StateMachine \<times> hbTracker"

record 'c Server =
  snode :: "dirlog node"
  tr :: "'c grpcTransport"

definition dir_apply :: "codec \<Rightarrow> int \<Rightarrow> dirlog apply_fn" where
  "dir_apply cod now s raw st =
     (let (sm, joined) = Apply cod s raw (fst st)
      in (sm, case joined of None \<Rightarrow> snd st | Some i \<Rightarrow> hb_seed i now (snd st)))"

abbreviation ssm :: "'c Server \<Rightarrow> StateMachine" where
  "ssm s \<equiv> fst (smst (nLog (snode s)))"

abbreviation shb :: "'c Server \<Rightarrow> hbTracker" where
  "shb s \<equiv> snd (smst (nLog (snode s)))"

definition commandsEqual :: "codec \<Rightarrow> pvalue \<Rightarrow> pvalue \<Rightarrow> bool" where
  "commandsEqual cod a b =
     (case (Unmarshal cod (nil_bytes a), Unmarshal cod (nil_bytes b)) of
        (Some ca, Some cb) \<Rightarrow> ca = cb
      | _ \<Rightarrow> False)"

text \<open>\<open>NewServer\<close> is \<^verbatim>\<open>New\<close>; \<open>None\<close> is a panic, \<open>Inl\<close> an error.\<close>

definition NewServer :: "codec \<Rightarrow> dirconfig \<Rightarrow> (unit + 'c Server) option" where
  "NewServer cod cfg0 =
     (let cfg = cfg_defaults cfg0;
          lg = NewLog (NewStateMachine, newHBTracker cfg);
          replicas = ReplicaID cfg # map fst (Peers cfg)
      in case Marshal cod (Some (CmdNoop True)) of
           None \<Rightarrow> Some (Inl ())
         | Some noop \<Rightarrow>
             (case NewNode \<lparr>Self = ReplicaID cfg, Replicas = replicas, EqualFn = Some (commandsEqual cod),
                            RPCTimeout = 0, Noop = Some noop\<rparr> lg of
                None \<Rightarrow> None
              | Some nd \<Rightarrow>
                  Some (Inr \<lparr>snode = nd, tr = \<lparr>tself = ReplicaID cfg, tpeers = Peers cfg, clients = []\<rparr>\<rparr>)))"

datatype submit_err = ErrMarshal | ErrPaxos perr

definition submit ::
    "codec \<Rightarrow> int \<Rightarrow> (nat \<Rightarrow> attempt) \<Rightarrow> ClusterCommand \<Rightarrow> 'c Server \<Rightarrow> (submit_err + unit) \<times> 'c Server" where
  "submit cod now env cmd s =
     (case Marshal cod cmd of
        None \<Rightarrow> (Inl ErrMarshal, s)
      | Some raw \<Rightarrow>
          (case Submit (dir_apply cod now) env (Some raw) (snode s) of
             (Inl e, nd) \<Rightarrow> (Inl (ErrPaxos e), s\<lparr>snode := nd\<rparr>)
           | (Inr _, nd) \<Rightarrow> (Inr (), s\<lparr>snode := nd\<rparr>)))"

subsection \<open>Fleet-facing handlers\<close>

definition Join ::
    "codec \<Rightarrow> int \<Rightarrow> (nat \<Rightarrow> attempt) \<Rightarrow> NodeInfo option \<Rightarrow> 'c Server \<Rightarrow> (code + RingMsg) \<times> 'c Server" where
  "Join cod now env req s =
     (case req of
        None \<Rightarrow> (Inl InvalidArgument, s)
      | Some n \<Rightarrow>
          if NodeId n = [] \<or> Addr n = [] then (Inl InvalidArgument, s)
          else (case submit cod now env (Some (CmdNodeJoin n)) s of
                  (Inl _, s1) \<Rightarrow> (Inl Unavailable, s1)
                | (Inr _, s1) \<Rightarrow>
                    if \<not> HasMember (ssm s1) (NodeId n) then (Inl Internal, s1)
                    else (Inr (Ring (ssm s1)), s1)))"

definition Leave ::
    "codec \<Rightarrow> int \<Rightarrow> (nat \<Rightarrow> attempt) \<Rightarrow> string \<Rightarrow> 'c Server \<Rightarrow> (code + unit) \<times> 'c Server" where
  "Leave cod now env i s =
     (case submit cod now env (Some (CmdNodeLeave i)) s of
        (Inl _, s1) \<Rightarrow> (Inl Unavailable, s1)
      | (Inr _, s1) \<Rightarrow> (Inr (), s1))"

definition set_log :: "'c Server \<Rightarrow> dirlog plog \<Rightarrow> 'c Server" where
  "set_log s l = s\<lparr>snode := (snode s)\<lparr>nLog := l\<rparr>\<rparr>"

definition Heartbeat :: "int \<Rightarrow> string \<Rightarrow> 'c Server \<Rightarrow> 'c Server" where
  "Heartbeat now i s =
     (let l = nLog (snode s) in set_log s (l\<lparr>smst := (fst (smst l), hb_record i now (snd (smst l)))\<rparr>))"

definition GetRing :: "'c Server \<Rightarrow> RingMsg" where
  "GetRing s = Ring (ssm s)"

definition Suspect :: "int \<Rightarrow> string \<Rightarrow> 'c Server \<Rightarrow> bool" where
  "Suspect now i s = (if \<not> HasMember (ssm s) i then True else hb_expired (shb s) i now)"

subsection \<open>Paxos handlers and transport\<close>

record PrepareResponse =
  rPromised :: bool
  rAcceptedBallot :: ballot
  rAcceptedValue :: "ClusterCommand option"
  rPromisedBallot :: ballot

text \<open>
  Marshalling through a message pointer: a nil message has nil bytes, any other message non-nil ones.
\<close>

definition marshal_ptr :: "codec \<Rightarrow> ClusterCommand option \<Rightarrow> pvalue option" where
  "marshal_ptr cod v = (case v of None \<Rightarrow> Some None | Some c \<Rightarrow> map_option Some (Marshal cod c))"

definition srv_Prepare :: "codec \<Rightarrow> slot \<Rightarrow> ballot \<Rightarrow> 'c Server \<Rightarrow> (code + PrepareResponse) \<times> 'c Server" where
  "srv_Prepare cod sl b s =
     (let (r, a) = acc_Prepare (nAcceptor (snode s)) sl b;
          s1 = s\<lparr>snode := (snode s)\<lparr>nAcceptor := a\<rparr>\<rparr>;
          resp = \<lparr>rPromised = Promised r, rAcceptedBallot = AcceptedBallot r, rAcceptedValue = None,
                  rPromisedBallot = PromisedBallot r\<rparr>
      in case AcceptedValue r of
           None \<Rightarrow> (Inr resp, s1)
         | Some av \<Rightarrow>
             (case Unmarshal cod av of
                None \<Rightarrow> (Inl Internal, s1)
              | Some cmd \<Rightarrow> (Inr (resp\<lparr>rAcceptedValue := Some cmd\<rparr>), s1)))"

definition srv_Accept ::
    "codec \<Rightarrow> slot \<Rightarrow> ballot \<Rightarrow> ClusterCommand option \<Rightarrow> 'c Server \<Rightarrow> (code + AcceptReply) \<times> 'c Server" where
  "srv_Accept cod sl b v s =
     (case marshal_ptr cod v of
        None \<Rightarrow> (Inl InvalidArgument, s)
      | Some raw \<Rightarrow>
          (let (r, a) = acc_Accept (nAcceptor (snode s)) sl b raw
           in (Inr r, s\<lparr>snode := (snode s)\<lparr>nAcceptor := a\<rparr>\<rparr>)))"

definition srv_Learn :: "codec \<Rightarrow> int \<Rightarrow> slot \<Rightarrow> ClusterCommand option \<Rightarrow> 'c Server \<Rightarrow> (code + unit) \<times> 'c Server" where
  "srv_Learn cod now sl v s =
     (case marshal_ptr cod v of
        None \<Rightarrow> (Inl InvalidArgument, s)
      | Some raw \<Rightarrow> (Inr (), set_log s (Commit (dir_apply cod now) sl (nil_bytes raw) (nLog (snode s)))))"

definition client :: "(string \<Rightarrow> 'c option) \<Rightarrow> string \<Rightarrow> 'c grpcTransport \<Rightarrow> 'c option \<times> 'c grpcTransport" where
  "client dial peer t =
     (case map_of (clients t) peer of
        Some c \<Rightarrow> (Some c, t)
      | None \<Rightarrow>
          (case map_of (tpeers t) peer of
             None \<Rightarrow> (None, t)
           | Some addr \<Rightarrow>
               (case dial addr of
                  None \<Rightarrow> (None, t)
                | Some c \<Rightarrow> (Some c, t\<lparr>clients := AList.update peer c (clients t)\<rparr>))))"

definition tr_Prepare ::
    "codec \<Rightarrow> (string \<Rightarrow> 'c option) \<Rightarrow> ('c \<Rightarrow> PrepareResponse option) \<Rightarrow> string \<Rightarrow> slot \<Rightarrow> ballot \<Rightarrow> 'c Server
      \<Rightarrow> PrepareReply option \<times> 'c Server" where
  "tr_Prepare cod dial call peer sl b s =
     (if peer = tself (tr s)
      then (let (r, a) = acc_Prepare (nAcceptor (snode s)) sl b
            in (Some r, s\<lparr>snode := (snode s)\<lparr>nAcceptor := a\<rparr>\<rparr>))
      else (case client dial peer (tr s) of
              (None, t) \<Rightarrow> (None, s\<lparr>tr := t\<rparr>)
            | (Some c, t) \<Rightarrow>
                (case call c of
                   None \<Rightarrow> (None, s\<lparr>tr := t\<rparr>)
                 | Some resp \<Rightarrow>
                     let reply = \<lparr>Promised = rPromised resp, AcceptedBallot = rAcceptedBallot resp,
                                  AcceptedValue = None, PromisedBallot = rPromisedBallot resp\<rparr>
                     in (case rAcceptedValue resp of
                           None \<Rightarrow> (Some reply, s\<lparr>tr := t\<rparr>)
                         | Some cmd \<Rightarrow>
                             (case Marshal cod cmd of
                                None \<Rightarrow> (None, s\<lparr>tr := t\<rparr>)
                              | Some raw \<Rightarrow> (Some (reply\<lparr>AcceptedValue := Some raw\<rparr>), s\<lparr>tr := t\<rparr>))))))"

definition tr_Accept ::
    "codec \<Rightarrow> (string \<Rightarrow> 'c option) \<Rightarrow> ('c \<Rightarrow> ClusterCommand \<Rightarrow> AcceptReply option) \<Rightarrow> string \<Rightarrow> slot \<Rightarrow> ballot \<Rightarrow> pvalue
      \<Rightarrow> 'c Server \<Rightarrow> AcceptReply option \<times> 'c Server" where
  "tr_Accept cod dial call peer sl b v s =
     (if peer = tself (tr s)
      then (let (r, a) = acc_Accept (nAcceptor (snode s)) sl b v
            in (Some r, s\<lparr>snode := (snode s)\<lparr>nAcceptor := a\<rparr>\<rparr>))
      else (case client dial peer (tr s) of
              (None, t) \<Rightarrow> (None, s\<lparr>tr := t\<rparr>)
            | (Some c, t) \<Rightarrow>
                (case Unmarshal cod (nil_bytes v) of
                   None \<Rightarrow> (None, s\<lparr>tr := t\<rparr>)
                 | Some cmd \<Rightarrow> (call c cmd, s\<lparr>tr := t\<rparr>))))"

definition tr_Learn ::
    "codec \<Rightarrow> int \<Rightarrow> (string \<Rightarrow> 'c option) \<Rightarrow> ('c \<Rightarrow> ClusterCommand \<Rightarrow> bool) \<Rightarrow> string \<Rightarrow> slot \<Rightarrow> pvalue
      \<Rightarrow> 'c Server \<Rightarrow> bool \<times> 'c Server" where
  "tr_Learn cod now dial call peer sl v s =
     (if peer = tself (tr s)
      then (True, set_log s (Commit (dir_apply cod now) sl (nil_bytes v) (nLog (snode s))))
      else (case client dial peer (tr s) of
              (None, t) \<Rightarrow> (False, s\<lparr>tr := t\<rparr>)
            | (Some c, t) \<Rightarrow>
                (case Unmarshal cod (nil_bytes v) of
                   None \<Rightarrow> (False, s\<lparr>tr := t\<rparr>)
                 | Some cmd \<Rightarrow> (call c cmd, s\<lparr>tr := t\<rparr>))))"

subsection \<open>The failure detector\<close>

fun ask_peers ::
    "(string \<Rightarrow> 'c option) \<Rightarrow> ('c \<Rightarrow> bool option) \<Rightarrow> string list \<Rightarrow> nat \<Rightarrow> 'c grpcTransport \<Rightarrow> nat \<times> 'c grpcTransport" where
  "ask_peers dial call [] suspecting t = (suspecting, t)"
| "ask_peers dial call (peer # ps) suspecting t =
     (case client dial peer t of
        (None, t1) \<Rightarrow> ask_peers dial call ps suspecting t1
      | (Some c, t1) \<Rightarrow>
          ask_peers dial call ps (if call c = Some True then suspecting + 1 else suspecting) t1)"

definition quorumSuspects ::
    "(string \<Rightarrow> 'c option) \<Rightarrow> ('c \<Rightarrow> bool option) \<Rightarrow> 'c grpcTransport \<Rightarrow> bool \<times> 'c grpcTransport" where
  "quorumSuspects dial call t =
     (let total = length (tpeers t) + 1;
          (suspecting, t1) = ask_peers dial call (map fst (tpeers t)) 1 t
      in (suspecting > total div 2, t1))"

text \<open>
  One turn of the detector's loop: \<open>call i c\<close> is peer \<open>c\<close>'s answer about node \<open>i\<close>, \<open>env i\<close> what happens
  while the proposal for \<open>i\<close> runs.
\<close>

definition detect_one ::
    "codec \<Rightarrow> (string \<Rightarrow> 'c option) \<Rightarrow> (string \<Rightarrow> 'c \<Rightarrow> bool option) \<Rightarrow> (string \<Rightarrow> nat \<Rightarrow> attempt) \<Rightarrow> int \<Rightarrow> string
      \<Rightarrow> 'c Server \<times> string list \<Rightarrow> 'c Server \<times> string list" where
  "detect_one cod dial call env now i st =
     (case st of (s, props) \<Rightarrow>
        if \<not> hb_expired (shb s) i now then (s, props)
        else (case quorumSuspects dial (call i) (tr s) of
                (q, t) \<Rightarrow>
                  if \<not> q then (s\<lparr>tr := t\<rparr>, props)
                  else (snd (submit cod now (env i) (Some (CmdNodeDead i)) (s\<lparr>tr := t\<rparr>)), props @ [i])))"

definition detector_turn ::
    "codec \<Rightarrow> (string \<Rightarrow> 'c option) \<Rightarrow> (string \<Rightarrow> 'c \<Rightarrow> bool option) \<Rightarrow> (string \<Rightarrow> nat \<Rightarrow> attempt) \<Rightarrow> int
      \<Rightarrow> 'c Server \<Rightarrow> 'c Server \<times> string list" where
  "detector_turn cod dial call env now s = fold (detect_one cod dial call env now) (Members (ssm s)) (s, [])"

definition Collect :: "'c Server \<Rightarrow> u64 \<times> nat \<times> u64" where
  "Collect s = (let ring = Ring (ssm s) in (REpoch ring, length (RNodes ring), Applied (nLog (snode s))))"

subsection \<open>Invariant of a replica\<close>

text \<open>
  Membership is well formed, and the transport only holds clients of its configured peers. The
  operations of a replica are the steps; whatever they are given by the network and the clock, they
  keep this, never lower a promise and never change the Paxos configuration.
\<close>

definition tr_ok :: "'c grpcTransport \<Rightarrow> bool" where
  "tr_ok t \<longleftrightarrow> fst ` set (clients t) \<subseteq> fst ` set (tpeers t)"

definition srv_wf :: "'c Server \<Rightarrow> bool" where
  "srv_wf s \<longleftrightarrow> dir_wf (core (ssm s)) \<and> tr_ok (tr s)"

definition srv_le :: "'c Server \<Rightarrow> 'c Server \<Rightarrow> bool" where
  "srv_le s s' \<longleftrightarrow>
     cfg (snode s') = cfg (snode s) \<and> idx (snode s') = idx (snode s) \<and> tpeers (tr s') = tpeers (tr s) \<and>
     (\<forall>sl. promised (acc_slot (nAcceptor (snode s)) sl) \<le> promised (acc_slot (nAcceptor (snode s')) sl))"

definition set_sm :: "'c Server \<Rightarrow> StateMachine \<Rightarrow> 'c Server" where
  "set_sm s sm = set_log s ((nLog (snode s))\<lparr>smst := (sm, shb s)\<rparr>)"

inductive srv_step :: "codec \<Rightarrow> (string \<Rightarrow> 'c option) \<Rightarrow> 'c Server \<Rightarrow> 'c Server \<Rightarrow> bool" for cod dial where
  st_join: "srv_step cod dial s (snd (Join cod now env req s))"
| st_leave: "srv_step cod dial s (snd (Leave cod now env i s))"
| st_heartbeat: "srv_step cod dial s (Heartbeat now i s)"
| st_subscribe: "srv_step cod dial s (set_sm s (snd (Subscribe (ssm s))))"
| st_unsubscribe: "srv_step cod dial s (set_sm s (Unsubscribe ch (ssm s)))"
| st_prepare: "srv_step cod dial s (snd (srv_Prepare cod sl b s))"
| st_accept: "srv_step cod dial s (snd (srv_Accept cod sl b v s))"
| st_learn: "srv_step cod dial s (snd (srv_Learn cod now sl v s))"
| st_tr_prepare: "srv_step cod dial s (snd (tr_Prepare cod dial call1 peer sl b s))"
| st_tr_accept: "srv_step cod dial s (snd (tr_Accept cod dial call2 peer sl b q s))"
| st_tr_learn: "srv_step cod dial s (snd (tr_Learn cod now dial call3 peer sl q s))"
| st_detector: "srv_step cod dial s (fst (detector_turn cod dial call env2 now s))"
| st_gap: "srv_step cod dial s (s\<lparr>snode := gap_tick (dir_apply cod now) env (snode s)\<rparr>)"

lemma dir_wf_dir_apply: "dir_wf (core (fst st)) \<Longrightarrow> dir_wf (core (fst (dir_apply cod now s raw st)))"
  using dir_wf_dir_fn [of "core (fst st)" cod s raw] core_Apply [of cod s raw "fst st"]
  by (simp add: dir_apply_def case_prod_beta)

lemma dir_wf_Commit:
  "dir_wf (core (fst (smst l))) \<Longrightarrow> dir_wf (core (fst (smst (Commit (dir_apply cod now) s v l))))"
  by (rule smst_Commit [of "\<lambda>st. dir_wf (core (fst st))"]) (rule dir_wf_dir_apply)

lemma dir_wf_submit_loop:
  "dir_wf (core (fst (smst (nLog n)))) \<Longrightarrow>
   dir_wf (core (fst (smst (nLog (snd (submit_loop left (dir_apply cod now) env k v n))))))"
  by (rule smst_submit_loop [of "\<lambda>st. dir_wf (core (fst st))"]) (rule dir_wf_dir_apply)

definition srv_ok :: "'c Server \<Rightarrow> 'c Server \<Rightarrow> bool" where
  "srv_ok s s' \<longleftrightarrow> srv_wf s' \<and> srv_le s s'"

lemma srv_ok_refl: "srv_wf s \<Longrightarrow> srv_ok s s"
  by (simp add: srv_ok_def srv_le_def)

lemma srv_ok_trans: "srv_ok a b \<Longrightarrow> srv_ok b c \<Longrightarrow> srv_ok a c"
  by (auto simp: srv_ok_def srv_le_def intro: order_trans)

lemma srv_ok_Submit:
  assumes "srv_wf s"
  shows "srv_ok s (s\<lparr>snode := snd (Submit (dir_apply cod now) env v (snode s))\<rparr>)"
  using assms dir_wf_submit_loop [of "snode s" 20 cod now env 0 v]
    submit_loop_sel [of 20 "dir_apply cod now" env 0 v "snode s"]
  by (simp add: srv_ok_def srv_wf_def srv_le_def Submit_def del: submit_loop.simps)

lemma srv_ok_submit: "srv_wf s \<Longrightarrow> srv_ok s (snd (submit cod now env cmd s))"
  using srv_ok_Submit [of s cod now env] srv_ok_refl [of s]
  by (auto simp: submit_def split: option.split prod.split sum.split) (metis snd_conv)+

lemma srv_ok_set_log:
  assumes "srv_wf s" and "dir_wf (core (fst (smst l)))"
  shows "srv_ok s (set_log s l)"
  using assms by (simp add: srv_ok_def srv_wf_def srv_le_def set_log_def)

lemma srv_ok_acceptor:
  assumes "srv_wf s" and "\<And>sl. promised (acc_slot (nAcceptor (snode s)) sl) \<le> promised (acc_slot a sl)"
  shows "srv_ok s (s\<lparr>snode := (snode s)\<lparr>nAcceptor := a\<rparr>\<rparr>)"
  using assms by (simp add: srv_ok_def srv_wf_def srv_le_def)

lemma client_ok:
  assumes "tr_ok t" and "client dial peer t = (c, t')"
  shows "tr_ok t'" and "tpeers t' = tpeers t" and "tself t' = tself t"
proof -
  have "t' = t \<or> (\<exists>x. t' = t\<lparr>clients := AList.update peer x (clients t)\<rparr> \<and> peer \<in> fst ` set (tpeers t))"
    using assms(2) by (auto simp: client_def dest!: map_of_SomeD split: option.splits intro: rev_image_eqI)
  then consider "t' = t" | x where "t' = t\<lparr>clients := AList.update peer x (clients t)\<rparr>" "peer \<in> fst ` set (tpeers t)"
    by blast
  then have "tr_ok t' \<and> tpeers t' = tpeers t \<and> tself t' = tself t"
    using assms(1) by cases (simp_all add: tr_ok_def dom_update)
  then show "tr_ok t'" "tpeers t' = tpeers t" "tself t' = tself t" by simp_all
qed

lemma srv_ok_client:
  assumes "srv_wf s" and "client dial peer (tr s) = (c, t)"
  shows "srv_ok s (s\<lparr>tr := t\<rparr>)"
  using assms client_ok [of "tr s" dial peer c t] by (simp add: srv_ok_def srv_wf_def srv_le_def)

lemma srv_ok_Prepare:
  "srv_wf s \<Longrightarrow> srv_ok s (s\<lparr>snode := (snode s)\<lparr>nAcceptor := snd (acc_Prepare (nAcceptor (snode s)) sl b)\<rparr>\<rparr>)"
  by (rule srv_ok_acceptor) (auto simp: acc_slot_Prepare)

lemma srv_ok_Accept:
  "srv_wf s \<Longrightarrow> srv_ok s (s\<lparr>snode := (snode s)\<lparr>nAcceptor := snd (acc_Accept (nAcceptor (snode s)) sl b v)\<rparr>\<rparr>)"
  by (rule srv_ok_acceptor) (auto simp: acc_slot_Accept)

lemma srv_ok_Commit:
  "srv_wf s \<Longrightarrow> srv_ok s (set_log s (Commit (dir_apply cod now) sl v (nLog (snode s))))"
  by (rule srv_ok_set_log) (simp_all add: srv_wf_def dir_wf_Commit)

lemma srv_ok_ask_peers:
  assumes "srv_wf s" and "ask_peers dial call ps n (tr s) = (k, t)"
  shows "srv_ok s (s\<lparr>tr := t\<rparr>)"
proof -
  have "tr_ok t \<and> tpeers t = tpeers t0" if "tr_ok t0" "ask_peers dial call ps n t0 = (k, t)" for t0
    using that
  proof (induction ps arbitrary: n t0)
    case (Cons p ps)
    obtain c t1 where c: "client dial p t0 = (c, t1)" by fastforce
    then show ?case
      using Cons.IH [of t1] Cons.prems(2) client_ok [OF Cons.prems(1) c] by (cases c) auto
  qed simp
  then show ?thesis using assms by (auto simp: srv_ok_def srv_wf_def srv_le_def)
qed

lemma srv_ok_detect_one:
  assumes "srv_wf (fst st)"
  shows "srv_ok (fst st) (fst (detect_one cod dial call env now i st))"
proof -
  obtain s ps where st: "st = (s, ps)" by fastforce
  obtain k t where ask: "ask_peers dial (call i) (map fst (tpeers (tr s))) (Suc 0) (tr s) = (k, t)" by fastforce
  have wf: "srv_wf s" using assms st by simp
  then have t: "srv_ok s (s\<lparr>tr := t\<rparr>)" using ask by (rule srv_ok_ask_peers)
  then have "srv_ok (s\<lparr>tr := t\<rparr>) (snd (submit cod now (env i) (Some (CmdNodeDead i)) (s\<lparr>tr := t\<rparr>)))"
    by (intro srv_ok_submit) (simp add: srv_ok_def)
  then show ?thesis
    using t srv_ok_refl [OF wf] srv_ok_trans
    by (auto simp: st detect_one_def quorumSuspects_def ask Let_def)
qed

lemma srv_ok_detector:
  assumes "srv_wf s"
  shows "srv_ok s (fst (detector_turn cod dial call env now s))"
proof -
  have "srv_ok (fst st) (fst (fold (detect_one cod dial call env now) ids st))" if "srv_wf (fst st)" for ids st
    using that
  proof (induction ids arbitrary: st)
    case (Cons i ids)
    have "srv_ok (fst st) (fst (detect_one cod dial call env now i st))" by (rule srv_ok_detect_one [OF Cons.prems])
    then show ?case using Cons.IH srv_ok_trans by (fastforce simp: srv_ok_def [of _ "fst (detect_one cod dial call env now i st)"])
  qed (simp add: srv_ok_refl)
  from this [of "(s, [])"] show ?thesis using assms by (simp add: detector_turn_def)
qed

lemma srv_ok_tr:
  assumes "srv_wf s"
  shows "srv_ok s (snd (tr_Prepare cod dial call1 peer sl b s))"
    and "srv_ok s (snd (tr_Accept cod dial call2 peer sl b q s))"
    and "srv_ok s (snd (tr_Learn cod now dial call3 peer sl q s))"
proof -
  obtain c t where c: "client dial peer (tr s) = (c, t)" by fastforce
  note cl = srv_ok_client [OF assms c]
  show "srv_ok s (snd (tr_Prepare cod dial call1 peer sl b s))"
    using cl srv_ok_Prepare [OF assms] by (auto simp: tr_Prepare_def c Let_def case_prod_beta split: option.split)
  show "srv_ok s (snd (tr_Accept cod dial call2 peer sl b q s))"
    using cl srv_ok_Accept [OF assms] by (auto simp: tr_Accept_def c case_prod_beta split: option.split)
  show "srv_ok s (snd (tr_Learn cod now dial call3 peer sl q s))"
    using cl srv_ok_Commit [OF assms] by (auto simp: tr_Learn_def c split: option.split)
qed

lemma srv_step_ok: "srv_step cod dial s s' \<Longrightarrow> srv_wf s \<Longrightarrow> srv_ok s s'"
proof (induction rule: srv_step.induct)
  case (st_join s now env req)
  then show ?case
    using srv_ok_submit [of s cod now env] srv_ok_refl [of s]
    by (auto simp: Join_def split: option.split prod.split sum.split) (metis snd_conv)+
next
  case (st_leave s now env i)
  then show ?case
    using srv_ok_submit [of s cod now env "Some (CmdNodeLeave i)"]
    by (auto simp: Leave_def split: prod.split sum.split)
next
  case (st_heartbeat s now i)
  then show ?case by (simp add: Heartbeat_def Let_def srv_ok_set_log srv_wf_def)
next
  case (st_subscribe s)
  then show ?case by (auto simp: set_sm_def Subscribe_def srv_wf_def intro!: srv_ok_set_log)
next
  case (st_unsubscribe s ch)
  then show ?case by (auto simp: set_sm_def Unsubscribe_def srv_wf_def intro!: srv_ok_set_log)
next
  case (st_prepare s sl b)
  then show ?case
    using srv_ok_Prepare [of s sl b] by (auto simp: srv_Prepare_def Let_def case_prod_beta split: option.split)
next
  case (st_accept s sl b v)
  then show ?case
    using srv_ok_Accept [of s sl b] srv_ok_refl [of s] by (auto simp: srv_Accept_def case_prod_beta split: option.split)
next
  case (st_learn s now sl v)
  then show ?case using srv_ok_Commit [of s] srv_ok_refl [of s] by (auto simp: srv_Learn_def split: option.split)
next
  case (st_gap s now env)
  then show ?case
    using srv_ok_Submit [of s cod now env "Noop (cfg (snode s))"] srv_ok_refl [of s]
    by (auto simp: gap_tick_def split: prod.split)
qed (simp_all add: srv_ok_tr srv_ok_detector)

lemma srv_steps_ok: "(srv_step cod dial)\<^sup>*\<^sup>* s s' \<Longrightarrow> srv_wf s \<Longrightarrow> srv_ok s s'"
proof (induction rule: rtranclp_induct)
  case (step a b)
  then have sa: "srv_ok s a" by simp
  then have "srv_ok a b" using srv_step_ok step.hyps(2) by (auto simp: srv_ok_def)
  then show ?case using sa srv_ok_trans by blast
qed (rule srv_ok_refl)

lemma NewServer_cases:
  "NewServer cod c =
     (case Marshal cod (Some (CmdNoop True)) of None \<Rightarrow> Some (Inl ())
      | Some noop \<Rightarrow> Some (Inr \<lparr>snode = the (NewNode \<lparr>Self = ReplicaID c, Replicas = ReplicaID c # map fst (Peers c),
           EqualFn = Some (commandsEqual cod), RPCTimeout = 0, Noop = Some noop\<rparr>
           (NewLog (NewStateMachine, newHBTracker (cfg_defaults c)))),
         tr = \<lparr>tself = ReplicaID c, tpeers = Peers c, clients = []\<rparr>\<rparr>))"
proof -
  have ex: "\<exists>nd. NewNode \<lparr>Self = ReplicaID c, Replicas = ReplicaID c # map fst (Peers c),
           EqualFn = Some (commandsEqual cod), RPCTimeout = 0, Noop = Some noop\<rparr>
           (NewLog (NewStateMachine, newHBTracker (cfg_defaults c))) = Some nd" for noop
    using NewNode_None_iff [of "\<lparr>Self = ReplicaID c, Replicas = ReplicaID c # map fst (Peers c),
           EqualFn = Some (commandsEqual cod), RPCTimeout = 0, Noop = Some noop\<rparr>"] by simp
  have cfg: "ReplicaID (cfg_defaults c) = ReplicaID c" "Peers (cfg_defaults c) = Peers c"
    by (simp_all add: cfg_defaults_def Let_def)
  show ?thesis
  proof (cases "Marshal cod (Some (CmdNoop True))")
    case (Some noop)
    then show ?thesis using ex [of noop] by (auto simp: NewServer_def Let_def cfg)
  qed (simp add: NewServer_def Let_def)
qed

lemma nLog_NewNode: "NewNode c lg = Some n \<Longrightarrow> nLog n = lg"
  by (auto simp: NewNode_def Let_def split: if_splits)

lemma NewServer_wf:
  assumes "NewServer cod c = Some (Inr s0)"
  shows "srv_wf s0"
proof -
  obtain nd lg where nd: "NewNode lg (NewLog (NewStateMachine, newHBTracker (cfg_defaults c))) = Some nd"
      "snode s0 = nd" "clients (tr s0) = []"
    using assms by (auto simp: NewServer_def Let_def split: option.splits)
  then show ?thesis
    using nLog_NewNode [OF nd(1)] by (simp add: srv_wf_def tr_ok_def NewLog_def NewStateMachine_def dir_wf_dir0)
qed


definition demo_cfg :: dirconfig where
  "demo_cfg = \<lparr>ReplicaID = ''d1'', Peers = [(''d2'', ''h2:1''), (''d3'', ''h3:1'')], HeartbeatEvery = 0, DeadAfter = 0\<rparr>"

lemma demo_server:
  "\<exists>s0 :: 'c Server. NewServer demo_codec demo_cfg = Some (Inr s0) \<and>
     tr s0 = \<lparr>tself = ''d1'', tpeers = [(''d2'', ''h2:1''), (''d3'', ''h3:1'')], clients = []\<rparr> \<and>
     nAcceptor (snode s0) = NewAcceptor \<and>
     nLog (snode s0) = NewLog (NewStateMachine, newHBTracker (cfg_defaults demo_cfg))"
proof -
  have "Marshal demo_codec (Some (CmdNoop True)) = Some [4]" by (simp add: demo_codec_def)
  then have "\<exists>nd. (NewServer demo_codec demo_cfg :: (unit + 'c Server) option) =
      Some (Inr \<lparr>snode = nd, tr = \<lparr>tself = ReplicaID demo_cfg, tpeers = Peers demo_cfg, clients = []\<rparr>\<rparr>)"
    by (simp add: NewServer_cases)
  then obtain s0 :: "'c Server" where s0: "NewServer demo_codec demo_cfg = Some (Inr s0)"
      "tr s0 = \<lparr>tself = ''d1'', tpeers = [(''d2'', ''h2:1''), (''d3'', ''h3:1'')], clients = []\<rparr>"
    by (auto simp: demo_cfg_def)
  moreover have "nAcceptor (snode s0) = NewAcceptor"
      "nLog (snode s0) = NewLog (NewStateMachine, newHBTracker (cfg_defaults demo_cfg))"
    using s0(1) by (auto simp: NewServer_def Let_def NewNode_def split: option.splits if_splits)
  ultimately show ?thesis by blast
qed


subsection \<open>Properties of the handlers\<close>



text \<open>A peer suspects the node when it can be reached and its answer is yes.\<close>

definition suspects_of :: "(string \<Rightarrow> 'c option) \<Rightarrow> ('c \<Rightarrow> bool option) \<Rightarrow> 'c grpcTransport \<Rightarrow> string \<Rightarrow> bool" where
  "suspects_of dial call t peer \<longleftrightarrow> (\<exists>c. fst (client dial peer t) = Some c \<and> call c = Some True)"

lemma client_other:
  assumes "client dial p t = (c, t')" and "q \<noteq> p"
  shows "fst (client dial q t') = fst (client dial q t)"
  using assms by (auto simp: client_def map_of_update split: option.splits)

lemma ask_peers_count:
  "distinct ps \<Longrightarrow>
   fst (ask_peers dial call ps n t) = n + length (filter (suspects_of dial call t) ps)"
proof (induction ps arbitrary: n t)
  case (Cons p ps)
  obtain c t' where c: "client dial p t = (c, t')" by fastforce
  have "suspects_of dial call t' q = suspects_of dial call t q" if "q \<in> set ps" for q
    using client_other [OF c, of q] Cons.prems that by (cases "q = p") (simp_all add: suspects_of_def)
  then have "filter (suspects_of dial call t') ps = filter (suspects_of dial call t) ps"
    by (intro filter_cong) auto
  then show ?case
    using Cons by (cases c) (auto simp: c suspects_of_def [of dial call t p])
qed simp

lemma detect_one_proposes:
  assumes "snd (detect_one cod dial call env now i (s, ps)) \<noteq> ps" and "distinct (map fst (tpeers (tr s)))"
  shows "hb_expired (shb s) i now \<and>
    majority (Suc (length (tpeers (tr s)))) \<le> 1 + length (filter (suspects_of dial (call i) (tr s)) (map fst (tpeers (tr s)))) \<and>
    snd (detect_one cod dial call env now i (s, ps)) = ps @ [i]"
  using assms ask_peers_count [OF assms(2), of dial "call i" 1 "tr s"]
  by (auto simp: detect_one_def quorumSuspects_def Let_def case_prod_beta majority_def split: if_splits)

lemma detector_fold:
  assumes "srv_wf s" and "distinct (map fst (tpeers (tr s)))"
    and "i \<in> set (snd (fold (detect_one cod dial call env now) ids (s, ps)))"
  shows "i \<in> set ps \<or> i \<in> set ids \<and> (\<exists>s'. tpeers (tr s') = tpeers (tr s) \<and> hb_expired (shb s') i now \<and>
    majority (Suc (length (tpeers (tr s)))) \<le>
      1 + length (filter (suspects_of dial (call i) (tr s')) (map fst (tpeers (tr s)))))"
  using assms
proof (induction ids arbitrary: s ps)
  case (Cons k ids)
  obtain s1 ps1 where one: "detect_one cod dial call env now k (s, ps) = (s1, ps1)" by fastforce
  have ok: "srv_ok s s1" using srv_ok_detect_one [of "(s, ps)" cod dial call env now k] Cons.prems(1) one by simp
  then have wf: "srv_wf s1" and peers: "tpeers (tr s1) = tpeers (tr s)" by (simp_all add: srv_ok_def srv_le_def)
  have new: "ps1 = ps \<or> ps1 = ps @ [k] \<and> hb_expired (shb s) k now \<and>
      majority (Suc (length (tpeers (tr s)))) \<le> 1 + length (filter (suspects_of dial (call k) (tr s)) (map fst (tpeers (tr s))))"
    using detect_one_proposes [of cod dial call env now k s ps] one Cons.prems(2) by auto
  have "i \<in> set ps1 \<or> i \<in> set ids \<and> (\<exists>s'. tpeers (tr s') = tpeers (tr s) \<and> hb_expired (shb s') i now \<and>
      majority (Suc (length (tpeers (tr s)))) \<le>
        1 + length (filter (suspects_of dial (call i) (tr s')) (map fst (tpeers (tr s)))))"
    using Cons.IH [OF wf] Cons.prems(2,3) one peers by simp
  then show ?case using new by auto
qed simp



definition demo_stale :: "string Server" where
  "demo_stale = \<lparr>snode = \<lparr>cfg = \<lparr>Self = ''d1'', Replicas = [''d1'', ''d2'', ''d3''], EqualFn = None, RPCTimeout = 0, Noop = None\<rparr>,
       idx = 0, nAcceptor = NewAcceptor,
       nLog = NewLog (\<lparr>core = \<lparr>epoch = 1, members = [(''n1'', demo_node)]\<rparr>, watch = [], nextCh = 0\<rparr>,
                      \<lparr>hbcfg = cfg_defaults demo_cfg, las = [(''n1'', 0)]\<rparr>), round = 0\<rparr>,
     tr = \<lparr>tself = ''d1'', tpeers = [(''d2'', ''h2:1''), (''d3'', ''h3:1'')], clients = []\<rparr>\<rparr>"

lemma demo_stale_wf: "srv_wf demo_stale"
  by (simp add: srv_wf_def demo_stale_def NewLog_def dir_wf_def members_wf_def demo_node_def tr_ok_def)





end
