(* ===== verification/Chain.thy ===== *)
theory Chain
  imports Sha256
begin

text \<open>
  Content addressing, \<^verbatim>\<open>internal/chain/chain.go\<close>: a prompt is cut into blocks of
  \<^verbatim>\<open>blockSize\<close> tokens and each block's ID is the SHA-256 of its parent's ID and its own
  tokens. A panic is \<^term>\<open>None\<close>.
\<close>

subsection \<open>Definitions\<close>

definition HashSize :: nat where
  "HashSize = 32"

definition root_input :: "string \<Rightarrow> int \<Rightarrow> bytes" where
  "root_input modelID blockSize = bytes_of_string modelID @ PutUint32 (word_of_int blockSize)"

definition Root :: "string \<Rightarrow> int \<Rightarrow> block_id" where
  "Root modelID blockSize = Sum256 (root_input modelID blockSize)"

definition next_input :: "block_id \<Rightarrow> u32 list \<Rightarrow> bytes" where
  "next_input parent tokens = parent @ concat (map PutUint32 tokens)"

definition Next :: "block_id \<Rightarrow> u32 list \<Rightarrow> block_id" where
  "Next parent tokens = Sum256 (next_input parent tokens)"

function Chunk_loop :: "u32 list \<Rightarrow> nat \<Rightarrow> nat \<Rightarrow> u32 list list" where
  "Chunk_loop tokens bs start =
     (if 0 < bs \<and> start < length tokens
      then take (min (start + bs) (length tokens) - start) (drop start tokens)
             # Chunk_loop tokens bs (start + bs)
      else [])"
  by pat_completeness auto
termination
  by (relation "measure (\<lambda>(tokens, bs, start). length tokens - start)") auto

declare Chunk_loop.simps [simp del]

definition Chunk :: "u32 list \<Rightarrow> int \<Rightarrow> u32 list list option" where
  "Chunk tokens blockSize =
     (if blockSize \<le> 0 then None else Some (Chunk_loop tokens (nat blockSize) 0))"

fun Build_loop :: "block_id \<Rightarrow> u32 list list \<Rightarrow> block_id list" where
  "Build_loop parent [] = []"
| "Build_loop parent (blk # blks) = Next parent blk # Build_loop (Next parent blk) blks"

definition Build :: "string \<Rightarrow> int \<Rightarrow> u32 list \<Rightarrow> block_id list option" where
  "Build modelID blockSize tokens =
     map_option (Build_loop (Root modelID blockSize)) (Chunk tokens blockSize)"

text \<open>The byte strings a run of \<^const>\<open>Build\<close> hashes: the root's, then one per block.\<close>

fun loop_inputs :: "block_id \<Rightarrow> u32 list list \<Rightarrow> bytes list" where
  "loop_inputs parent [] = []"
| "loop_inputs parent (blk # blks) = next_input parent blk # loop_inputs (Next parent blk) blks"

definition chain_inputs :: "string \<Rightarrow> int \<Rightarrow> u32 list \<Rightarrow> bytes list" where
  "chain_inputs modelID blockSize tokens =
     root_input modelID blockSize
       # loop_inputs (Root modelID blockSize) (Chunk_loop tokens (nat blockSize) 0)"

subsection \<open>Chunking\<close>

lemma Chunk_loop_step:
  "0 < bs \<Longrightarrow> start < length ts \<Longrightarrow>
   Chunk_loop ts bs start = take bs (drop start ts) # Chunk_loop ts bs (start + bs)"
  by (subst Chunk_loop.simps) (auto simp: min_def)

lemma Chunk_loop_done: "length ts \<le> start \<Longrightarrow> Chunk_loop ts bs start = []"
  by (subst Chunk_loop.simps) auto

lemma Chunk_loop_drop:
  assumes "0 < bs"
  shows "Chunk_loop ts bs start = Chunk_loop (drop start ts) bs 0"
proof -
  have "Chunk_loop ts bs (start + k) = Chunk_loop (drop start ts) bs k" for k
  proof (induction "length ts - (start + k)" arbitrary: k rule: less_induct)
    case less
    show ?case
    proof (cases "start + k < length ts")
      case True
      then have "Chunk_loop ts bs (start + (k + bs)) = Chunk_loop (drop start ts) bs (k + bs)"
        using assms by (intro less) auto
      then show ?thesis
        using True assms
        by (simp add: Chunk_loop_step drop_drop add.assoc add.commute add.left_commute)
    next
      case False
      then show ?thesis by (simp add: Chunk_loop_done)
    qed
  qed
  from this [of 0] show ?thesis by simp
qed

lemma Chunk_loop_unfold:
  assumes "0 < bs" and "ts \<noteq> []"
  shows "Chunk_loop ts bs 0 = take bs ts # Chunk_loop (drop bs ts) bs 0"
  using assms Chunk_loop_step [of bs 0 ts] Chunk_loop_drop [of bs ts bs] by simp

lemma Chunk_loop_Nil [simp]: "Chunk_loop [] bs 0 = []"
  by (simp add: Chunk_loop_done)

lemma chunk_induct:
  assumes "0 < (bs :: nat)" and "P []"
    and "\<And>ts :: u32 list. ts \<noteq> [] \<Longrightarrow> P (drop bs ts) \<Longrightarrow> P ts"
  shows "P ts"
proof (induction ts rule: length_induct)
  case (1 ts)
  then show ?case using assms by (cases "ts = []") auto
qed

lemma Chunk_loop_eq_Nil:
  assumes "0 < bs"
  shows "Chunk_loop ts bs 0 = [] \<longleftrightarrow> ts = []"
  by (cases "ts = []") (auto simp: Chunk_loop_unfold [OF assms])

lemma concat_Chunk_loop:
  assumes "0 < bs"
  shows "concat (Chunk_loop ts bs 0) = ts"
proof (induction ts rule: chunk_induct [OF assms, case_names Nil Step])
  case (Step ts)
  then show ?case by (simp add: Chunk_loop_unfold [OF assms Step(1)])
qed simp

lemma Chunk_loop_sizes:
  assumes "0 < bs"
  shows "\<forall>c \<in> set (Chunk_loop ts bs 0). 0 < length c \<and> length c \<le> bs"
    and "\<forall>c \<in> set (butlast (Chunk_loop ts bs 0)). length c = bs"
proof -
  show "\<forall>c \<in> set (Chunk_loop ts bs 0). 0 < length c \<and> length c \<le> bs"
  proof (induction ts rule: chunk_induct [OF assms, case_names Nil Step])
    case (Step ts)
    then show ?case using assms by (auto simp: Chunk_loop_unfold [OF assms Step(1)])
  qed simp
  show "\<forall>c \<in> set (butlast (Chunk_loop ts bs 0)). length c = bs"
  proof (induction ts rule: chunk_induct [OF assms, case_names Nil Step])
    case (Step ts)
    then show ?case
      by (cases "Chunk_loop (drop bs ts) bs 0 = []")
        (auto simp: Chunk_loop_unfold [OF assms Step(1)] Chunk_loop_eq_Nil [OF assms])
  qed simp
qed

lemma Chunk_loop_take:
  assumes "0 < bs"
  shows "Chunk_loop (take (k * bs) ts) bs 0 = take k (Chunk_loop ts bs 0)"
  using assms
proof (induction k arbitrary: ts)
  case (Suc k)
  show ?case
  proof (cases "ts = []")
    case False
    then have "take (Suc k * bs) ts \<noteq> []" using assms by auto
    then have "Chunk_loop (take (Suc k * bs) ts) bs 0 =
        take bs (take (Suc k * bs) ts) # Chunk_loop (drop bs (take (Suc k * bs) ts)) bs 0"
      by (rule Chunk_loop_unfold [OF assms])
    moreover have "take bs (take (Suc k * bs) ts) = take bs ts" by (simp add: min_def)
    moreover have "drop bs (take (Suc k * bs) ts) = take (k * bs) (drop bs ts)"
      by (simp add: drop_take)
    ultimately show ?thesis
      using Suc.IH [of "drop bs ts"] assms by (simp add: Chunk_loop_unfold [OF assms False])
  qed simp
qed simp

lemma length_Chunk_loop:
  assumes "0 < bs"
  shows "length (Chunk_loop ts bs 0) = (length ts + bs - 1) div bs"
proof (induction ts rule: chunk_induct [OF assms, case_names Nil Step])
  case (Step ts)
  show ?case
  proof (cases "length ts \<le> bs")
    case True
    then have "(length ts + bs - 1) div bs = 1"
      using Step assms by (cases ts) (auto intro!: div_nat_eqI)
    then show ?thesis using True Step assms by (simp add: Chunk_loop_unfold [OF assms Step(1)])
  next
    case False
    then have "length ts + bs - 1 = bs + (length ts - 1)"
      and "length ts - bs + bs - 1 = length ts - 1" using assms by auto
    moreover have "(bs + (length ts - 1)) div bs = Suc ((length ts - 1) div bs)"
      using assms by (simp add: div_add_self1)
    ultimately have "(length ts + bs - 1) div bs = Suc ((length ts - bs + bs - 1) div bs)"
      by (simp only:)
    then show ?thesis using Step assms by (simp add: Chunk_loop_unfold [OF assms Step(1)])
  qed
qed (use assms in simp)

subsection \<open>Chains\<close>

lemma length_Root [simp]: "length (Root m bs) = 32"
  by (simp add: Root_def)

lemma length_Next [simp]: "length (Next p ts) = 32"
  by (simp add: Next_def)

lemma length_Build_loop [simp]: "length (Build_loop p blks) = length blks"
  by (induction blks arbitrary: p) auto

lemma take_Build_loop: "take k (Build_loop p blks) = Build_loop p (take k blks)"
  by (induction blks arbitrary: k p) (auto simp: take_Cons split: nat.split)

lemma Build_loop_HashSize: "h \<in> set (Build_loop p blks) \<Longrightarrow> length h = HashSize"
  by (induction blks arbitrary: p) (auto simp: HashSize_def)

lemma PutUint32_inj: "PutUint32 v = PutUint32 w \<longleftrightarrow> v = w"
proof
  assume "PutUint32 v = PutUint32 w"
  then have *: "bit (ucast (drop_bit 24 v) :: byte) n = bit (ucast (drop_bit 24 w) :: byte) n"
    "bit (ucast (drop_bit 16 v) :: byte) n = bit (ucast (drop_bit 16 w) :: byte) n"
    "bit (ucast (drop_bit 8 v) :: byte) n = bit (ucast (drop_bit 8 w) :: byte) n"
    "bit (ucast v :: byte) n = bit (ucast w :: byte) n" for n
    by (auto simp: PutUint32_def)
  show "v = w"
  proof (rule bit_word_eqI)
    fix n assume n: "n < LENGTH(32)"
    consider "n < 8" | "8 \<le> n" "n < 16" | "16 \<le> n" "n < 24" | "24 \<le> n" by linarith
    then show "bit v n = bit w n"
    proof cases
      case 1 then show ?thesis using * (4) [of n] by (simp add: bit_simps less_diff_conv2)
    next
      case 2 then show ?thesis using * (3) [of "n - 8"] by (simp add: bit_simps less_diff_conv2)
    next
      case 3 then show ?thesis using * (2) [of "n - 16"] by (simp add: bit_simps less_diff_conv2)
    next
      case 4 then show ?thesis using * (1) [of "n - 24"] n by (simp add: bit_simps less_diff_conv2)
    qed
  qed
qed simp

lemma PutUint32_neq_Nil [simp]: "PutUint32 w \<noteq> []"
  by (simp add: PutUint32_def)

lemma concat_PutUint32_inj:
  "concat (map PutUint32 xs) = concat (map PutUint32 ys) \<longleftrightarrow> xs = ys"
proof (induction xs arbitrary: ys)
  case Nil
  then show ?case by (cases ys) simp_all
next
  case (Cons x xs)
  then show ?case by (cases ys) (simp_all add: PutUint32_inj append_eq_append_conv)
qed

lemma next_input_inj:
  "length p = length q \<Longrightarrow> next_input p xs = next_input q ys \<longleftrightarrow> p = q \<and> xs = ys"
  by (simp add: next_input_def concat_PutUint32_inj)

lemma length_next_input: "length (next_input p xs) = length p + 4 * length xs"
  by (induction xs) (auto simp: next_input_def)

lemma length_root_input: "length (root_input m bs) = length m + 4"
  by (simp add: root_input_def bytes_of_string_def)

lemma Build_loop_nth:
  "i < length blks \<Longrightarrow> Build_loop p blks ! i = Sum256 (loop_inputs p blks ! i)"
  by (induction blks arbitrary: p i) (auto simp: Next_def nth_Cons split: nat.split)

lemma length_loop_inputs [simp]: "length (loop_inputs p blks) = length blks"
  by (induction blks arbitrary: p) auto

lemma loop_inputs_nth:
  "i < length blks \<Longrightarrow>
   loop_inputs p blks ! i = next_input ((p # Build_loop p blks) ! i) (blks ! i)"
  by (induction blks arbitrary: p i) (auto simp: nth_Cons split: nat.split)

lemma length_Build_loop_parent:
  "i \<le> length blks \<Longrightarrow> length p = 32 \<Longrightarrow> length ((p # Build_loop p blks) ! i) = 32"
  using Build_loop_HashSize [of "Build_loop p blks ! (i - 1)" p blks]
  by (cases i) (auto simp: HashSize_def)

lemma loop_inputs_eqD:
  assumes "i < length A" and "j < length B" and "length r = 32"
    and "loop_inputs r A ! i = loop_inputs r B ! j"
  shows "(r # Build_loop r A) ! i = (r # Build_loop r B) ! j \<and> A ! i = B ! j"
proof -
  have "next_input ((r # Build_loop r A) ! i) (A ! i) = next_input ((r # Build_loop r B) ! j) (B ! j)"
    using assms by (simp only: loop_inputs_nth)
  moreover have "length ((r # Build_loop r A) ! i) = length ((r # Build_loop r B) ! j)"
    using assms by (simp only: length_Build_loop_parent less_imp_le)
  ultimately show ?thesis by (simp only: next_input_inj)
qed

text \<open>
  Equal IDs force equal prefixes, or exhibit two different byte strings, both hashed by the two
  runs, with the same SHA-256.
\<close>

definition collides :: "bytes set \<Rightarrow> bytes set \<Rightarrow> bool" where
  "collides X Y \<longleftrightarrow> (\<exists>x \<in> X. \<exists>y \<in> Y. x \<noteq> y \<and> Sum256 x = Sum256 y)"

lemma not_collidesD:
  "\<not> collides X Y \<Longrightarrow> x \<in> X \<Longrightarrow> y \<in> Y \<Longrightarrow> Sum256 x = Sum256 y \<Longrightarrow> x = y"
  by (auto simp: collides_def)

lemma loop_inputs_mem: "i < length A \<Longrightarrow> loop_inputs r A ! i \<in> set (loop_inputs r A)"
  by (simp add: nth_mem)

lemma Root_eqD:
  "Root m bs = Build_loop r B ! j \<Longrightarrow> j < length B \<Longrightarrow>
   Sum256 (root_input m bs) = Sum256 (loop_inputs r B ! j)"
  by (simp add: Root_def Build_loop_nth)

lemma loop_inputs_eqI:
  assumes "\<not> collides (insert x (set (loop_inputs r A))) (insert x (set (loop_inputs r B)))"
    and "i < length A" and "j < length B" and "Build_loop r A ! i = Build_loop r B ! j"
  shows "loop_inputs r A ! i = loop_inputs r B ! j"
  by (rule not_collidesD [OF assms(1)]) (use assms(2-) in \<open>auto simp: Build_loop_nth\<close>)

lemma root_input_not_next:
  assumes "length m < 32" and "i < length A" and "\<forall>c \<in> set A. c \<noteq> []"
  shows "loop_inputs (Root m bs) A ! i \<noteq> root_input m bs"
proof
  assume "loop_inputs (Root m bs) A ! i = root_input m bs"
  then have "length (root_input m bs) = 32 + 4 * length (A ! i)"
    using length_next_input [of "(Root m bs # Build_loop (Root m bs) A) ! i" "A ! i"] assms(2)
    by (simp only: loop_inputs_nth length_Build_loop_parent less_imp_le length_Root)
  moreover have "A ! i \<noteq> []" using assms by simp
  ultimately show False using assms(1) by (cases "A ! i") (auto simp: length_root_input)
qed

lemma Build_loop_prefix:
  assumes "length m < 32" and "\<forall>c \<in> set A. c \<noteq> []" and "\<forall>c \<in> set B. c \<noteq> []"
    and "\<not> collides (insert (root_input m bs) (set (loop_inputs (Root m bs) A)))
                     (insert (root_input m bs) (set (loop_inputs (Root m bs) B)))"
    and "i < length A" and "j < length B"
    and "Build_loop (Root m bs) A ! i = Build_loop (Root m bs) B ! j"
  shows "i = j \<and> take (Suc i) A = take (Suc j) B"
  using assms(5-)
proof (induction i arbitrary: j)
  case (0 j)
  let ?r = "Root m bs"
  have eq: "loop_inputs ?r A ! 0 = loop_inputs ?r B ! j"
    using 0 by (intro loop_inputs_eqI [OF assms(4)])
  then have par: "(?r # Build_loop ?r A) ! 0 = (?r # Build_loop ?r B) ! j \<and> A ! 0 = B ! j"
    using 0 by (intro loop_inputs_eqD) auto
  have "j = 0"
  proof (rule ccontr)
    assume "j \<noteq> 0"
    then obtain j' where j': "j = Suc j'" by (cases j) auto
    then have "?r = Build_loop ?r B ! j'" using par by simp
    then have "Sum256 (root_input m bs) = Sum256 (loop_inputs ?r B ! j')"
      using 0(2) j' by (intro Root_eqD) simp_all
    moreover have "loop_inputs ?r B ! j' \<noteq> root_input m bs"
      using 0 j' assms(1,3) by (intro root_input_not_next) auto
    moreover have "loop_inputs ?r B ! j' \<in> set (loop_inputs ?r B)"
      using 0 j' by (intro loop_inputs_mem) simp
    ultimately show False using not_collidesD [OF assms(4) insertI1 insertI2] by metis
  qed
  then show ?case using par 0(1,2) by (simp add: take_Suc_conv_app_nth)
next
  case (Suc i j)
  let ?r = "Root m bs"
  have eq: "loop_inputs ?r A ! Suc i = loop_inputs ?r B ! j"
    using Suc.prems by (intro loop_inputs_eqI [OF assms(4)])
  then have par: "(?r # Build_loop ?r A) ! Suc i = (?r # Build_loop ?r B) ! j \<and> A ! Suc i = B ! j"
    using Suc.prems by (intro loop_inputs_eqD) auto
  show ?case
  proof (cases j)
    case 0
    then have "?r = Build_loop ?r A ! i" using par by simp
    then have "Sum256 (root_input m bs) = Sum256 (loop_inputs ?r A ! i)"
      using Suc.prems(1) by (intro Root_eqD) simp_all
    moreover have "loop_inputs ?r A ! i \<noteq> root_input m bs"
      using Suc.prems assms(1,2) by (intro root_input_not_next) auto
    moreover have "loop_inputs ?r A ! i \<in> set (loop_inputs ?r A)"
      using Suc.prems by (intro loop_inputs_mem) simp
    ultimately show ?thesis using not_collidesD [OF assms(4) insertI2 insertI1] by metis
  next
    case (Suc j')
    then have "i = j' \<and> take (Suc i) A = take (Suc j') B"
      using par Suc.prems by (intro Suc.IH) auto
    then have "i = j'" and "take (Suc i) A = take (Suc i) B" by auto
    then show ?thesis using Suc par Suc.prems(1,2)
      by (simp add: take_Suc_conv_app_nth [of "Suc j'"])
  qed
qed

subsection \<open>Properties\<close>

text \<open>
  C39: chunking loses and reorders nothing: whenever \<^const>\<open>Chunk\<close> returns, the concatenation of
  its blocks is the prompt, no block is empty or longer than the block size, every block but the
  last is full, and the number of blocks is the prompt length divided by the block size, rounded
  up; it panics exactly for a non-positive block size.
\<close>

theorem Chunk_partition:
  "(Chunk ts n = None \<longleftrightarrow> n \<le> 0) \<and>
   (case Chunk ts n of None \<Rightarrow> True | Some cs \<Rightarrow>
      concat cs = ts \<and>
      list_all (\<lambda>c. 0 < length c \<and> length c \<le> nat n) cs \<and>
      list_all (\<lambda>c. length c = nat n) (butlast cs) \<and>
      length cs = (length ts + nat n - 1) div nat n)"
proof (cases "n \<le> 0")
  case False
  then have "0 < nat n" by simp
  then show ?thesis
    using False Chunk_loop_sizes [of "nat n" ts] concat_Chunk_loop [of "nat n" ts]
    by (simp add: Chunk_def length_Chunk_loop list_all_iff)
qed (simp add: Chunk_def)

text \<open>
  The chain of a shortened prompt is a prefix of the chain: cutting a prompt after \<open>k\<close> whole
  blocks yields exactly the first \<open>k\<close> IDs, so two prompts that share their first \<open>k\<close> blocks share
  \<open>h_1 .. h_k\<close>. Every ID is \<^const>\<open>HashSize\<close> bytes long and there is one per block.
\<close>

theorem Build_prefix:
  "map_option (take k) (Build m n ts) = Build m n (take (k * nat n) ts) \<and>
   pred_option (\<lambda>ids. length ids = (length ts + nat n - 1) div nat n \<and>
                      list_all (\<lambda>h. length h = HashSize) ids) (Build m n ts)"
proof (cases "n \<le> 0")
  case False
  then have pos: "0 < nat n" by simp
  show ?thesis
    using False Build_loop_HashSize
    by (auto simp: Build_def Chunk_def take_Build_loop Chunk_loop_take [OF pos]
        length_Chunk_loop [OF pos] list_all_iff)
qed (simp add: Build_def Chunk_def)



text \<open>
  C40: the root and the blocks are not hashed in separate domains. For every block ID and every
  token, the model whose ID is the string of the block ID's bytes, at the block size the token
  denotes, has that very block's child as its root; and block sizes that agree modulo
  \<open>2 ^ 32\<close> share one root. So chains of different models or block sizes can collide without any
  collision of SHA-256.
\<close>

theorem Root_collides_with_Next:
  "Root (map (\<lambda>b. char_of (unat b)) h) (uint t) = Next h [t] \<and>
   Root m (n + 2 ^ 32 * q) = Root m n"
proof -
  have "bytes_of_string (map (\<lambda>b. char_of (unat b)) h) = h"
    by (simp add: bytes_of_string_def comp_def map_idI unsigned_less [THEN order_less_le_trans]
        of_char_of take_bit_nat_eq_self)
  moreover have "(word_of_int (n + 2 ^ 32 * q) :: u32) = word_of_int n"
    by (simp only: word_of_int_eq_iff) (simp add: take_bit_eq_mod)
  ultimately show ?thesis
    by (simp add: Root_def Next_def root_input_def next_input_def)
qed

end
