(* ===== verification/Blockstore.thy ===== *)
theory Blockstore
  imports Prelude "HOL-Library.Multiset"
begin

text \<open>
  The cache node's block store: the data and the interface of \<^verbatim>\<open>internal/blockstore/store.go\<close> and
  the plain LRU store of \<^verbatim>\<open>lru.go\<close>. The Go interface \<^verbatim>\<open>Store\<close> is a record of its methods over a
  state; \<open>None\<close> is a panic. What a client may rely on is the locale \<open>store_contract\<close>, which both
  stores are shown to satisfy.
\<close>

subsection \<open>Blocks and the interface\<close>

record blk =
  bID :: block_id
  bParentID :: block_id
  bModelID :: string
  bPayload :: bytes
  bTokenCount :: u32
  bCostUS :: u64

record StatsRec =
  OccupancyBytes :: u64
  StCapacityBytes :: u64
  Hits :: u64
  Misses :: u64
  Evictions :: u64
  EvictedCostUS :: u64

definition stats0 :: StatsRec where
  "stats0 = \<lparr>OccupancyBytes = 0, StCapacityBytes = 0, Hits = 0, Misses = 0, Evictions = 0, EvictedCostUS = 0\<rparr>"

record 's store_ops =
  st_Put :: "blk \<Rightarrow> 's \<Rightarrow> (bool \<times> 's) option"
  st_Get :: "block_id \<Rightarrow> 's \<Rightarrow> (blk option \<times> 's) option"
  st_Contains :: "block_id \<Rightarrow> 's \<Rightarrow> (bool \<times> 's) option"
  st_Touch :: "block_id \<Rightarrow> 's \<Rightarrow> 's option"
  st_Stats :: "'s \<Rightarrow> StatsRec"

text \<open>A Go slice is shorter than \<open>2 ^ 63\<close>.\<close>

definition blk_ok :: "blk \<Rightarrow> bool" where
  "blk_ok b \<longleftrightarrow> length (bPayload b) < 2 ^ 63"

text \<open>Clients reach a store only through its methods; a run of calls, in the order the lock admits them.\<close>

datatype store_cmd = CPut blk | CGet block_id | CContains block_id | CTouch block_id

fun exec_store :: "'s store_ops \<Rightarrow> store_cmd \<Rightarrow> 's \<Rightarrow> 's option" where
  "exec_store ops (CPut b) s = map_option snd (st_Put ops b s)"
| "exec_store ops (CGet i) s = map_option snd (st_Get ops i s)"
| "exec_store ops (CContains i) s = map_option snd (st_Contains ops i s)"
| "exec_store ops (CTouch i) s = st_Touch ops i s"

fun run_store :: "'s store_ops \<Rightarrow> store_cmd list \<Rightarrow> 's \<Rightarrow> 's option" where
  "run_store ops [] s = Some s"
| "run_store ops (c # cs) s = (case exec_store ops c s of None \<Rightarrow> None | Some s' \<Rightarrow> run_store ops cs s')"

text \<open>
  The contract: no operation panics; \<open>Get\<close> returns exactly what is stored and \<open>Contains\<close> whether it is;
  looking and touching change no contents; a \<open>Put\<close> that stores makes the block retrievable and may
  drop others but never alters one; a \<open>Put\<close> that does not store changes no contents, and a block that
  is present is never stored again.
\<close>

locale store_contract =
  fixes ops :: "'s store_ops" and contents :: "'s \<Rightarrow> block_id \<rightharpoonup> blk" and wf :: "'s \<Rightarrow> bool"
  assumes get: "wf s \<Longrightarrow> \<exists>s'. st_Get ops i s = Some (contents s i, s') \<and> wf s' \<and> contents s' = contents s"
    and has: "wf s \<Longrightarrow> \<exists>s'. st_Contains ops i s = Some (contents s i \<noteq> None, s') \<and> wf s' \<and> contents s' = contents s"
    and touch: "wf s \<Longrightarrow> \<exists>s'. st_Touch ops i s = Some s' \<and> wf s' \<and> contents s' = contents s"
    and put: "wf s \<Longrightarrow> blk_ok b \<Longrightarrow> \<exists>r s'. st_Put ops b s = Some (r, s') \<and> wf s' \<and>
      (if r then contents s (bID b) = None \<and> contents s' (bID b) = Some b \<and>
         contents s' \<subseteq>\<^sub>m (contents s)(bID b \<mapsto> b)
       else contents s' = contents s)"
begin

lemma put_get:
  assumes "wf s" and "blk_ok b" and "st_Put ops b s = Some (True, s')"
  shows "\<exists>s''. st_Get ops (bID b) s' = Some (Some b, s'') \<and> wf s''"
  using put [OF assms(1,2)] get [of s' "bID b"] assms(3) by auto

text \<open>Anything a store returns was put into it, if it was so before.\<close>

lemma put_origin:
  assumes "wf s" and "blk_ok b" and "st_Put ops b s = Some (r, s')" and "contents s' i = Some x"
  shows "contents s i = Some x \<or> i = bID b \<and> x = b"
proof -
  have "contents s' = contents s \<or> contents s' \<subseteq>\<^sub>m (contents s)(bID b \<mapsto> b)"
    using put [OF assms(1,2)] assms(3) by (auto split: if_splits)
  then have "contents s i = Some x \<or> ((contents s)(bID b \<mapsto> b)) i = Some x"
    using assms(4) by (metis domI map_le_def)
  then show ?thesis by (auto split: if_splits)
qed

lemma exec_total:
  assumes "wf s" and "\<forall>b. c = CPut b \<longrightarrow> blk_ok b"
  shows "\<exists>s'. exec_store ops c s = Some s' \<and> wf s' \<and>
    (\<forall>i x. contents s' i = Some x \<longrightarrow> contents s i = Some x \<or> c = CPut x \<and> bID x = i)"
proof (cases c)
  case (CPut b)
  then obtain r s' where "st_Put ops b s = Some (r, s')" "wf s'" using put [OF assms(1), of b] assms(2) by auto
  then show ?thesis using CPut put_origin [OF assms(1), of b r s'] assms(2) by auto
next
  case (CGet i)
  then show ?thesis using get [OF assms(1), of i] by auto
next
  case (CContains i)
  then show ?thesis using has [OF assms(1), of i] by auto
next
  case (CTouch i)
  then show ?thesis using touch [OF assms(1), of i] by auto
qed

lemma run_total:
  "wf s \<Longrightarrow> \<forall>b. CPut b \<in> set cs \<longrightarrow> blk_ok b \<Longrightarrow>
   \<exists>s'. run_store ops cs s = Some s' \<and> wf s' \<and>
     (\<forall>i x. contents s' i = Some x \<longrightarrow> contents s i = Some x \<or> CPut x \<in> set cs \<and> bID x = i)"
proof (induction cs arbitrary: s)
  case (Cons c cs)
  then obtain s1 where s1: "exec_store ops c s = Some s1" "wf s1"
    "\<forall>i x. contents s1 i = Some x \<longrightarrow> contents s i = Some x \<or> c = CPut x \<and> bID x = i"
    using exec_total [OF Cons.prems(1), of c] by auto
  moreover have "\<forall>b. CPut b \<in> set cs \<longrightarrow> blk_ok b" using Cons.prems(2) by simp
  ultimately obtain s' where "run_store ops cs s1 = Some s'" "wf s'"
    "\<forall>i x. contents s' i = Some x \<longrightarrow> contents s1 i = Some x \<or> CPut x \<in> set cs \<and> bID x = i"
    using Cons.IH by blast
  then show ?case using s1 by (intro exI [of _ s']) fastforce
qed simp

text \<open>From an empty store, every answer is a block that was put under the id asked for.\<close>

lemma serves_only_puts:
  assumes "wf s" and "contents s = Map.empty" and "\<forall>b. CPut b \<in> set cs \<longrightarrow> blk_ok b"
  shows "\<exists>s'. run_store ops cs s = Some s' \<and> wf s' \<and> (\<forall>i. \<exists>r s''. st_Get ops i s' = Some (r, s'') \<and>
    (\<forall>x. r = Some x \<longrightarrow> bID x = i \<and> CPut x \<in> set cs))"
proof -
  obtain s' where s': "run_store ops cs s = Some s'" "wf s'"
    "\<And>i x. contents s' i = Some x \<Longrightarrow> CPut x \<in> set cs \<and> bID x = i"
    using run_total [OF assms(1,3)] assms(2) by auto
  then show ?thesis using get [OF s'(2)] by (intro exI [of _ s']) metis
qed

end

subsection \<open>The LRU store\<close>

definition perBlockOverhead :: u64 where
  "perBlockOverhead = 128"

record lru_entry =
  eblock :: blk
  esize :: u64

text \<open>
  The list of \<^verbatim>\<open>container/list\<close> pairs each element's handle (its pointer) with its value, front first;
  the map leads from ids to handles.
\<close>

record LRU =
  lcap :: u64
  used :: u64
  ll :: "(nat \<times> lru_entry) list"
  litems :: "block_id \<rightharpoonup> nat"
  nextEl :: nat
  lstats :: StatsRec

definition NewLRU :: "u64 \<Rightarrow> LRU" where
  "NewLRU capacityBytes =
     \<lparr>lcap = capacityBytes, used = 0, ll = [], litems = Map.empty, nextEl = 0, lstats = stats0\<rparr>"

definition blockSize :: "blk \<Rightarrow> u64" where
  "blockSize b = of_nat (length (bPayload b)) + perBlockOverhead"

definition MoveToFront :: "nat \<Rightarrow> (nat \<times> 'a) list \<Rightarrow> (nat \<times> 'a) list" where
  "MoveToFront h xs = (case map_of xs h of None \<Rightarrow> xs | Some e \<Rightarrow> (h, e) # filter (\<lambda>(k, _). k \<noteq> h) xs)"

definition evictOldest :: "LRU \<Rightarrow> LRU option" where
  "evictOldest s =
     (if ll s = [] then None
      else let (h, e) = last (ll s)
           in Some (s\<lparr>ll := filter (\<lambda>(k, _). k \<noteq> h) (ll s),
                      litems := (litems s)(bID (eblock e) := None),
                      used := used s - esize e,
                      lstats := (lstats s)\<lparr>Evictions := Evictions (lstats s) + 1,
                        EvictedCostUS := EvictedCostUS (lstats s) + bCostUS (eblock e)\<rparr>\<rparr>))"

text \<open>The eviction loop of \<open>Put\<close>; every turn shortens the list, and an empty list panics.\<close>

function evict_loop :: "u64 \<Rightarrow> LRU \<Rightarrow> LRU option" where
  "evict_loop sz s =
     (if used s + sz > lcap s
      then (case evictOldest s of None \<Rightarrow> None | Some s' \<Rightarrow> evict_loop sz s')
      else Some s)"
  by pat_completeness auto
termination
proof (relation "measure (\<lambda>(sz, s). length (ll s))", goal_cases)
  case (2 sz s s')
  obtain h e where l: "last (ll s) = (h, e)" by fastforce
  have ne: "ll s \<noteq> []" and s': "ll s' = filter (\<lambda>(k, _). k \<noteq> h) (ll s)"
    using 2 l by (auto simp: evictOldest_def Let_def split: if_splits)
  have "(h, e) \<in> set (ll s)" using last_in_set [OF ne] l by simp
  then have "length (filter (\<lambda>(k, _). k \<noteq> h) (ll s)) < length (ll s)" by (rule length_filter_less) simp
  then show ?case by (simp add: s')
qed simp

declare evict_loop.simps [simp del]

definition LRU_Put :: "blk \<Rightarrow> LRU \<Rightarrow> (bool \<times> LRU) option" where
  "LRU_Put b s =
     (let sz = blockSize b
      in case litems s (bID b) of
           Some el \<Rightarrow> Some (False, s\<lparr>ll := MoveToFront el (ll s)\<rparr>)
         | None \<Rightarrow>
             if sz > lcap s then Some (False, s)
             else (case evict_loop sz s of
                     None \<Rightarrow> None
                   | Some s1 \<Rightarrow>
                       Some (True, s1\<lparr>ll := (nextEl s1, \<lparr>eblock = b, esize = sz\<rparr>) # ll s1, nextEl := Suc (nextEl s1),
                                      litems := (litems s1)(bID b \<mapsto> nextEl s1), used := used s1 + sz\<rparr>)))"

definition LRU_Get :: "block_id \<Rightarrow> LRU \<Rightarrow> (blk option \<times> LRU) option" where
  "LRU_Get i s =
     (case litems s i of
        None \<Rightarrow> Some (None, s\<lparr>lstats := (lstats s)\<lparr>Misses := Misses (lstats s) + 1\<rparr>\<rparr>)
      | Some el \<Rightarrow>
          let s1 = s\<lparr>lstats := (lstats s)\<lparr>Hits := Hits (lstats s) + 1\<rparr>, ll := MoveToFront el (ll s)\<rparr>
          in (case map_of (ll s) el of None \<Rightarrow> None | Some e \<Rightarrow> Some (Some (eblock e), s1)))"

definition LRU_Contains :: "block_id \<Rightarrow> LRU \<Rightarrow> (bool \<times> LRU) option" where
  "LRU_Contains i s =
     (case litems s i of
        None \<Rightarrow> Some (False, s\<lparr>lstats := (lstats s)\<lparr>Misses := Misses (lstats s) + 1\<rparr>\<rparr>)
      | Some el \<Rightarrow>
          Some (True, s\<lparr>lstats := (lstats s)\<lparr>Hits := Hits (lstats s) + 1\<rparr>, ll := MoveToFront el (ll s)\<rparr>))"

definition LRU_Touch :: "block_id \<Rightarrow> LRU \<Rightarrow> LRU option" where
  "LRU_Touch i s = (case litems s i of None \<Rightarrow> Some s | Some el \<Rightarrow> Some (s\<lparr>ll := MoveToFront el (ll s)\<rparr>))"

definition LRU_Stats :: "LRU \<Rightarrow> StatsRec" where
  "LRU_Stats s = (lstats s)\<lparr>OccupancyBytes := used s, StCapacityBytes := lcap s\<rparr>"

definition lru_ops :: "LRU store_ops" where
  "lru_ops = \<lparr>st_Put = LRU_Put, st_Get = LRU_Get, st_Contains = LRU_Contains, st_Touch = LRU_Touch, st_Stats = LRU_Stats\<rparr>"

subsection \<open>The LRU store keeps its contract\<close>

definition lru_blocks :: "LRU \<Rightarrow> blk list" where
  "lru_blocks s = map (\<lambda>(h, e). eblock e) (ll s)"

definition lru_contents :: "LRU \<Rightarrow> block_id \<rightharpoonup> blk" where
  "lru_contents s = map_of (map (\<lambda>(h, e). (bID (eblock e), eblock e)) (ll s))"

definition lru_total :: "(nat \<times> lru_entry) list \<Rightarrow> nat" where
  "lru_total xs = (\<Sum>(h, e) \<leftarrow> xs. unat (esize e))"

definition lru_wf :: "LRU \<Rightarrow> bool" where
  "lru_wf s \<longleftrightarrow>
     lcap s < 2 ^ 63 \<and> distinct (map fst (ll s)) \<and> distinct (map (\<lambda>(h, e). bID (eblock e)) (ll s)) \<and>
     (\<forall>(h, e) \<in> set (ll s). h < nextEl s \<and> esize e = blockSize (eblock e) \<and> blk_ok (eblock e)) \<and>
     (\<forall>i h. litems s i = Some h \<longleftrightarrow> (\<exists>e. (h, e) \<in> set (ll s) \<and> bID (eblock e) = i)) \<and>
     unat (used s) = lru_total (ll s) \<and> used s \<le> lcap s"

lemma filter_one_key:
  assumes "distinct (map f (ys @ x # zs))"
  shows "filter (\<lambda>y. f y \<noteq> f x) (ys @ x # zs) = ys @ zs"
proof -
  have "f y \<noteq> f x" if "y \<in> set ys \<union> set zs" for y using assms that by (auto simp: rev_image_eqI)
  then have "filter (\<lambda>y. f y \<noteq> f x) ys = ys" "filter (\<lambda>y. f y \<noteq> f x) zs = zs" by (auto intro: filter_True)
  then show ?thesis by simp
qed

lemma split_at_handle:
  assumes "distinct (map fst xs)" and "map_of xs h = Some e"
  shows "\<exists>ys zs. xs = ys @ (h, e) # zs \<and> filter (\<lambda>(k, _). k \<noteq> h) xs = ys @ zs"
proof -
  obtain ys zs where xs: "xs = ys @ (h, e) # zs" using map_of_SomeD [OF assms(2)] by (meson split_list)
  then show ?thesis using filter_one_key [of fst ys "(h, e)" zs] assms(1) by (auto simp: case_prod_unfold)
qed

lemma mset_MoveToFront:
  assumes "distinct (map fst xs)"
  shows "mset (MoveToFront h xs) = mset xs"
proof (cases "map_of xs h")
  case (Some e)
  then obtain ys zs where "xs = ys @ (h, e) # zs" "filter (\<lambda>(k, _). k \<noteq> h) xs = ys @ zs"
    using split_at_handle [OF assms Some] by blast
  then have "MoveToFront h xs = (h, e) # ys @ zs" "mset xs = mset ((h, e) # ys @ zs)"
    using Some by (simp_all only: MoveToFront_def option.case mset.simps mset_append) simp_all
  then show ?thesis by simp
qed (simp add: MoveToFront_def)

lemma map_of_mset_eq:
  assumes "mset xs = mset ys" and "distinct (map fst xs)"
  shows "map_of xs = map_of ys"
proof -
  have "mset (map fst ys) = mset (map fst xs)" using assms(1) by simp
  then have "distinct (map fst ys)" using assms(2) mset_eq_imp_distinct_iff by blast
  then show ?thesis using map_of_inject_set [OF assms(2)] mset_eq_setD [OF assms(1)] by blast
qed

lemma lru_wf_perm:
  assumes "lru_wf s" and "mset xs = mset (ll s)"
  shows "lru_wf (s\<lparr>ll := xs\<rparr>)" and "lru_contents (s\<lparr>ll := xs\<rparr>) = lru_contents s"
proof -
  have st: "set xs = set (ll s)" using assms(2) by (rule mset_eq_setD)
  have d: "distinct (map g xs) \<longleftrightarrow> distinct (map g (ll s))" for g :: "nat \<times> lru_entry \<Rightarrow> 'b"
    using assms(2) by (intro mset_eq_imp_distinct_iff) simp
  have t: "lru_total xs = lru_total (ll s)"
    unfolding lru_total_def sum_mset_sum_list [symmetric] mset_map assms(2) ..
  show "lru_wf (s\<lparr>ll := xs\<rparr>)" using assms(1) by (simp add: lru_wf_def st d t)
  have "distinct (map fst (map (\<lambda>(h, e). (bID (eblock e), eblock e)) xs))"
    using assms(1) d [of "\<lambda>(h, e). bID (eblock e)"] by (simp add: lru_wf_def comp_def case_prod_unfold)
  then show "lru_contents (s\<lparr>ll := xs\<rparr>) = lru_contents s"
    unfolding lru_contents_def using assms(2) by (intro map_of_mset_eq) simp_all
qed

lemma lru_wf_stats [simp]:
  "lru_wf (s\<lparr>lstats := x\<rparr>) \<longleftrightarrow> lru_wf s" "lru_contents (s\<lparr>lstats := x\<rparr>) = lru_contents s"
  "lru_wf (s\<lparr>lstats := x, ll := y\<rparr>) \<longleftrightarrow> lru_wf (s\<lparr>ll := y\<rparr>)"
  "lru_contents (s\<lparr>lstats := x, ll := y\<rparr>) = lru_contents (s\<lparr>ll := y\<rparr>)"
  by (simp_all add: lru_wf_def lru_contents_def)

lemma lru_wf_move:
  assumes "lru_wf s"
  shows "lru_wf (s\<lparr>ll := MoveToFront h (ll s)\<rparr>)" "lru_contents (s\<lparr>ll := MoveToFront h (ll s)\<rparr>) = lru_contents s"
  using lru_wf_perm [OF assms mset_MoveToFront] assms by (simp_all add: lru_wf_def)

lemma lru_items:
  assumes "lru_wf s"
  shows "litems s i = None \<longleftrightarrow> lru_contents s i = None"
    and "litems s i = Some h \<Longrightarrow> \<exists>e. map_of (ll s) h = Some e \<and> lru_contents s i = Some (eblock e)"
proof -
  have it: "litems s i = Some h \<longleftrightarrow> (\<exists>e. (h, e) \<in> set (ll s) \<and> bID (eblock e) = i)" for h
    using assms by (simp add: lru_wf_def)
  have d: "distinct (map fst (ll s))" "distinct (map fst (map (\<lambda>(h, e). (bID (eblock e), eblock e)) (ll s)))"
    using assms by (simp_all add: lru_wf_def comp_def case_prod_unfold)
  have "lru_contents s i = None \<longleftrightarrow> (\<forall>(h, e) \<in> set (ll s). bID (eblock e) \<noteq> i)"
    by (force simp: lru_contents_def map_of_eq_None_iff)
  then show "litems s i = None \<longleftrightarrow> lru_contents s i = None" using it by (cases "litems s i") fastforce+
  show "\<exists>e. map_of (ll s) h = Some e \<and> lru_contents s i = Some (eblock e)" if h: "litems s i = Some h"
  proof -
    obtain e where e: "(h, e) \<in> set (ll s)" "bID (eblock e) = i" using it h by blast
    then have "map_of (ll s) h = Some e" using d(1) by (simp add: map_of_is_SomeI)
    moreover have "lru_contents s i = Some (eblock e)"
      unfolding lru_contents_def using e by (intro map_of_is_SomeI [OF d(2)]) force
    ultimately show ?thesis by blast
  qed
qed

lemma lru_wfD:
  assumes "lru_wf s"
  shows "distinct (map fst (ll s))" "distinct (map (\<lambda>(h, e). bID (eblock e)) (ll s))"
    "unat (used s) = lru_total (ll s)" "used s \<le> lcap s" "lcap s < 2 ^ 63"
  using assms by (simp_all add: lru_wf_def)

lemma lru_used_add:
  assumes "lru_wf s" and "sz \<le> lcap s"
  shows "unat (used s + sz) = lru_total (ll s) + unat sz"
proof -
  have "unat (lcap s) < 2 ^ 63" using assms(1) unat_mono [of "lcap s" "2 ^ 63"] by (simp add: lru_wf_def)
  moreover have "unat (used s) = lru_total (ll s)" "used s \<le> lcap s" using assms(1) by (simp_all add: lru_wf_def)
  moreover have "unat (used s) \<le> unat (lcap s)" "unat sz \<le> unat (lcap s)"
    using calculation(3) assms(2) by (simp_all only: word_le_nat_alt)
  ultimately show ?thesis by (simp add: unat_plus_if')
qed

lemma lru_total_append [simp]: "lru_total (xs @ ys) = lru_total xs + lru_total ys"
  by (simp add: lru_total_def)

lemma lru_total_Cons [simp]: "lru_total ((h, e) # xs) = unat (esize e) + lru_total xs" "lru_total [] = 0"
  by (simp_all add: lru_total_def)

lemma evictOldest_wf:
  assumes wf: "lru_wf s" and l: "ll s = xs @ [(h, e)]"
  shows "\<exists>s1. evictOldest s = Some s1 \<and> lru_wf s1 \<and> ll s1 = xs \<and> lcap s1 = lcap s \<and> nextEl s1 = nextEl s"
proof -
  have "h \<notin> fst ` set xs" using lru_wfD(1) [OF wf] by (simp add: l)
  then have f: "filter (\<lambda>(k, _). k \<noteq> h) xs = xs" by (auto intro!: filter_True rev_image_eqI)
  have d: "bID (eblock x) \<noteq> bID (eblock e)" if "(k, x) \<in> set xs" for k x
    using lru_wfD(2) [OF wf] that by (force simp: l)
  have u: "unat (used s) = lru_total xs + unat (esize e)" using lru_wfD(3) [OF wf] by (simp add: l)
  then have e: "esize e \<le> used s" by (simp add: word_le_nat_alt)
  let ?s = "s\<lparr>ll := xs, litems := (litems s)(bID (eblock e) := None), used := used s - esize e,
     lstats := (lstats s)\<lparr>Evictions := Evictions (lstats s) + 1,
       EvictedCostUS := EvictedCostUS (lstats s) + bCostUS (eblock e)\<rparr>\<rparr>"
  have t: "unat (used s - esize e) = lru_total xs" using e u by (simp add: unat_sub)
  have c: "used s - esize e \<le> lcap s" using lru_wfD(4) [OF wf] word_sub_le [OF e] by simp
  have "((litems s)(bID (eblock e) := None)) i = Some k \<longleftrightarrow> (\<exists>x. (k, x) \<in> set xs \<and> bID (eblock x) = i)" for i k
    using wf d by (auto simp: lru_wf_def l)
  then have "lru_wf ?s" using wf t c by (simp add: lru_wf_def l)
  moreover have "evictOldest s = Some ?s" by (simp add: evictOldest_def l f)
  ultimately show ?thesis by simp
qed

lemma evict_loop_wf:
  "lru_wf s \<Longrightarrow> sz \<le> lcap s \<Longrightarrow>
   \<exists>s' k. evict_loop sz s = Some s' \<and> lru_wf s' \<and> ll s' = take k (ll s) \<and> lcap s' = lcap s \<and> nextEl s' = nextEl s \<and>
     lru_total (take k (ll s)) + unat sz \<le> unat (lcap s) \<and>
     (k < length (ll s) \<longrightarrow> unat (lcap s) < lru_total (take (Suc k) (ll s)) + unat sz)"
proof (induction sz s rule: evict_loop.induct)
  case (1 sz s)
  note tot = lru_used_add [OF 1(2,3)]
  show ?case
  proof (cases "used s + sz > lcap s")
    case True
    then have over: "unat (lcap s) < lru_total (ll s) + unat sz" using tot by (simp add: word_less_nat_alt)
    with 1(3) have "ll s \<noteq> []" by (auto simp: word_le_nat_alt)
    then obtain xs h e where l: "ll s = xs @ [(h, e)]" by (metis rev_exhaust surj_pair)
    obtain s1 where s1: "evictOldest s = Some s1" "lru_wf s1" "ll s1 = xs" "lcap s1 = lcap s" "nextEl s1 = nextEl s"
      using evictOldest_wf [OF 1(2) l] by blast
    have "sz \<le> lcap s1" using 1(3) s1 by simp
    from 1(1) [OF True s1(1) s1(2) this] obtain s' k where k: "evict_loop sz s1 = Some s'" "lru_wf s'" "ll s' = take k xs"
      "lcap s' = lcap s" "nextEl s' = nextEl s" "lru_total (take k xs) + unat sz \<le> unat (lcap s)"
      "k < length xs \<longrightarrow> unat (lcap s) < lru_total (take (Suc k) xs) + unat sz"
      unfolding s1 by blast
    have "evict_loop sz s = Some s'" using True s1(1) k(1) by (subst evict_loop.simps) simp
    moreover define m where "m = min k (length xs)"
    then have "take m (ll s) = take k xs" by (cases "k \<le> length xs") (simp_all add: l)
    moreover have "unat (lcap s) < lru_total (take (Suc m) (ll s)) + unat sz" if "m < length (ll s)"
      using k(7) over by (cases "k < length xs") (simp_all add: m_def l)
    ultimately show ?thesis using k by (intro exI [of _ s'] exI [of _ m]) simp
  next
    case False
    then have "evict_loop sz s = Some s" by (subst evict_loop.simps) simp
    moreover have "lru_total (ll s) + unat sz \<le> unat (lcap s)" using False tot by (simp add: word_less_nat_alt)
    ultimately show ?thesis using 1(2) by (intro exI [of _ s] exI [of _ "length (ll s)"]) simp
  qed
qed

text \<open>The bytes a list of blocks is charged, in unbounded arithmetic.\<close>

definition blocks_bytes :: "blk list \<Rightarrow> nat" where
  "blocks_bytes bs = (\<Sum>b \<leftarrow> bs. length (bPayload b) + 128)"

lemma blocks_bytes_simps [simp]:
  "blocks_bytes (b # bs) = length (bPayload b) + 128 + blocks_bytes bs" "blocks_bytes [] = 0"
  by (simp_all add: blocks_bytes_def)

lemma unat_blockSize: "blk_ok b \<Longrightarrow> unat (blockSize b) = length (bPayload b) + 128"
proof -
  assume "blk_ok b"
  then have l: "length (bPayload b) < 2 ^ 63" by (simp add: blk_ok_def)
  then have "unat (of_nat (length (bPayload b)) :: u64) = length (bPayload b)" by (simp add: unat_of_nat take_bit_nat_eq_self)
  then show ?thesis using l by (simp add: blockSize_def perBlockOverhead_def unat_plus_if')
qed

lemma lru_total_blocks:
  assumes "lru_wf s" and "set xs \<subseteq> set (ll s)"
  shows "lru_total xs = blocks_bytes (map (\<lambda>(h, e). eblock e) xs)"
proof -
  have "unat (esize e) = length (bPayload (eblock e)) + 128" if "(h, e) \<in> set xs" for h e
    using assms that unat_blockSize by (fastforce simp: lru_wf_def)
  then show ?thesis
    unfolding lru_total_def blocks_bytes_def map_map
    by (intro arg_cong [of _ _ sum_list] map_cong) auto
qed

lemma lru_blocks_move:
  assumes wf: "lru_wf s" and h: "litems s i = Some h"
  shows "\<exists>x. lru_contents s i = Some x \<and>
    lru_blocks (s\<lparr>ll := MoveToFront h (ll s)\<rparr>) = x # filter (\<lambda>y. bID y \<noteq> i) (lru_blocks s)"
proof -
  obtain e where e: "map_of (ll s) h = Some e" "lru_contents s i = Some (eblock e)" using lru_items(2) [OF wf h] by blast
  then have i: "bID (eblock e) = i" by (auto simp: lru_contents_def dest!: map_of_SomeD)
  obtain ys zs where l: "ll s = ys @ (h, e) # zs" and f: "filter (\<lambda>(k, _). k \<noteq> h) (ll s) = ys @ zs"
    using split_at_handle [OF lru_wfD(1) [OF wf] e(1)] by blast
  have "distinct (map bID (lru_blocks s))"
    using lru_wfD(2) [OF wf] by (simp add: lru_blocks_def comp_def case_prod_unfold)
  then have "filter (\<lambda>y. bID y \<noteq> i) (lru_blocks s) = map (\<lambda>(h, e). eblock e) (ys @ zs)"
    using filter_one_key [of bID "map (\<lambda>(h, e). eblock e) ys" "eblock e" "map (\<lambda>(h, e). eblock e) zs"]
    by (simp add: lru_blocks_def l i)
  then show ?thesis using e by (simp add: lru_blocks_def MoveToFront_def f)
qed

lemma lru_wf_New: "cap < 2 ^ 63 \<Longrightarrow> lru_wf (NewLRU cap)"
  by (simp add: lru_wf_def NewLRU_def)

lemma lru_push_wf:
  assumes wf: "lru_wf s" and ok: "blk_ok b" and new: "lru_contents s (bID b) = None"
    and room: "lru_total (ll s) + unat (blockSize b) \<le> unat (lcap s)"
  defines "s' \<equiv> s\<lparr>ll := (nextEl s, \<lparr>eblock = b, esize = blockSize b\<rparr>) # ll s, nextEl := Suc (nextEl s),
                   litems := (litems s)(bID b \<mapsto> nextEl s), used := used s + blockSize b\<rparr>"
  shows "lru_wf s'" "lru_contents s' = (lru_contents s)(bID b \<mapsto> b)" "lru_blocks s' = b # lru_blocks s"
proof -
  have sz: "blockSize b \<le> lcap s" using room by (simp add: word_le_nat_alt)
  have u: "unat (used s + blockSize b) = lru_total (ll s) + unat (blockSize b)" by (rule lru_used_add [OF wf sz])
  have h: "h < nextEl s" if "(h, e) \<in> set (ll s)" for h e using wf that by (auto simp: lru_wf_def)
  have n: "bID (eblock e) \<noteq> bID b" if "(h, e) \<in> set (ll s)" for h e
    using new that by (force simp: lru_contents_def map_of_eq_None_iff)
  have it: "((litems s)(bID b \<mapsto> nextEl s)) i = Some k \<longleftrightarrow>
      (\<exists>e. (k, e) \<in> set (ll s') \<and> bID (eblock e) = i)" for i k
  proof (cases "i = bID b")
    case True
    have "(\<exists>e. (k, e) \<in> set (ll s') \<and> bID (eblock e) = i) \<longleftrightarrow> k = nextEl s" unfolding s'_def True using n by force
    then show ?thesis using True by auto
  next
    case False
    have "(\<exists>e. (k, e) \<in> set (ll s') \<and> bID (eblock e) = i) \<longleftrightarrow> (\<exists>e. (k, e) \<in> set (ll s) \<and> bID (eblock e) = i)"
      unfolding s'_def using False by force
    then show ?thesis using False wf by (simp add: lru_wf_def)
  qed
  have "used s + blockSize b \<le> lcap s" using u room by (simp add: word_le_nat_alt)
  moreover have "distinct (map fst (ll s'))" "distinct (map (\<lambda>(h, e). bID (eblock e)) (ll s'))"
  proof -
    have "nextEl s \<notin> fst ` set (ll s)" "bID b \<notin> (\<lambda>(h, e). bID (eblock e)) ` set (ll s)" using h n by fastforce+
    then show "distinct (map fst (ll s'))" "distinct (map (\<lambda>(h, e). bID (eblock e)) (ll s'))"
      using lru_wfD(1,2) [OF wf] by (simp_all add: s'_def)
  qed
  moreover have "\<forall>(h, e) \<in> set (ll s'). h < nextEl s' \<and> esize e = blockSize (eblock e) \<and> blk_ok (eblock e)"
    using wf ok by (auto simp: lru_wf_def s'_def less_Suc_eq)
  ultimately show "lru_wf s'" using it u lru_wfD(5) [OF wf] by (simp add: lru_wf_def s'_def)
  show "lru_contents s' = (lru_contents s)(bID b \<mapsto> b)" "lru_blocks s' = b # lru_blocks s"
    by (simp_all add: lru_contents_def lru_blocks_def s'_def)
qed

lemma lru_take:
  assumes "ll s' = take k (ll s)" and "lru_wf s"
  shows "lru_blocks s' = take k (lru_blocks s)" "lru_contents s' \<subseteq>\<^sub>m lru_contents s"
proof -
  show "lru_blocks s' = take k (lru_blocks s)" by (simp add: lru_blocks_def assms(1) take_map)
  have "distinct (map fst (map (\<lambda>(h, e). (bID (eblock e), eblock e)) (ll s)))"
    using lru_wfD(2) [OF assms(2)] by (simp add: comp_def case_prod_unfold)
  moreover have "set (ll s') \<subseteq> set (ll s)" by (simp add: assms(1) set_take_subset)
  ultimately have "lru_contents s i = Some x" if "lru_contents s' i = Some x" for i x
    using that unfolding lru_contents_def by (intro map_of_is_SomeI) (force dest!: map_of_SomeD)+
  then show "lru_contents s' \<subseteq>\<^sub>m lru_contents s" by (fastforce simp: map_le_def dom_def)
qed

lemma LRU_Put_new:
  assumes wf: "lru_wf s" and ok: "blk_ok b" and new: "lru_contents s (bID b) = None"
    and fits: "length (bPayload b) + 128 \<le> unat (lcap s)"
  shows "\<exists>s' k. LRU_Put b s = Some (True, s') \<and> lru_wf s' \<and> lcap s' = lcap s \<and>
    lru_contents s' (bID b) = Some b \<and> lru_contents s' \<subseteq>\<^sub>m (lru_contents s)(bID b \<mapsto> b) \<and>
    lru_blocks s' = b # take k (lru_blocks s) \<and>
    (k < length (lru_blocks s) \<longrightarrow> unat (lcap s) < blocks_bytes (b # take (Suc k) (lru_blocks s)))"
proof -
  note sz = unat_blockSize [OF ok]
  then have le: "blockSize b \<le> lcap s" using fits by (simp add: word_le_nat_alt)
  obtain s1 k where s1: "evict_loop (blockSize b) s = Some s1" "lru_wf s1" "ll s1 = take k (ll s)" "lcap s1 = lcap s"
    "lru_total (ll s1) + unat (blockSize b) \<le> unat (lcap s1)"
    and k: "k < length (ll s) \<longrightarrow> unat (lcap s) < lru_total (take (Suc k) (ll s)) + unat (blockSize b)"
    using evict_loop_wf [OF wf le] by auto
  note t = lru_take [OF s1(3) wf]
  have n1: "lru_contents s1 (bID b) = None" using t(2) new by (metis domIff map_le_implies_dom_le subsetD)
  note push = lru_push_wf [OF s1(2) ok n1 s1(5)]
  have "litems s (bID b) = None" using lru_items(1) [OF wf] new by simp
  then have r: "LRU_Put b s = Some (True, s1\<lparr>ll := (nextEl s1, \<lparr>eblock = b, esize = blockSize b\<rparr>) # ll s1,
      nextEl := Suc (nextEl s1), litems := (litems s1)(bID b \<mapsto> nextEl s1), used := used s1 + blockSize b\<rparr>)"
    (is "_ = Some (True, ?s)") using le s1(1) by (simp add: LRU_Put_def Let_def not_less)
  have "lru_total (take (Suc k) (ll s)) = blocks_bytes (take (Suc k) (lru_blocks s))"
    using lru_total_blocks [OF wf set_take_subset] by (simp add: lru_blocks_def take_map)
  then have "k < length (lru_blocks s) \<longrightarrow> unat (lcap s) < blocks_bytes (b # take (Suc k) (lru_blocks s))"
    using k sz by (simp add: lru_blocks_def add.commute)
  moreover have "lru_contents ?s \<subseteq>\<^sub>m (lru_contents s)(bID b \<mapsto> b)"
    unfolding push(2) using t(2) by (rule map_le_upd)
  ultimately show ?thesis using r push t(1) s1(4) by (intro exI [of _ ?s] exI [of _ k]) simp
qed

lemma LRU_Put_present:
  assumes wf: "lru_wf s" and x: "lru_contents s (bID b) = Some x"
  shows "\<exists>s'. LRU_Put b s = Some (False, s') \<and> lru_wf s' \<and> lcap s' = lcap s \<and> lru_contents s' = lru_contents s \<and>
    lru_blocks s' = x # filter (\<lambda>y. bID y \<noteq> bID b) (lru_blocks s)"
proof -
  obtain h where h: "litems s (bID b) = Some h" using lru_items(1) [OF wf, of "bID b"] x by (cases "litems s (bID b)") auto
  show ?thesis using lru_wf_move [OF wf, of h] lru_blocks_move [OF wf h] x by (simp add: LRU_Put_def Let_def h)
qed

lemma LRU_Put_big:
  assumes "lru_wf s" and "blk_ok b" and "lru_contents s (bID b) = None" and "unat (lcap s) < length (bPayload b) + 128"
  shows "LRU_Put b s = Some (False, s)"
  using assms unat_blockSize lru_items(1) [OF assms(1), of "bID b"]
  by (simp add: LRU_Put_def Let_def word_less_nat_alt)

interpretation lru: store_contract lru_ops lru_contents lru_wf
proof
  fix s i assume wf: "lru_wf s"
  note m = lru_wf_move [OF wf] lru_items [OF wf, of i]
  show "\<exists>s'. st_Get lru_ops i s = Some (lru_contents s i, s') \<and> lru_wf s' \<and> lru_contents s' = lru_contents s"
    using wf m by (cases "litems s i") (auto simp: lru_ops_def LRU_Get_def Let_def)
  show "\<exists>s'. st_Contains lru_ops i s = Some (lru_contents s i \<noteq> None, s') \<and> lru_wf s' \<and> lru_contents s' = lru_contents s"
    using wf m by (cases "litems s i") (auto simp: lru_ops_def LRU_Contains_def)
  show "\<exists>s'. st_Touch lru_ops i s = Some s' \<and> lru_wf s' \<and> lru_contents s' = lru_contents s"
    using wf m by (cases "litems s i") (auto simp: lru_ops_def LRU_Touch_def)
next
  fix s b assume wf: "lru_wf s" and ok: "blk_ok b"
  show "\<exists>r s'. st_Put lru_ops b s = Some (r, s') \<and> lru_wf s' \<and>
      (if r then lru_contents s (bID b) = None \<and> lru_contents s' (bID b) = Some b \<and>
         lru_contents s' \<subseteq>\<^sub>m (lru_contents s)(bID b \<mapsto> b) else lru_contents s' = lru_contents s)"
  proof (cases "lru_contents s (bID b)")
    case None
    then show ?thesis using LRU_Put_new [OF wf ok None] LRU_Put_big [OF wf ok None] wf
      by (cases "length (bPayload b) + 128 \<le> unat (lcap s)") (auto simp: lru_ops_def)
  next
    case (Some x)
    then show ?thesis using LRU_Put_present [OF wf Some] by (auto simp: lru_ops_def)
  qed
qed

subsection \<open>Properties of the LRU store\<close>

definition demo_blk :: "byte \<Rightarrow> blk" where
  "demo_blk n = \<lparr>bID = [n], bParentID = [], bModelID = ''m'', bPayload = [0, 0], bTokenCount = 0, bCostUS = 0\<rparr>"

definition demo_lru :: LRU where
  "demo_lru = (NewLRU 200)\<lparr>used := 130, ll := [(0, \<lparr>eblock = demo_blk 1, esize = 130\<rparr>)],
     litems := [[1] \<mapsto> 0], nextEl := 1\<rparr>"

lemma demo_lru_run: "run_store lru_ops [CPut (demo_blk 1)] (NewLRU 200) = Some demo_lru"
  by (simp add: lru_ops_def LRU_Put_def NewLRU_def Let_def blockSize_def demo_blk_def perBlockOverhead_def
      evict_loop.simps demo_lru_def)

lemma demo_lru_wf: "lru_wf demo_lru"
  using lru.run_total [OF lru_wf_New, of 200 "[CPut (demo_blk 1)]"] demo_lru_run
  by (simp add: blk_ok_def demo_blk_def)

text \<open>
  C34: \<open>Put\<close> on the LRU store keeps its accounting exact and evicts in least-recently-used order, no more
  than needed. A block already there is moved to the front and reported as not stored. A block larger
  than the capacity leaves the store untouched. Otherwise the block is stored in front of the most
  recently used blocks, the ones dropped are a suffix of the recency order, the bytes charged are the
  sum over the blocks that remain and fit the capacity, and keeping one more block would not have fitted.
  No call panics. The capacity is below 2^63 bytes (\<open>lru_wf\<close>).
\<close>

theorem LRU_Put_evicts_oldest:
  assumes "lru_wf s" and "blk_ok b"
  shows "\<exists>stored s'. LRU_Put b s = Some (stored, s') \<and> lru_wf s' \<and>
    unat (OccupancyBytes (LRU_Stats s')) = blocks_bytes (lru_blocks s') \<and> blocks_bytes (lru_blocks s') \<le> unat (lcap s) \<and>
    (case lru_contents s (bID b) of
       Some x \<Rightarrow> \<not> stored \<and> lru_blocks s' = x # filter (\<lambda>y. bID y \<noteq> bID b) (lru_blocks s)
     | None \<Rightarrow>
         if unat (lcap s) < length (bPayload b) + 128 then \<not> stored \<and> s' = s
         else stored \<and> (\<exists>k. lru_blocks s' = b # take k (lru_blocks s) \<and>
           (k < length (lru_blocks s) \<longrightarrow> unat (lcap s) < blocks_bytes (b # take (Suc k) (lru_blocks s)))))"
proof -
  have acc: "unat (OccupancyBytes (LRU_Stats t)) = blocks_bytes (lru_blocks t) \<and> blocks_bytes (lru_blocks t) \<le> unat (lcap t)"
    if "lru_wf t" for t
    using lru_wfD(3,4) [OF that] lru_total_blocks [OF that subset_refl]
    by (simp add: LRU_Stats_def lru_blocks_def word_le_nat_alt)
  show ?thesis
  proof (cases "lru_contents s (bID b)")
    case None
    show ?thesis
    proof (cases "unat (lcap s) < length (bPayload b) + 128")
      case True
      then show ?thesis using LRU_Put_big [OF assms None] acc assms(1) None by auto
    next
      case False
      then show ?thesis using LRU_Put_new [OF assms None] acc None by (simp add: not_less) metis
    qed
  next
    case (Some x)
    then show ?thesis using LRU_Put_present [OF assms(1) Some] acc by fastforce
  qed
qed

theorem LRU_Put_evicts_oldest_witness:
  "\<exists>s'. LRU_Put (demo_blk 2) demo_lru = Some (True, s') \<and> lru_blocks s' = [demo_blk 2]"
proof -
  have "lru_contents demo_lru (bID (demo_blk 2)) = None" "lru_blocks demo_lru = [demo_blk 1]" "unat (lcap demo_lru) = 200"
    "length (bPayload (demo_blk n)) = 2" for n
    by (simp_all add: lru_contents_def lru_blocks_def demo_lru_def demo_blk_def NewLRU_def)
  then show ?thesis
    using LRU_Put_evicts_oldest [OF demo_lru_wf, of "demo_blk 2"] by (auto simp: blk_ok_def take_Cons' split: if_splits)
qed

text \<open>
  C35: a round trip through the LRU store: after a \<open>Put\<close> that reports the block as stored, \<open>Get\<close> of its id
  returns exactly that block.
\<close>

theorem LRU_Put_Get_roundtrip:
  assumes "lru_wf s" and "blk_ok b" and "LRU_Put b s = Some (True, s')"
  shows "\<exists>s''. LRU_Get (bID b) s' = Some (Some b, s'') \<and> lru_wf s''"
  using lru.put_get [OF assms(1,2), of s'] assms(3) by (simp add: lru_ops_def)

theorem LRU_Put_Get_roundtrip_witness:
  "\<exists>s''. LRU_Get [1] demo_lru = Some (Some (demo_blk 1), s'')"
proof -
  have "LRU_Put (demo_blk 1) (NewLRU 200) = Some (True, demo_lru)"
    by (simp add: LRU_Put_def NewLRU_def Let_def blockSize_def demo_blk_def perBlockOverhead_def
        evict_loop.simps demo_lru_def)
  then show ?thesis using LRU_Put_Get_roundtrip [OF lru_wf_New, of 200 "demo_blk 1" demo_lru]
    by (auto simp: blk_ok_def demo_blk_def)
qed

text \<open>
  An LRU store of any capacity below 2^63 bytes never panics and never serves a block nobody put:
  after any sequence of calls on a new store, whatever \<open>Get\<close> returns for an id is a block with that id
  which one of the calls put, and the bytes charged are within the capacity.
\<close>

theorem LRU_serves_only_puts:
  assumes "cap < 2 ^ 63" and "\<forall>b. CPut b \<in> set cs \<longrightarrow> blk_ok b"
  shows "\<exists>s'. run_store lru_ops cs (NewLRU cap) = Some s' \<and> used s' \<le> lcap s' \<and>
    (\<forall>i. \<exists>r s''. LRU_Get i s' = Some (r, s'') \<and> (\<forall>x. r = Some x \<longrightarrow> bID x = i \<and> CPut x \<in> set cs))"
  using lru.serves_only_puts [OF lru_wf_New [OF assms(1)] _ assms(2)] lru_wfD(4)
  by (fastforce simp: lru_ops_def lru_contents_def NewLRU_def)

theorem LRU_serves_only_puts_witness:
  "\<exists>s'. run_store lru_ops [CPut (demo_blk 1), CGet [2]] (NewLRU 200) = Some s' \<and> used s' \<le> lcap s'"
  using LRU_serves_only_puts [of 200 "[CPut (demo_blk 1), CGet [2]]"] by (auto simp: blk_ok_def demo_blk_def)

end
