(* ===== verification/Cachenode.thy ===== *)
theory Cachenode
  imports Chain Messages Blockstore "HOL-Library.Monad_Syntax"
begin

text \<open>
  The cache node's RPC layer, \<^verbatim>\<open>internal/cachenode/server.go\<close>, over any block store. The store is
  a record of methods over a state, as the Go interface; the handlers pass it on and \<open>None\<close> is a panic of
  the store. \<open>mine\<close> is what \<^verbatim>\<open>s.epoch()\<close> yields at the moment of the check, \<open>None\<close> when no epoch source is set.
  What a stream receives is a list, with the epoch in force at each message, and how it ends.
\<close>

subsection \<open>Requests\<close>

record IdsRequest =
  QRingEpoch :: u64
  QBlockIds :: "bytes list"

record CachePutRequest =
  PRingEpoch :: u64
  PBlock :: "Block option"

record CachePutResponse =
  RStored :: u32
  RExisting :: u32

datatype cn_err = Status code | StreamErr

subsection \<open>Handlers\<close>

definition checkEpoch :: "u64 option \<Rightarrow> u64 \<Rightarrow> code option" where
  "checkEpoch mine callerEpoch =
     (if mine = None \<or> callerEpoch = 0 then None
      else if callerEpoch < the mine then Some FailedPrecondition
      else None)"

definition toID :: "bytes \<Rightarrow> code + block_id" where
  "toID b = (if length b \<noteq> HashSize then Inl InvalidArgument else Inr b)"

fun contains_loop :: "'s store_ops \<Rightarrow> bytes list \<Rightarrow> 's \<Rightarrow> ((code + bool list) \<times> 's) option" where
  "contains_loop ops [] s = Some (Inr [], s)"
| "contains_loop ops (raw # raws) s =
     (case toID raw of
        Inl c \<Rightarrow> Some (Inl c, s)
      | Inr i \<Rightarrow> do {
          (present, s1) \<leftarrow> st_Contains ops i s;
          (res, s2) \<leftarrow> contains_loop ops raws s1;
          Some (map_sum id ((#) present) res, s2)
        })"

definition cn_Contains :: "'s store_ops \<Rightarrow> u64 option \<Rightarrow> IdsRequest \<Rightarrow> 's \<Rightarrow> ((code + bool list) \<times> 's) option" where
  "cn_Contains ops mine req s =
     (case checkEpoch mine (QRingEpoch req) of
        Some c \<Rightarrow> Some (Inl c, s)
      | None \<Rightarrow> contains_loop ops (QBlockIds req) s)"

definition toProto :: "blk \<Rightarrow> Block" where
  "toProto b = \<lparr>BlockId = bID b, ParentId = bParentID b, ModelId = bModelID b, Payload = bPayload b,
     TokenCount = bTokenCount b, CostUs = bCostUS b\<rparr>"

definition fromProto :: "Block option \<Rightarrow> code + blk" where
  "fromProto p =
     (case p of
        None \<Rightarrow> Inl InvalidArgument
      | Some p \<Rightarrow>
          (case toID (BlockId p) of
             Inl c \<Rightarrow> Inl c
           | Inr i \<Rightarrow>
               (case toID (ParentId p) of
                  Inl c \<Rightarrow> Inl c
                | Inr par \<Rightarrow> Inr \<lparr>bID = i, bParentID = par, bModelID = ModelId p, bPayload = Payload p,
                    bTokenCount = TokenCount p, bCostUS = CostUs p\<rparr>)))"

text \<open>\<open>room\<close> counts the sends the stream still takes; \<open>None\<close> is a stream that takes all of them.\<close>

fun get_loop :: "'s store_ops \<Rightarrow> nat option \<Rightarrow> bytes list \<Rightarrow> 's \<Rightarrow> ((Block list \<times> cn_err option) \<times> 's) option" where
  "get_loop ops room [] s = Some (([], None), s)"
| "get_loop ops room (raw # raws) s =
     (case toID raw of
        Inl c \<Rightarrow> Some (([], Some (Status c)), s)
      | Inr i \<Rightarrow> do {
          (b, s1) \<leftarrow> st_Get ops i s;
          case b of
            None \<Rightarrow> get_loop ops room raws s1
          | Some b \<Rightarrow>
              if room = Some 0 then Some (([], Some StreamErr), s1)
              else do {
                ((bs, e), s2) \<leftarrow> get_loop ops (map_option (\<lambda>n. n - 1) room) raws s1;
                Some ((toProto b # bs, e), s2)
              }
        })"

definition cn_GetBlocks ::
    "'s store_ops \<Rightarrow> u64 option \<Rightarrow> nat option \<Rightarrow> IdsRequest \<Rightarrow> 's \<Rightarrow> ((Block list \<times> cn_err option) \<times> 's) option" where
  "cn_GetBlocks ops mine room req s =
     (case checkEpoch mine (QRingEpoch req) of
        Some c \<Rightarrow> Some (([], Some (Status c)), s)
      | None \<Rightarrow> get_loop ops room (QBlockIds req) s)"

fun put_loop ::
    "'s store_ops \<Rightarrow> bool \<Rightarrow> (u64 option \<times> CachePutRequest) list \<Rightarrow> u32 \<Rightarrow> u32 \<Rightarrow> 's \<Rightarrow>
     ((cn_err + CachePutResponse) \<times> 's) option" where
  "put_loop ops eof [] stored existing s =
     Some (if eof then Inr \<lparr>RStored = stored, RExisting = existing\<rparr> else Inl StreamErr, s)"
| "put_loop ops eof ((mine, req) # reqs) stored existing s =
     (case checkEpoch mine (PRingEpoch req) of
        Some c \<Rightarrow> Some (Inl (Status c), s)
      | None \<Rightarrow>
          (case fromProto (PBlock req) of
             Inl c \<Rightarrow> Some (Inl (Status c), s)
           | Inr b \<Rightarrow> do {
               (new, s1) \<leftarrow> st_Put ops b s;
               if new then put_loop ops eof reqs (stored + 1) existing s1
               else put_loop ops eof reqs stored (existing + 1) s1
             }))"

definition cn_PutBlocks ::
    "'s store_ops \<Rightarrow> bool \<Rightarrow> (u64 option \<times> CachePutRequest) list \<Rightarrow> 's \<Rightarrow> ((cn_err + CachePutResponse) \<times> 's) option" where
  "cn_PutBlocks ops eof reqs s = put_loop ops eof reqs 0 0 s"

fun touch_loop :: "'s store_ops \<Rightarrow> bytes list \<Rightarrow> 's \<Rightarrow> ((code + unit) \<times> 's) option" where
  "touch_loop ops [] s = Some (Inr (), s)"
| "touch_loop ops (raw # raws) s =
     (case toID raw of
        Inl c \<Rightarrow> Some (Inl c, s)
      | Inr i \<Rightarrow> do { s1 \<leftarrow> st_Touch ops i s; touch_loop ops raws s1 })"

definition cn_Touch :: "'s store_ops \<Rightarrow> u64 option \<Rightarrow> IdsRequest \<Rightarrow> 's \<Rightarrow> ((code + unit) \<times> 's) option" where
  "cn_Touch ops mine req s =
     (case checkEpoch mine (QRingEpoch req) of
        Some c \<Rightarrow> Some (Inl c, s)
      | None \<Rightarrow> touch_loop ops (QBlockIds req) s)"

subsection \<open>What the handlers do over a store that keeps its contract\<close>

definition id_ok :: "bytes \<Rightarrow> bool" where
  "id_ok b \<longleftrightarrow> length b = HashSize"

lemma toID_ok [simp]: "id_ok b \<Longrightarrow> toID b = Inr b" "\<not> id_ok b \<Longrightarrow> toID b = Inl InvalidArgument"
  by (simp_all add: id_ok_def toID_def)

context store_contract
begin

lemma contains_loop_ok:
  "wf s \<Longrightarrow> \<forall>i \<in> set ids. id_ok i \<Longrightarrow>
   \<exists>s'. contains_loop ops ids s = Some (Inr (map (\<lambda>i. contents s i \<noteq> None) ids), s') \<and> wf s' \<and> contents s' = contents s"
proof (induction ids arbitrary: s)
  case (Cons i ids)
  obtain s1 where s1: "st_Contains ops i s = Some (contents s i \<noteq> None, s1)" "wf s1" "contents s1 = contents s"
    using has [OF Cons.prems(1)] by blast
  then show ?case using Cons.IH [OF s1(2)] Cons.prems(2) by auto
qed simp

lemma contains_loop_total:
  "wf s \<Longrightarrow> \<exists>r s'. contains_loop ops ids s = Some (r, s') \<and> wf s' \<and> contents s' = contents s \<and>
     (\<not> (\<forall>i \<in> set ids. id_ok i) \<longrightarrow> r = Inl InvalidArgument)"
proof (induction ids arbitrary: s)
  case (Cons i ids)
  obtain s1 where s1: "st_Contains ops i s = Some (contents s i \<noteq> None, s1)" "wf s1" "contents s1 = contents s"
    using has [OF Cons.prems(1)] by blast
  then show ?case using Cons.IH [OF s1(2)] Cons.prems(1) by (cases "id_ok i") auto
qed simp

lemma get_loop_ok:
  "wf s \<Longrightarrow> \<forall>i \<in> set ids. id_ok i \<Longrightarrow>
   \<exists>s'. get_loop ops None ids s = Some ((map toProto (List.map_filter (contents s) ids), None), s') \<and> wf s' \<and> contents s' = contents s"
proof (induction ids arbitrary: s)
  case (Cons i ids)
  obtain s1 where s1: "st_Get ops i s = Some (contents s i, s1)" "wf s1" "contents s1 = contents s"
    using get [OF Cons.prems(1)] by blast
  then show ?case using Cons.IH [OF s1(2)] Cons.prems(2)
    by (cases "contents s i") (auto simp: map_filter_simps)
qed (simp add: map_filter_simps)

lemma touch_loop_total:
  "wf s \<Longrightarrow> \<exists>r s'. touch_loop ops ids s = Some (r, s') \<and> wf s' \<and> contents s' = contents s \<and>
     r = (if \<forall>i \<in> set ids. id_ok i then Inr () else Inl InvalidArgument)"
proof (induction ids arbitrary: s)
  case (Cons i ids)
  obtain s1 where s1: "st_Touch ops i s = Some s1" "wf s1" "contents s1 = contents s"
    using touch [OF Cons.prems(1)] by blast
  then show ?case using Cons.IH [OF s1(2)] Cons.prems(1) by (cases "id_ok i") auto
qed simp

lemma put_loop_ok:
  "wf s \<Longrightarrow> \<forall>(m, req) \<in> set reqs. checkEpoch m (PRingEpoch req) = None \<and> (\<exists>b. fromProto (PBlock req) = Inr b \<and> blk_ok b) \<Longrightarrow>
   \<exists>n s'. put_loop ops True reqs st ex s =
       Some (Inr \<lparr>RStored = st + word_of_nat n, RExisting = ex + word_of_nat (length reqs - n)\<rparr>, s') \<and>
     n \<le> length reqs \<and> wf s' \<and>
     (\<forall>i x. contents s' i = Some x \<longrightarrow> contents s i = Some x \<or> i = bID x \<and> (\<exists>req \<in> snd ` set reqs. fromProto (PBlock req) = Inr x))"
proof (induction reqs arbitrary: s st ex)
  case (Cons r reqs)
  obtain m req where r: "r = (m, req)" by fastforce
  then obtain b where b: "checkEpoch m (PRingEpoch req) = None" "fromProto (PBlock req) = Inr b" "blk_ok b"
    using Cons.prems(2) by auto
  obtain new s1 where s1: "st_Put ops b s = Some (new, s1)" "wf s1" using put [OF Cons.prems(1) b(3)] by blast
  note or = put_origin [OF Cons.prems(1) b(3) s1(1)]
  have pr: "\<forall>(m, req) \<in> set reqs. checkEpoch m (PRingEpoch req) = None \<and> (\<exists>b. fromProto (PBlock req) = Inr b \<and> blk_ok b)"
    using Cons.prems(2) by simp
  define st' ex' where "st' = (if new then st + 1 else st)" and "ex' = (if new then ex else ex + 1)"
  obtain n s' where n: "put_loop ops True reqs st' ex' s1 =
       Some (Inr \<lparr>RStored = st' + word_of_nat n, RExisting = ex' + word_of_nat (length reqs - n)\<rparr>, s')" "n \<le> length reqs" "wf s'"
     "\<And>i x. contents s' i = Some x \<Longrightarrow> contents s1 i = Some x \<or> i = bID x \<and> (\<exists>req \<in> snd ` set reqs. fromProto (PBlock req) = Inr x)"
    using Cons.IH [OF s1(2) pr, of st' ex'] by blast
  define k where "k = (if new then Suc n else n)"
  have "put_loop ops True (r # reqs) st ex s =
      Some (Inr \<lparr>RStored = st + word_of_nat k, RExisting = ex + word_of_nat (length (r # reqs) - k)\<rparr>, s')"
    using b s1(1) n(1,2) by (cases new) (simp_all add: r st'_def ex'_def k_def Suc_diff_le algebra_simps)
  moreover have "k \<le> length (r # reqs)" using n(2) by (simp add: k_def)
  moreover have "contents s i = Some x \<or> i = bID x \<and> (\<exists>req \<in> snd ` set (r # reqs). fromProto (PBlock req) = Inr x)"
    if "contents s' i = Some x" for i x
    using n(4) [OF that] or [of i x] b(2) r by auto
  ultimately show ?case using n(3) by blast
qed simp

end

subsection \<open>Properties\<close>

lemma fromProto_toProto:
  assumes "id_ok (BlockId p)" and "id_ok (ParentId p)"
  shows "\<exists>b. fromProto (Some p) = Inr b \<and> toProto b = p \<and> bID b = BlockId p \<and> bPayload b = Payload p"
  using assms by (simp add: fromProto_def toProto_def)

text \<open>
  C31: a node serves exactly what it holds. Over any store that keeps the store contract, on ids of
  the right length and an epoch the node accepts, \<open>Contains\<close> answers position by position whether the
  block is stored, and a \<open>GetBlocks\<close> after it streams exactly the blocks reported present, in the order
  asked, each as it is stored. Neither changes what is stored, and nothing panics.
\<close>

theorem node_serves_what_it_holds:
  assumes "store_contract ops contents okst" and "okst s" and "\<forall>i \<in> set ids. id_ok i"
    and "checkEpoch mine e = None" and "checkEpoch mine' e' = None"
  shows "\<exists>s1 s2. cn_Contains ops mine \<lparr>QRingEpoch = e, QBlockIds = ids\<rparr> s = Some (Inr (map (\<lambda>i. contents s i \<noteq> None) ids), s1) \<and>
    cn_GetBlocks ops mine' None \<lparr>QRingEpoch = e', QBlockIds = ids\<rparr> s1 =
      Some ((map toProto (List.map_filter (contents s) ids), None), s2) \<and>
    okst s2 \<and> contents s1 = contents s \<and> contents s2 = contents s"
proof -
  obtain s1 where s1: "contains_loop ops ids s = Some (Inr (map (\<lambda>i. contents s i \<noteq> None) ids), s1)" "okst s1" "contents s1 = contents s"
    using store_contract.contains_loop_ok [OF assms(1-3)] by blast
  obtain s2 where s2: "get_loop ops None ids s1 = Some ((map toProto (List.map_filter (contents s1) ids), None), s2)"
    "okst s2" "contents s2 = contents s1"
    using store_contract.get_loop_ok [OF assms(1) s1(2) assms(3)] by blast
  show ?thesis using s1 s2 assms(4,5) by (simp add: cn_Contains_def cn_GetBlocks_def)
qed

definition demo_id :: "byte \<Rightarrow> bytes" where
  "demo_id n = replicate 32 n"

theorem node_serves_what_it_holds_witness:
  "\<exists>s1 s2. cn_Contains lru_ops (Some 3) \<lparr>QRingEpoch = 4, QBlockIds = [demo_id 7]\<rparr> (NewLRU 200) = Some (Inr [False], s1) \<and>
     cn_GetBlocks lru_ops (Some 3) None \<lparr>QRingEpoch = 0, QBlockIds = [demo_id 7]\<rparr> s1 = Some (([], None), s2)"
  using node_serves_what_it_holds [OF lru.store_contract_axioms lru_wf_New, of 200 "[demo_id 7]" "Some 3" 4 "Some 3" 0]
  by (simp add: id_ok_def demo_id_def HashSize_def checkEpoch_def lru_contents_def NewLRU_def map_filter_simps) blast

text \<open>
  C30: a block written through the node comes back unchanged: when \<open>PutBlocks\<close> of one well-formed block
  reports it stored, \<open>GetBlocks\<close> of its id streams the very message that was sent.
\<close>

theorem PutBlocks_GetBlocks_roundtrip:
  assumes "store_contract ops contents okst" and "okst s" and "id_ok (BlockId p)" and "id_ok (ParentId p)"
    and "length (Payload p) < 2 ^ 63" and "checkEpoch mine' e' = None"
    and "cn_PutBlocks ops True [(mine, \<lparr>PRingEpoch = e, PBlock = Some p\<rparr>)] s = Some (Inr \<lparr>RStored = 1, RExisting = 0\<rparr>, s')"
  shows "\<exists>s''. cn_GetBlocks ops mine' None \<lparr>QRingEpoch = e', QBlockIds = [BlockId p]\<rparr> s' = Some (([p], None), s'')"
proof -
  obtain b where b: "fromProto (Some p) = Inr b" "toProto b = p" "bID b = BlockId p" "bPayload b = Payload p"
    using fromProto_toProto [OF assms(3,4)] by blast
  then have ok: "blk_ok b" using assms(5) by (simp add: blk_ok_def)
  obtain new s1 where p1: "st_Put ops b s = Some (new, s1)" using store_contract.put [OF assms(1,2) ok] by blast
  have "new \<and> s1 = s'"
    using assms(7) b(1) p1 by (cases "checkEpoch mine e") (auto simp: cn_PutBlocks_def split: if_splits)
  then obtain s'' where "st_Get ops (bID b) s' = Some (Some b, s'')"
    using store_contract.put_get [OF assms(1,2) ok, of s'] p1 by auto
  then show ?thesis using assms(3,6) b(2,3) by (simp add: cn_GetBlocks_def)
qed

definition demo_block :: "byte \<Rightarrow> Block" where
  "demo_block n = \<lparr>BlockId = demo_id n, ParentId = demo_id 0, ModelId = ''m'', Payload = [1, 2], TokenCount = 2, CostUs = 9\<rparr>"

lemma demo_put:
  "\<exists>s'. cn_PutBlocks lru_ops True [(None, \<lparr>PRingEpoch = 1, PBlock = Some (demo_block 7)\<rparr>)] (NewLRU 200) =
     Some (Inr \<lparr>RStored = 1, RExisting = 0\<rparr>, s')"
  by (simp add: cn_PutBlocks_def checkEpoch_def fromProto_def demo_block_def toID_def demo_id_def HashSize_def lru_ops_def
      LRU_Put_def NewLRU_def blockSize_def perBlockOverhead_def Let_def evict_loop.simps)

theorem PutBlocks_GetBlocks_roundtrip_witness:
  "\<exists>s' s''. cn_PutBlocks lru_ops True [(None, \<lparr>PRingEpoch = 1, PBlock = Some (demo_block 7)\<rparr>)] (NewLRU 200) =
      Some (Inr \<lparr>RStored = 1, RExisting = 0\<rparr>, s') \<and>
    cn_GetBlocks lru_ops None None \<lparr>QRingEpoch = 1, QBlockIds = [demo_id 7]\<rparr> s' = Some (([demo_block 7], None), s'')"
proof -
  obtain s' where s': "cn_PutBlocks lru_ops True [(None, \<lparr>PRingEpoch = 1, PBlock = Some (demo_block 7)\<rparr>)] (NewLRU 200) =
     Some (Inr \<lparr>RStored = 1, RExisting = 0\<rparr>, s')" using demo_put by blast
  have "id_ok (BlockId (demo_block 7))" "id_ok (ParentId (demo_block 7))" "length (Payload (demo_block 7)) < 2 ^ 63"
    "checkEpoch None 1 = None" "BlockId (demo_block 7) = demo_id 7" "lru_wf (NewLRU 200)"
    by (simp_all add: id_ok_def demo_block_def demo_id_def HashSize_def checkEpoch_def lru_wf_New)
  then show ?thesis using PutBlocks_GetBlocks_roundtrip [OF lru.store_contract_axioms _ _ _ _ _ s', of None 1] s' by auto
qed



text \<open>The reply of \<open>PutBlocks\<close> counts a block the store will never hold as one that was already there.\<close>

lemma refused_block_counted_existing:
  "cn_PutBlocks lru_ops True [(None, \<lparr>PRingEpoch = 1, PBlock = Some (demo_block 7)\<rparr>)] (NewLRU 100) =
     Some (Inr \<lparr>RStored = 0, RExisting = 1\<rparr>, NewLRU 100)"
  by (simp add: cn_PutBlocks_def checkEpoch_def fromProto_def demo_block_def toID_def demo_id_def HashSize_def lru_ops_def
      LRU_Put_def NewLRU_def blockSize_def perBlockOverhead_def Let_def)

end
