(* ===== verification/Paged.thy ===== *)
theory Paged
  imports Blockstore "HOL-Library.Monad_Syntax" "HOL-Library.Stream"
begin

text \<open>
  The paged store of \<^verbatim>\<open>internal/blockstore/paged.go\<close>: block payloads in fixed-size pages of one arena,
  an intrusive doubly linked recency list, a sampling index, and LRU or cost-aware eviction.

  The entries \<^verbatim>\<open>*pagedEntry\<close> live in a heap from addresses to entries, so that the pointer updates of
  the list and of the sampling index are the source's. A pointer that is not nil is always valid in Go,
  so the heap is total and \<open>gnext\<close> is the next fresh address. Floating-point arithmetic is a parameter
  (\<open>float64\<close>): no theorem depends on what it computes. \<^verbatim>\<open>rng.Intn\<close> yields some number below its bound;
  the sequence it yields is a stream of numbers, reduced below the bound. \<open>None\<close> is a panic. Sizes are
  natural numbers: the sum of a payload's length and the page size is far below \<open>2 ^ 63\<close>.
\<close>

subsection \<open>State\<close>

record 'f float64 =
  ofU64 :: "u64 \<Rightarrow> 'f"
  ofInt :: "int \<Rightarrow> 'f"
  fadd :: "'f \<Rightarrow> 'f \<Rightarrow> 'f"
  fsub :: "'f \<Rightarrow> 'f \<Rightarrow> 'f"
  fmul :: "'f \<Rightarrow> 'f \<Rightarrow> 'f"
  fdiv :: "'f \<Rightarrow> 'f \<Rightarrow> 'f"
  fneg :: "'f \<Rightarrow> 'f"
  Exp2 :: "'f \<Rightarrow> 'f"
  fless :: "'f \<Rightarrow> 'f \<Rightarrow> bool"
  fle :: "'f \<Rightarrow> 'f \<Rightarrow> bool"
  fmin :: "'f \<Rightarrow> 'f \<Rightarrow> 'f"

definition EvictLRU :: string where
  "EvictLRU = ''lru''"

definition EvictCost :: string where
  "EvictCost = ''cost''"

definition evictSample :: nat where
  "evictSample = 16"

definition frecencyHalfLife :: nat where
  "frecencyHalfLife = 4096"

record 'f pagedEntry =
  eid :: block_id
  eparentID :: block_id
  emodelID :: string
  etokenCount :: u32
  ecostUS :: u64
  epsize :: nat
  epages :: "32 word list"
  orderIdx :: nat
  lastAccess :: u64
  freq :: 'f
  eprev :: "nat option"
  enext :: "nat option"

record 'f Paged =
  pageSize :: nat
  arena :: bytes
  free :: "32 word list"
  pitems :: "block_id \<rightharpoonup> nat"
  order :: "nat list"
  phead :: "nat option"
  ptail :: "nat option"
  clock :: u64
  rng :: "nat stream"
  pol :: string
  pstats :: StatsRec
  heap :: "nat \<Rightarrow> 'f pagedEntry"
  gnext :: nat

definition NewPaged :: "'f pagedEntry \<Rightarrow> nat stream \<Rightarrow> u64 \<Rightarrow> int \<Rightarrow> string \<Rightarrow> 'f Paged option" where
  "NewPaged e0 seed capacityBytes pgsize policy =
     (if pgsize \<le> 0 then None
      else let nPages = (if sint capacityBytes < 0 then - (- sint capacityBytes div pgsize) else sint capacityBytes div pgsize)
           in if nPages < 0 then None
              else Some \<lparr>pageSize = nat pgsize, arena = replicate (nat (nPages * pgsize)) 0,
                free = map word_of_nat [0..<nat nPages], pitems = Map.empty, order = [], phead = None, ptail = None,
                clock = 0, rng = seed, pol = policy, pstats = stats0\<lparr>StCapacityBytes := word_of_int (nPages * pgsize)\<rparr>,
                heap = (\<lambda>_. e0), gnext = 0\<rparr>)"

definition pagesNeeded :: "'f Paged \<Rightarrow> nat \<Rightarrow> nat" where
  "pagesNeeded p sz = (sz + pageSize p - 1) div pageSize p"

definition upd :: "nat \<Rightarrow> ('f pagedEntry \<Rightarrow> 'f pagedEntry) \<Rightarrow> 'f Paged \<Rightarrow> 'f Paged" where
  "upd a f p = p\<lparr>heap := (heap p)(a := f (heap p a))\<rparr>"

subsection \<open>The intrusive list\<close>

definition lruPushFront :: "nat \<Rightarrow> 'f Paged \<Rightarrow> 'f Paged" where
  "lruPushFront e p =
     (let p1 = upd e (\<lambda>x. x\<lparr>eprev := None, enext := phead p\<rparr>) p;
          p2 = (case phead p1 of None \<Rightarrow> p1 | Some h \<Rightarrow> upd h (\<lambda>x. x\<lparr>eprev := Some e\<rparr>) p1);
          p3 = p2\<lparr>phead := Some e\<rparr>
      in if ptail p3 = None then p3\<lparr>ptail := Some e\<rparr> else p3)"

definition lruRemove :: "nat \<Rightarrow> 'f Paged \<Rightarrow> 'f Paged" where
  "lruRemove e p =
     (let p1 = (case eprev (heap p e) of
                  Some a \<Rightarrow> upd a (\<lambda>x. x\<lparr>enext := enext (heap p e)\<rparr>) p
                | None \<Rightarrow> if phead p = Some e then p\<lparr>phead := enext (heap p e)\<rparr> else p);
          p2 = (case enext (heap p1 e) of
                  Some a \<Rightarrow> upd a (\<lambda>x. x\<lparr>eprev := eprev (heap p1 e)\<rparr>) p1
                | None \<Rightarrow> if ptail p1 = Some e then p1\<lparr>ptail := eprev (heap p1 e)\<rparr> else p1)
      in upd e (\<lambda>x. x\<lparr>eprev := None, enext := None\<rparr>) p2)"

definition lruMoveFront :: "nat \<Rightarrow> 'f Paged \<Rightarrow> 'f Paged" where
  "lruMoveFront e p = (if phead p = Some e then p else lruPushFront e (lruRemove e p))"

subsection \<open>Recency and scores\<close>

definition decay :: "'f float64 \<Rightarrow> u64 \<Rightarrow> 'f pagedEntry \<Rightarrow> 'f" where
  "decay F now e = fmul F (freq e) (Exp2 F (fdiv F (fneg F (ofU64 F (now - lastAccess e))) (ofInt F (int frecencyHalfLife))))"

definition ptouch :: "'f float64 \<Rightarrow> nat \<Rightarrow> 'f Paged \<Rightarrow> 'f Paged" where
  "ptouch F e p =
     (let c = clock p + 1
      in lruMoveFront e (upd e (\<lambda>x. x\<lparr>freq := fadd F (ofInt F 1) (decay F c x), lastAccess := c\<rparr>) (p\<lparr>clock := c\<rparr>)))"

definition score :: "'f float64 \<Rightarrow> nat \<Rightarrow> 'f pagedEntry \<Rightarrow> 'f" where
  "score F ps e = fdiv F (fmul F (freq e) (ofU64 F (ecostUS e))) (ofInt F (int (length (epages e) * ps)))"

definition eScore :: "'f float64 \<Rightarrow> 'f Paged \<Rightarrow> nat \<Rightarrow> 'f" where
  "eScore F p a =
     (let e = heap p a
      in fdiv F (fmul F (decay F (clock p) e) (ofU64 F (ecostUS e))) (ofInt F (int (length (epages e) * pageSize p))))"

subsection \<open>Eviction\<close>

definition Intn :: "nat \<Rightarrow> nat stream \<Rightarrow> nat \<times> nat stream" where
  "Intn n r = (shd r mod n, stl r)"

fun sample_loop :: "'f float64 \<Rightarrow> nat \<Rightarrow> 'f Paged \<Rightarrow> (nat \<times> 'f) option \<Rightarrow> (nat \<times> 'f) option \<times> 'f Paged" where
  "sample_loop F 0 p victim = (victim, p)"
| "sample_loop F (Suc n) p victim =
     (let (k, r) = Intn (length (order p)) (rng p); p1 = p\<lparr>rng := r\<rparr>; e = order p1 ! k; sc = eScore F p1 e
      in sample_loop F n p1
           (case victim of
              None \<Rightarrow> Some (e, sc)
            | Some (v, vs) \<Rightarrow> if fless F sc vs then Some (e, sc) else Some (v, vs)))"

definition pick_victim :: "'f float64 \<Rightarrow> 'f Paged \<Rightarrow> nat option \<times> 'f Paged" where
  "pick_victim F p =
     (if pol p = EvictCost
      then (let (v, p') = sample_loop F (min evictSample (length (order p))) p None in (map_option fst v, p'))
      else (ptail p, p))"

definition release :: "nat \<Rightarrow> 'f Paged \<Rightarrow> 'f Paged option" where
  "release victim p0 =
     (let p1 = lruRemove victim (p0\<lparr>free := free p0 @ epages (heap p0 victim)\<rparr>)
      in if order p1 = [] \<or> length (order p1) \<le> orderIdx (heap p1 victim) then None
         else let lst = last (order p1); i = orderIdx (heap p1 victim);
                  p2 = p1\<lparr>order := (order p1)[i := lst]\<rparr>;
                  p3 = upd lst (\<lambda>x. x\<lparr>orderIdx := orderIdx (heap p2 victim)\<rparr>) p2;
                  p4 = p3\<lparr>order := butlast (order p3), pitems := (pitems p3)(eid (heap p3 victim) := None)\<rparr>
              in Some (p4\<lparr>pstats := (pstats p4)\<lparr>
                   OccupancyBytes := OccupancyBytes (pstats p4) - word_of_nat (length (epages (heap p4 victim)) * pageSize p4),
                   Evictions := Evictions (pstats p4) + 1,
                   EvictedCostUS := EvictedCostUS (pstats p4) + ecostUS (heap p4 victim)\<rparr>\<rparr>))"

definition evictOne :: "'f float64 \<Rightarrow> 'f Paged \<Rightarrow> (bool \<times> 'f Paged) option" where
  "evictOne F p =
     (case pick_victim F p of
        (None, p1) \<Rightarrow> Some (False, p1)
      | (Some v, p1) \<Rightarrow> map_option (Pair True) (release v p1))"

text \<open>
  The eviction loop of \<open>Put\<close>: the answer \<open>False\<close> is its early return. An eviction shortens the
  sampling index, so the loop ends.
\<close>

lemma sample_loop_rng: "\<exists>r. snd (sample_loop F n p v) = p\<lparr>rng := r\<rparr>"
proof (induction n arbitrary: p v)
  case 0
  show ?case by (rule exI [of _ "rng p"]) simp
next
  case (Suc n)
  obtain k r where k: "Intn (length (order p)) (rng p) = (k, r)" by fastforce
  show ?case using Suc.IH [of "p\<lparr>rng := r\<rparr>"] by (simp add: k Let_def)
qed

lemma pick_victim_rng: "\<exists>r. snd (pick_victim F p) = p\<lparr>rng := r\<rparr>"
proof (cases "pol p = EvictCost")
  case True
  then show ?thesis using sample_loop_rng [of F "min evictSample (length (order p))" p None]
    by (auto simp: pick_victim_def case_prod_unfold)
next
  case False
  then show ?thesis by (intro exI [of _ "rng p"]) (simp add: pick_victim_def)
qed

lemma order_upd [simp]: "order (upd a f p) = order p"
  by (simp add: upd_def)

lemma order_lruRemove [simp]: "order (lruRemove e p) = order p"
  by (simp add: lruRemove_def Let_def split: option.splits)

lemma release_order: "release v p = Some p' \<Longrightarrow> length (order p') < length (order p)"
  by (auto simp: release_def Let_def split: if_splits)

function evict_until :: "'f float64 \<Rightarrow> nat \<Rightarrow> 'f Paged \<Rightarrow> (bool \<times> 'f Paged) option" where
  "evict_until F need p =
     (if length (free p) < need
      then (case evictOne F p of
              None \<Rightarrow> None
            | Some (ok, p1) \<Rightarrow> if ok then evict_until F need p1 else Some (False, p1))
      else Some (True, p))"
  by pat_completeness auto
termination
proof (relation "measure (\<lambda>(F, need, p). length (order p))", goal_cases)
  case (2 F need p r ok p1)
  then obtain v q where q: "pick_victim F p = (Some v, q)" "release v q = Some p1"
    by (auto simp: evictOne_def split: prod.splits option.splits)
  then show ?case using release_order [OF q(2)] pick_victim_rng [of F p] by auto
qed simp

declare evict_until.simps [simp del]

subsection \<open>The store's operations\<close>

text \<open>Slicing and \<^verbatim>\<open>copy\<close>; \<open>arena_from\<close> is the start of \<^verbatim>\<open>p.arena[int(pg)*p.pageSize:]\<close>.\<close>

definition go_slice :: "'a list \<Rightarrow> nat \<Rightarrow> nat \<Rightarrow> 'a list option" where
  "go_slice xs lo hi = (if lo \<le> hi \<and> hi \<le> length xs then Some (take (hi - lo) (drop lo xs)) else None)"

definition go_copy :: "'a list \<Rightarrow> nat \<Rightarrow> nat \<Rightarrow> 'a list \<Rightarrow> 'a list" where
  "go_copy dst lo hi src = (let n = min (hi - lo) (length src) in take lo dst @ take n src @ drop (lo + n) dst)"

definition arena_from :: "'f Paged \<Rightarrow> 32 word \<Rightarrow> nat option" where
  "arena_from p pg =
     (let off = sint pg * int (pageSize p) in if off < 0 \<or> off > int (length (arena p)) then None else Some (nat off))"

fun fill_loop :: "bytes \<Rightarrow> nat \<Rightarrow> nat \<Rightarrow> 32 word list \<Rightarrow> 'f Paged \<Rightarrow> (32 word list \<times> 'f Paged) option" where
  "fill_loop payload i 0 pages p = Some (pages, p)"
| "fill_loop payload i (Suc n) pages p =
     (if free p = [] then None
      else let pg = last (free p); p1 = p\<lparr>free := butlast (free p)\<rparr>; lo = i * pageSize p1;
               hi = min (lo + pageSize p1) (length payload)
           in do {
                off \<leftarrow> arena_from p1 pg;
                src \<leftarrow> go_slice payload lo hi;
                fill_loop payload (Suc i) n (pages[i := pg])
                  (p1\<lparr>arena := go_copy (arena p1) off (length (arena p1)) src\<rparr>)
              })"

definition Paged_Put :: "'f float64 \<Rightarrow> blk \<Rightarrow> 'f Paged \<Rightarrow> (bool \<times> 'f Paged) option" where
  "Paged_Put F b p =
     (case pitems p (bID b) of
        Some e \<Rightarrow> Some (False, ptouch F e p)
      | None \<Rightarrow>
          let need = pagesNeeded p (length (bPayload b))
          in if need = 0 \<or> need > length (arena p) div pageSize p then Some (False, p)
             else do {
               (ok, p1) \<leftarrow> evict_until F need p;
               if \<not> ok then Some (False, p1)
               else do {
                 (pages, p2) \<leftarrow> fill_loop (bPayload b) 0 need (replicate need 0) p1;
                 let e = gnext p2;
                     p3 = p2\<lparr>gnext := Suc e, heap := (heap p2)(e := \<lparr>eid = bID b, eparentID = bParentID b,
                       emodelID = bModelID b, etokenCount = bTokenCount b, ecostUS = bCostUS b,
                       epsize = length (bPayload b), epages = pages, orderIdx = length (order p2), lastAccess = 0,
                       freq = ofInt F 0, eprev = None, enext = None\<rparr>),
                       order := order p2 @ [e], pitems := (pitems p2)(bID b \<mapsto> e)\<rparr>;
                     p4 = ptouch F e (lruPushFront e p3)
                 in Some (True, p4\<lparr>pstats := (pstats p4)\<lparr>
                      OccupancyBytes := OccupancyBytes (pstats p4) + word_of_nat (need * pageSize p4)\<rparr>\<rparr>)
               }
             })"

fun read_loop :: "'f Paged \<Rightarrow> nat \<Rightarrow> nat \<Rightarrow> 32 word list \<Rightarrow> bytes \<Rightarrow> bytes option" where
  "read_loop p sz i [] payload = Some payload"
| "read_loop p sz i (pg # pgs) payload =
     (let lo = i * pageSize p; hi = min (lo + pageSize p) sz
      in if hi < lo \<or> length payload < hi then None
         else do {
           off \<leftarrow> arena_from p pg;
           read_loop p sz (Suc i) pgs (go_copy payload lo hi (drop off (arena p)))
         })"

definition Paged_Get :: "'f float64 \<Rightarrow> block_id \<Rightarrow> 'f Paged \<Rightarrow> (blk option \<times> 'f Paged) option" where
  "Paged_Get F i p =
     (case pitems p i of
        None \<Rightarrow> Some (None, p\<lparr>pstats := (pstats p)\<lparr>Misses := Misses (pstats p) + 1\<rparr>\<rparr>)
      | Some a \<Rightarrow>
          let p1 = ptouch F a (p\<lparr>pstats := (pstats p)\<lparr>Hits := Hits (pstats p) + 1\<rparr>\<rparr>); e = heap p1 a
          in do {
               payload \<leftarrow> read_loop p1 (epsize e) 0 (epages e) (replicate (epsize e) 0);
               Some (Some \<lparr>bID = eid e, bParentID = eparentID e, bModelID = emodelID e, bPayload = payload,
                           bTokenCount = etokenCount e, bCostUS = ecostUS e\<rparr>, p1)
             })"

definition Paged_Contains :: "'f float64 \<Rightarrow> block_id \<Rightarrow> 'f Paged \<Rightarrow> (bool \<times> 'f Paged) option" where
  "Paged_Contains F i p =
     (case pitems p i of
        None \<Rightarrow> Some (False, p\<lparr>pstats := (pstats p)\<lparr>Misses := Misses (pstats p) + 1\<rparr>\<rparr>)
      | Some a \<Rightarrow> Some (True, ptouch F a (p\<lparr>pstats := (pstats p)\<lparr>Hits := Hits (pstats p) + 1\<rparr>\<rparr>)))"

definition Paged_Touch :: "'f float64 \<Rightarrow> block_id \<Rightarrow> 'f Paged \<Rightarrow> 'f Paged option" where
  "Paged_Touch F i p = (case pitems p i of None \<Rightarrow> Some p | Some a \<Rightarrow> Some (ptouch F a p))"

definition Paged_Stats :: "'f Paged \<Rightarrow> StatsRec" where
  "Paged_Stats p = pstats p"

definition paged_ops :: "'f float64 \<Rightarrow> 'f Paged store_ops" where
  "paged_ops F = \<lparr>st_Put = Paged_Put F, st_Get = Paged_Get F, st_Contains = Paged_Contains F,
     st_Touch = Paged_Touch F, st_Stats = Paged_Stats\<rparr>"

definition ParsePolicy :: "string \<Rightarrow> unit + string" where
  "ParsePolicy s = (if s = EvictLRU \<or> s = EvictCost then Inr s else Inl ())"

subsection \<open>The list invariant\<close>

fun hd_or :: "'a list \<Rightarrow> 'a option \<Rightarrow> 'a option" where
  "hd_or [] n = n"
| "hd_or (a # as) n = Some a"

definition last_or :: "'a list \<Rightarrow> 'a option \<Rightarrow> 'a option" where
  "last_or xs n = (if xs = [] then n else Some (last xs))"

lemma last_or_simps [simp]: "last_or [] n = n" "last_or (xs @ [a]) n = Some a" "last_or (a # xs) n = last_or xs (Some a)"
  by (simp_all add: last_or_def)

lemma hd_or_append [simp]: "hd_or (xs @ ys) n = hd_or xs (hd_or ys n)"
  by (cases xs) simp_all

lemma last_or_append [simp]: "last_or (xs @ ys) n = last_or ys (last_or xs n)"
  by (simp add: last_or_def)

text \<open>\<open>seg h q xs n\<close>: the nodes \<open>xs\<close> are linked both ways, from a predecessor \<open>q\<close> to a successor \<open>n\<close>.\<close>

fun seg :: "(nat \<Rightarrow> 'f pagedEntry) \<Rightarrow> nat option \<Rightarrow> nat list \<Rightarrow> nat option \<Rightarrow> bool" where
  "seg h q [] n \<longleftrightarrow> True"
| "seg h q (a # as) n \<longleftrightarrow> eprev (h a) = q \<and> enext (h a) = hd_or as n \<and> seg h (Some a) as n"

definition dll :: "'f Paged \<Rightarrow> nat list \<Rightarrow> bool" where
  "dll p xs \<longleftrightarrow> distinct xs \<and> seg (heap p) None xs None \<and> phead p = hd_or xs None \<and> ptail p = last_or xs None"

lemma seg_append [simp]: "seg h q (xs @ ys) n \<longleftrightarrow> seg h q xs (hd_or ys n) \<and> seg h (last_or xs q) ys n"
  by (induction xs arbitrary: q) auto

lemma seg_out [simp]: "a \<notin> set xs \<Longrightarrow> seg (h(a := x)) q xs n \<longleftrightarrow> seg h q xs n"
  by (induction xs arbitrary: q) auto

definition links :: "'f pagedEntry \<Rightarrow> nat option \<times> nat option" where
  "links x = (eprev x, enext x)"

lemma seg_cong: "\<forall>a \<in> set xs. links (h' a) = links (h a) \<Longrightarrow> seg h' q xs n \<longleftrightarrow> seg h q xs n"
  by (induction xs arbitrary: q) (auto simp: links_def)

text \<open>What the list operations leave alone.\<close>

definition unlinked :: "'f pagedEntry \<Rightarrow> 'f pagedEntry" where
  "unlinked x = x\<lparr>eprev := None, enext := None\<rparr>"

definition relinked :: "'f Paged \<Rightarrow> 'f Paged \<Rightarrow> bool" where
  "relinked p p' \<longleftrightarrow> (\<forall>a. unlinked (heap p' a) = unlinked (heap p a)) \<and>
     pageSize p' = pageSize p \<and> arena p' = arena p \<and> free p' = free p \<and> pitems p' = pitems p \<and>
     order p' = order p \<and> clock p' = clock p \<and> rng p' = rng p \<and> pol p' = pol p \<and> pstats p' = pstats p \<and> gnext p' = gnext p"

lemma relinked_refl [simp]: "relinked p p"
  by (simp add: relinked_def)

lemma relinked_trans: "relinked p q \<Longrightarrow> relinked q r \<Longrightarrow> relinked p r"
  by (simp add: relinked_def)

lemma unlinked_sel:
  assumes "unlinked x = unlinked y"
  shows "eid x = eid y" "eparentID x = eparentID y" "emodelID x = emodelID y" "etokenCount x = etokenCount y"
    "ecostUS x = ecostUS y" "epsize x = epsize y" "epages x = epages y" "orderIdx x = orderIdx y"
  using assms by (cases x, cases y, simp add: unlinked_def)+

lemma relinked_steps:
  "relinked q p \<Longrightarrow> relinked q (p\<lparr>phead := v\<rparr>)" "relinked q p \<Longrightarrow> relinked q (p\<lparr>ptail := v\<rparr>)"
  "(\<And>x. unlinked (f x) = unlinked x) \<Longrightarrow> relinked q p \<Longrightarrow> relinked q (upd a f p)"
  by (auto simp: relinked_def upd_def)

lemma unlinked_upd [simp]: "unlinked (x\<lparr>eprev := a\<rparr>) = unlinked x" "unlinked (x\<lparr>enext := b\<rparr>) = unlinked x"
  "unlinked (x\<lparr>eprev := a, enext := b\<rparr>) = unlinked x"
  by (simp_all add: unlinked_def)

lemma relinked_lruPushFront [simp]: "relinked p (lruPushFront e p)"
  unfolding lruPushFront_def Let_def by (auto intro!: relinked_steps split: option.split)

lemma relinked_lruRemove [simp]: "relinked p (lruRemove e p)"
  unfolding lruRemove_def Let_def
  by (intro relinked_steps(3) unlinked_upd) (simp split: option.split add: relinked_steps)

lemma relinked_lruMoveFront [simp]: "relinked p (lruMoveFront e p)"
  unfolding lruMoveFront_def using relinked_trans [OF relinked_lruRemove relinked_lruPushFront] by auto

lemma lruPushFront_dll:
  assumes "dll p xs" and "e \<notin> set xs"
  shows "dll (lruPushFront e p) (e # xs)"
  using assms by (cases xs) (auto simp: dll_def lruPushFront_def Let_def upd_def last_or_def)

lemma lruRemove_dll:
  assumes "dll p (us @ e # vs)"
  shows "dll (lruRemove e p) (us @ vs)"
proof -
  have d: "e \<notin> set us" "e \<notin> set vs" "distinct us" "distinct vs" "set us \<inter> set vs = {}"
    and s: "seg (heap p) None us (Some e)" "eprev (heap p e) = last_or us None" "enext (heap p e) = hd_or vs None"
    "seg (heap p) (Some e) vs None" "phead p = hd_or us (Some e)" "ptail p = last_or vs (Some e)"
    using assms by (auto simp: dll_def)
  show "dll (lruRemove e p) (us @ vs)"
  proof (cases us rule: rev_cases)
    case Nil
    then show ?thesis using d s by (cases vs) (simp_all add: dll_def lruRemove_def Let_def upd_def)
  next
    case (snoc us' a)
    then show ?thesis using d s by (cases vs) (simp_all add: dll_def lruRemove_def Let_def upd_def)
  qed
qed

lemma lruMoveFront_dll:
  assumes "dll p xs" and "e \<in> set xs"
  shows "dll (lruMoveFront e p) (e # remove1 e xs)"
proof -
  obtain us vs where xs: "xs = us @ e # vs" "e \<notin> set us" using split_list_first [OF assms(2)] by blast
  then have r: "remove1 e xs = us @ vs" by (simp add: remove1_append)
  show ?thesis
  proof (cases "phead p = Some e")
    case True
    then have "us = []" using assms(1) xs by (cases us) (auto simp: dll_def)
    then show ?thesis using True assms(1) xs by (simp add: lruMoveFront_def)
  next
    case False
    have "dll (lruRemove e p) (us @ vs)" "e \<notin> set (us @ vs)" using assms(1) lruRemove_dll xs by (auto simp: dll_def)
    from lruPushFront_dll [OF this] show ?thesis using False by (simp add: lruMoveFront_def r)
  qed
qed

subsection \<open>The store's invariant and contents\<close>

definition page :: "nat \<Rightarrow> bytes \<Rightarrow> 32 word \<Rightarrow> bytes" where
  "page ps ar pg = take ps (drop (unat pg * ps) ar)"

definition entry_blk :: "'f Paged \<Rightarrow> nat \<Rightarrow> blk" where
  "entry_blk p a =
     (let e = heap p a
      in \<lparr>bID = eid e, bParentID = eparentID e, bModelID = emodelID e,
          bPayload = take (epsize e) (concat (map (page (pageSize p) (arena p)) (epages e))),
          bTokenCount = etokenCount e, bCostUS = ecostUS e\<rparr>)"

definition paged_contents :: "'f Paged \<Rightarrow> block_id \<rightharpoonup> blk" where
  "paged_contents p i = map_option (entry_blk p) (pitems p i)"

definition nPages :: "'f Paged \<Rightarrow> nat" where
  "nPages p = length (arena p) div pageSize p"

definition used_pages :: "'f Paged \<Rightarrow> nat list \<Rightarrow> 32 word list" where
  "used_pages p xs = concat (map (\<lambda>a. epages (heap p a)) xs)"

text \<open>The conjuncts of the invariant; \<open>xs\<close> is the recency list, most recent first.\<close>

definition items_inv :: "'f Paged \<Rightarrow> nat list \<Rightarrow> bool" where
  "items_inv p xs \<longleftrightarrow> (\<forall>i a. pitems p i = Some a \<longleftrightarrow> a \<in> set xs \<and> eid (heap p a) = i) \<and> (\<forall>a \<in> set xs. a < gnext p)"

definition order_inv :: "'f Paged \<Rightarrow> nat list \<Rightarrow> bool" where
  "order_inv p xs \<longleftrightarrow> distinct (order p) \<and> set (order p) = set xs \<and>
     (\<forall>k < length (order p). orderIdx (heap p (order p ! k)) = k)"

definition page_inv :: "'f Paged \<Rightarrow> nat list \<Rightarrow> bool" where
  "page_inv p xs \<longleftrightarrow> 0 < pageSize p \<and> length (arena p) = nPages p * pageSize p \<and> nPages p \<le> 2 ^ 31 \<and>
     length (arena p) < 2 ^ 63 \<and> mset (free p @ used_pages p xs) = mset (map word_of_nat [0..<nPages p]) \<and>
     (\<forall>a \<in> set xs. 0 < epsize (heap p a) \<and> length (epages (heap p a)) = pagesNeeded p (epsize (heap p a)))"

definition occ_inv :: "'f Paged \<Rightarrow> nat list \<Rightarrow> bool" where
  "occ_inv p xs \<longleftrightarrow> OccupancyBytes (pstats p) = word_of_nat (length (used_pages p xs) * pageSize p)"

definition paged_core :: "'f Paged \<Rightarrow> nat list \<Rightarrow> bool" where
  "paged_core p xs \<longleftrightarrow> dll p xs \<and> items_inv p xs \<and> order_inv p xs \<and> page_inv p xs"

definition paged_inv :: "'f Paged \<Rightarrow> nat list \<Rightarrow> bool" where
  "paged_inv p xs \<longleftrightarrow> paged_core p xs \<and> occ_inv p xs"

definition paged_wf :: "'f Paged \<Rightarrow> bool" where
  "paged_wf p \<longleftrightarrow> (\<exists>xs. paged_inv p xs)"

text \<open>
  Two states that differ only in links, recency data, counters and the random source hold the same
  blocks; whatever keeps the list linked keeps the invariant.
\<close>

definition edata :: "'f pagedEntry \<Rightarrow> block_id \<times> block_id \<times> string \<times> u32 \<times> u64 \<times> nat \<times> 32 word list \<times> nat" where
  "edata x = (eid x, eparentID x, emodelID x, etokenCount x, ecostUS x, epsize x, epages x, orderIdx x)"

definition agree :: "'f Paged \<Rightarrow> 'f Paged \<Rightarrow> bool" where
  "agree p p' \<longleftrightarrow> (\<forall>a. edata (heap p' a) = edata (heap p a)) \<and>
     pageSize p' = pageSize p \<and> arena p' = arena p \<and> free p' = free p \<and> pitems p' = pitems p \<and>
     order p' = order p \<and> pol p' = pol p \<and> gnext p' = gnext p \<and> OccupancyBytes (pstats p') = OccupancyBytes (pstats p)"

lemma agree_trans: "agree p q \<Longrightarrow> agree q r \<Longrightarrow> agree p r"
  by (simp add: agree_def)

lemma agree_refl [simp]: "agree p p"
  by (simp add: agree_def)

lemma agree_relinked: "relinked p p' \<Longrightarrow> agree p p'"
proof -
  assume r: "relinked p p'"
  have "edata (heap p' a) = edata (heap p a)" for a
    using unlinked_sel [of "heap p' a" "heap p a"] r by (simp add: relinked_def edata_def)
  then show ?thesis using r by (simp add: relinked_def agree_def)
qed

lemma agree_sel:
  assumes "agree p p'"
  shows "eid (heap p' a) = eid (heap p a)" "epages (heap p' a) = epages (heap p a)"
    "epsize (heap p' a) = epsize (heap p a)" "orderIdx (heap p' a) = orderIdx (heap p a)" "entry_blk p' a = entry_blk p a"
  using assms by (simp_all add: agree_def edata_def entry_blk_def Let_def)

lemma agree_contents: "agree p p' \<Longrightarrow> paged_contents p' = paged_contents p"
  by (rule ext) (auto simp: paged_contents_def agree_sel agree_def [of p p'] intro!: option.map_cong)

lemma paged_core_agree:
  assumes "agree p p'" and "paged_core p xs" and "dll p' xs'" and "mset xs' = mset xs"
  shows "paged_core p' xs'" and "occ_inv p' xs' \<longleftrightarrow> occ_inv p xs"
proof -
  note sel = agree_sel [OF assms(1)]
  have f: "pageSize p' = pageSize p" "arena p' = arena p" "free p' = free p" "pitems p' = pitems p" "order p' = order p"
    "gnext p' = gnext p" "OccupancyBytes (pstats p') = OccupancyBytes (pstats p)"
    using assms(1) by (simp_all add: agree_def)
  have st: "set xs' = set xs" using assms(4) by (rule mset_eq_setD)
  have u: "mset (used_pages p' xs') = mset (used_pages p xs)"
    unfolding used_pages_def mset_concat sel map_map [symmetric] using assms(4) by (simp add: sum_mset_sum_list [symmetric])
  then show "paged_core p' xs'"
    using assms(2,3) by (simp add: paged_core_def items_inv_def order_inv_def page_inv_def nPages_def pagesNeeded_def f st sel)
  show "occ_inv p' xs' \<longleftrightarrow> occ_inv p xs" unfolding occ_inv_def f mset_eq_length [OF u] ..
qed

lemma paged_inv_agree:
  assumes "agree p p'" and "paged_inv p xs" and "dll p' xs'" and "mset xs' = mset xs"
  shows "paged_inv p' xs'"
  using paged_core_agree [OF assms(1) _ assms(3,4)] assms(2) by (simp add: paged_inv_def)

lemma dll_links:
  assumes "\<forall>a. links (heap p' a) = links (heap p a)" and "phead p' = phead p" and "ptail p' = ptail p"
  shows "dll p' xs \<longleftrightarrow> dll p xs"
  using assms seg_cong [of xs "heap p'" "heap p"] by (simp add: dll_def)

lemma ptouch_core:
  assumes "paged_core p xs" and "e \<in> set xs"
  shows "agree p (ptouch F e p)" and "paged_core (ptouch F e p) (e # remove1 e xs)"
proof -
  define c where "c = clock p + 1"
  define q where "q = upd e (\<lambda>x. x\<lparr>freq := fadd F (ofInt F 1) (decay F c x), lastAccess := c\<rparr>) (p\<lparr>clock := c\<rparr>)"
  have t: "ptouch F e p = lruMoveFront e q" by (simp add: ptouch_def Let_def q_def c_def)
  have a: "agree p q" by (auto simp: q_def upd_def agree_def edata_def)
  have "dll q xs \<longleftrightarrow> dll p xs" by (rule dll_links) (auto simp: q_def upd_def links_def)
  then have d: "dll (lruMoveFront e q) (e # remove1 e xs)"
    using lruMoveFront_dll assms by (simp add: paged_core_def)
  show ag: "agree p (ptouch F e p)" unfolding t using a agree_relinked [OF relinked_lruMoveFront] by (rule agree_trans)
  show "paged_core (ptouch F e p) (e # remove1 e xs)"
    using paged_core_agree(1) [OF ag assms(1)] d assms(2) by (simp add: t)
qed

lemma ptouch_inv:
  assumes "paged_inv p xs" and "e \<in> set xs"
  shows "agree p (ptouch F e p)" and "paged_inv (ptouch F e p) (e # remove1 e xs)"
proof -
  have c: "paged_core p xs" using assms(1) by (simp add: paged_inv_def)
  note t = ptouch_core [OF c assms(2), of F]
  show "agree p (ptouch F e p)" by (rule t(1))
  have "dll (ptouch F e p) (e # remove1 e xs)" using t(2) by (simp add: paged_core_def)
  then show "paged_inv (ptouch F e p) (e # remove1 e xs)" using paged_inv_agree [OF t(1) assms(1)] assms(2) by simp
qed

lemma swap_remove:
  assumes "distinct ord" and "i < length ord" and "ord ! i = v"
  defines "ord' \<equiv> butlast (ord[i := last ord])"
  shows "distinct ord'" and "set ord' = set ord - {v}" and "length ord' = length ord - 1"
    and "\<And>k. k < length ord' \<Longrightarrow> ord' ! k = (if k = i then last ord else ord ! k)"
proof -
  obtain xs l where ord: "ord = xs @ [l]" using assms(2) by (cases ord rule: rev_cases) auto
  have o: "ord' = (if i < length xs then xs[i := l] else xs)"
    using assms(2) by (simp add: ord'_def ord list_update_append)
  show "length ord' = length ord - 1" by (simp add: o ord)
  show nth: "ord' ! k = (if k = i then last ord else ord ! k)" if "k < length ord'" for k
    using that assms(2) by (auto simp: o ord nth_append)
  show "distinct ord'" using assms(1) by (simp add: o ord distinct_list_update)
  show "set ord' = set ord - {v}"
  proof (cases "i < length xs")
    case True
    then have "set (xs[i := l]) = insert l (set xs - {xs ! i})"
      using assms(1) by (simp add: ord set_update_distinct)
    then show ?thesis using True assms by (auto simp: o ord nth_append)
  next
    case False
    then show ?thesis using assms(1-3) by (auto simp: o ord nth_append)
  qed
qed

lemma agree_upd_sel [simp]:
  "pageSize (upd a f p) = pageSize p" "arena (upd a f p) = arena p" "free (upd a f p) = free p"
  "pitems (upd a f p) = pitems p" "gnext (upd a f p) = gnext p" "pol (upd a f p) = pol p" "pstats (upd a f p) = pstats p"
  by (simp_all add: upd_def)

lemma order_inv_idx:
  assumes "order_inv p xs" and "v \<in> set xs"
  shows "orderIdx (heap p v) < length (order p)" and "order p ! orderIdx (heap p v) = v"
proof -
  obtain k where "k < length (order p)" "order p ! k = v" using assms by (metis order_inv_def in_set_conv_nth)
  then show "orderIdx (heap p v) < length (order p)" "order p ! orderIdx (heap p v) = v"
    using assms(1) by (auto simp: order_inv_def)
qed

definition released :: "nat \<Rightarrow> 'f Paged \<Rightarrow> 'f Paged \<Rightarrow> bool" where
  "released v p p' \<longleftrightarrow> (let l = last (order p); i = orderIdx (heap p v) in
     (\<forall>a. edata (heap p' a) = edata ((heap p a)\<lparr>orderIdx := if a = l then i else orderIdx (heap p a)\<rparr>)) \<and>
     order p' = butlast ((order p)[i := l]) \<and> pitems p' = (pitems p)(eid (heap p v) := None) \<and>
     free p' = free p @ epages (heap p v) \<and> pageSize p' = pageSize p \<and> arena p' = arena p \<and>
     pol p' = pol p \<and> gnext p' = gnext p \<and>
     OccupancyBytes (pstats p') = OccupancyBytes (pstats p) - word_of_nat (length (epages (heap p v)) * pageSize p))"

lemma release_step:
  assumes inv: "paged_inv p (us @ v # vs)"
  shows "\<exists>p'. release v p = Some p' \<and> dll p' (us @ vs) \<and> released v p p'"
proof -
  define p0 where "p0 = p\<lparr>free := free p @ epages (heap p v)\<rparr>"
  define q where "q = lruRemove v p0"
  have "dll p0 xs \<longleftrightarrow> dll p xs" for xs by (rule dll_links) (simp_all add: p0_def)
  then have dq: "dll q (us @ vs)" using inv by (simp add: q_def paged_inv_def paged_core_def lruRemove_dll)
  have ag: "agree p0 q" unfolding q_def by (rule agree_relinked) simp
  have f: "order q = order p" "pageSize q = pageSize p" "arena q = arena p" "free q = free p @ epages (heap p v)"
    "pitems q = pitems p" "pol q = pol p" "gnext q = gnext p" "OccupancyBytes (pstats q) = OccupancyBytes (pstats p)"
    and d: "edata (heap q a) = edata (heap p a)" for a
    using ag by (simp_all add: agree_def p0_def)
  have dv: "eid (heap q a) = eid (heap p a)" "epages (heap q a) = epages (heap p a)" "orderIdx (heap q a) = orderIdx (heap p a)" for a
    using d [of a] by (simp_all add: edata_def)
  have oi: "orderIdx (heap p v) < length (order p)"
    using order_inv_idx(1) [of p "us @ v # vs" v] inv by (simp add: paged_inv_def paged_core_def)
  then have ne: "order p \<noteq> []" by auto
  let ?l = "last (order p)" and ?i = "orderIdx (heap p v)"
  have "\<exists>p'. release v p = Some p' \<and> heap p' = (heap q)(?l := (heap q ?l)\<lparr>orderIdx := ?i\<rparr>) \<and>
      phead p' = phead q \<and> ptail p' = ptail q \<and> order p' = butlast ((order p)[?i := ?l]) \<and>
      pitems p' = (pitems p)(eid (heap p v) := None) \<and> free p' = free q \<and> pageSize p' = pageSize q \<and>
      arena p' = arena q \<and> pol p' = pol q \<and> gnext p' = gnext q \<and>
      OccupancyBytes (pstats p') = OccupancyBytes (pstats p) - word_of_nat (length (epages (heap p v)) * pageSize p)"
    using ne oi by (simp add: release_def Let_def p0_def [symmetric] q_def [symmetric] upd_def dv f)
  then obtain p' where p': "release v p = Some p'" "heap p' = (heap q)(?l := (heap q ?l)\<lparr>orderIdx := ?i\<rparr>)"
    "phead p' = phead q" "ptail p' = ptail q" "order p' = butlast ((order p)[?i := ?l])"
    "pitems p' = (pitems p)(eid (heap p v) := None)" "free p' = free q" "pageSize p' = pageSize q"
    "arena p' = arena q" "pol p' = pol q" "gnext p' = gnext q"
    "OccupancyBytes (pstats p') = OccupancyBytes (pstats p) - word_of_nat (length (epages (heap p v)) * pageSize p)"
    by blast
  have "dll p' (us @ vs) \<longleftrightarrow> dll q (us @ vs)" by (rule dll_links) (simp_all add: p' links_def)
  moreover have "released v p p'" using d by (simp add: released_def Let_def p' f edata_def)
  ultimately show ?thesis using p'(1) dq by blast
qed

lemma released_sel:
  assumes "released v p p'"
  shows "eid (heap p' a) = eid (heap p a)" "epages (heap p' a) = epages (heap p a)" "epsize (heap p' a) = epsize (heap p a)"
    "orderIdx (heap p' a) = (if a = last (order p) then orderIdx (heap p v) else orderIdx (heap p a))"
    "entry_blk p' a = entry_blk p a" "nPages p' = nPages p" "pagesNeeded p' n = pagesNeeded p n"
    "used_pages p' xs = used_pages p xs"
  using assms by (simp_all add: released_def Let_def edata_def entry_blk_def nPages_def pagesNeeded_def used_pages_def)

lemma released_fields:
  assumes "released v p p'"
  shows "order p' = butlast ((order p)[orderIdx (heap p v) := last (order p)])"
    "pitems p' = (pitems p)(eid (heap p v) := None)" "free p' = free p @ epages (heap p v)" "pageSize p' = pageSize p"
    "arena p' = arena p" "gnext p' = gnext p" "pol p' = pol p"
    "OccupancyBytes (pstats p') = OccupancyBytes (pstats p) - word_of_nat (length (epages (heap p v)) * pageSize p)"
  using assms by (simp_all add: released_def Let_def)

lemma released_contents:
  assumes "released v p p'"
  shows "paged_contents p' = (paged_contents p)(eid (heap p v) := None)"
proof
  have "entry_blk p' = entry_blk p" by (rule ext) (rule released_sel(5) [OF assms])
  then show "paged_contents p' i = ((paged_contents p)(eid (heap p v) := None)) i" for i
    by (simp add: paged_contents_def released_fields(2) [OF assms])
qed

lemma released_items:
  assumes i: "items_inv p (us @ v # vs)" and r: "released v p p'" and dx: "v \<notin> set (us @ vs)"
  shows "items_inv p' (us @ vs)"
proof -
  have it: "pitems p j = Some a \<longleftrightarrow> a \<in> insert v (set (us @ vs)) \<and> eid (heap p a) = j" for j a
    using i by (simp add: items_inv_def)
  have e: "eid (heap p' a) = eid (heap p a)" for a by (rule released_sel(1) [OF r])
  have "pitems p' j = Some a \<longleftrightarrow> a \<in> set (us @ vs) \<and> eid (heap p' a) = j" for j a
  proof (cases "j = eid (heap p v)")
    case True
    have "a = v" if "a \<in> set (us @ vs)" "eid (heap p a) = j"
    proof -
      have "pitems p j = Some a" "pitems p j = Some v" unfolding it using that True by auto
      then show ?thesis by simp
    qed
    then show ?thesis using True dx unfolding released_fields(2) [OF r] e by auto
  next
    case False
    then have "pitems p' j = pitems p j" unfolding released_fields(2) [OF r] by simp
    then have "pitems p' j = Some a \<longleftrightarrow> a \<in> insert v (set (us @ vs)) \<and> eid (heap p a) = j" by (simp only: it)
    then show ?thesis using False unfolding e by auto
  qed
  then show ?thesis using i by (simp add: items_inv_def released_fields(6) [OF r])
qed

lemma released_order:
  assumes o: "order_inv p (us @ v # vs)" and r: "released v p p'" and dx: "v \<notin> set (us @ vs)"
  shows "order_inv p' (us @ vs)"
proof -
  have v: "v \<in> set (us @ v # vs)" by simp
  note idx = order_inv_idx [OF o v]
  have dist: "distinct (order p)" and st: "set (order p) = insert v (set (us @ vs))"
    and ix: "\<And>k. k < length (order p) \<Longrightarrow> orderIdx (heap p (order p ! k)) = k"
    using o by (simp_all add: order_inv_def)
  note sw = swap_remove [OF dist idx, folded released_fields(1) [OF r]]
  have "orderIdx (heap p' (order p' ! k)) = k" if k: "k < length (order p')" for k
  proof (cases "k = orderIdx (heap p v)")
    case True
    then show ?thesis using released_sel(4) [OF r] sw(4) [OF k] by simp
  next
    case False
    have lt: "k < length (order p) - 1" using k sw(3) by simp
    then have "last (order p) = order p ! (length (order p) - 1)" by (intro last_conv_nth) auto
    then have "order p ! k \<noteq> last (order p)"
      using lt nth_eq_iff_index_eq [OF dist, of k "length (order p) - 1"] by simp
    then show ?thesis using False sw(4) [OF k] released_sel(4) [OF r] ix [of k] lt by simp
  qed
  then show ?thesis using sw(1,2) st dx by (simp add: order_inv_def)
qed

lemma released_page:
  assumes g: "page_inv p (us @ v # vs)" and r: "released v p p'"
  shows "page_inv p' (us @ vs)"
proof -
  note sel = released_sel(2,3,6-8) [OF r] released_fields(3-5,8) [OF r]
  have "mset (free p' @ used_pages p' (us @ vs)) = mset (free p @ used_pages p (us @ v # vs))"
    unfolding sel by (simp add: used_pages_def)
  then show ?thesis using g unfolding page_inv_def sel by simp
qed

lemma released_occ:
  assumes g: "occ_inv p (us @ v # vs)" and r: "released v p p'"
  shows "occ_inv p' (us @ vs)"
proof -
  have "length (used_pages p (us @ v # vs)) = length (used_pages p (us @ vs)) + length (epages (heap p v))"
    by (simp add: used_pages_def)
  moreover have "word_of_nat ((m + n) * k) - word_of_nat (n * k) = (word_of_nat (m * k) :: u64)" for m n k
    by (simp add: add_mult_distrib)
  ultimately show ?thesis
    using g unfolding occ_inv_def released_sel(8) [OF r] released_fields(4,8) [OF r] by simp
qed

lemma released_inv:
  assumes "paged_inv p (us @ v # vs)" and "released v p p'" and "dll p' (us @ vs)"
  shows "paged_inv p' (us @ vs)"
proof -
  have "v \<notin> set (us @ vs)" using assms(1) by (auto simp: paged_inv_def paged_core_def dll_def)
  then show ?thesis
    using assms released_items [of p us v vs p'] released_order [of p us v vs p'] released_page [of p us v vs p'] released_occ [of p us v vs p']
    by (simp add: paged_inv_def paged_core_def)
qed

subsection \<open>Eviction keeps the invariant and frees enough pages\<close>

lemma sample_loop_in:
  "order p \<noteq> [] \<Longrightarrow> (\<And>v s. vic = Some (v, s) \<Longrightarrow> v \<in> set (order p)) \<Longrightarrow> 0 < n \<or> vic \<noteq> None \<Longrightarrow>
   \<exists>v s. fst (sample_loop F n p vic) = Some (v, s) \<and> v \<in> set (order p)"
proof (induction n arbitrary: p vic)
  case 0
  then show ?case by auto
next
  case (Suc n)
  define k where "k = shd (rng p) mod length (order p)"
  define q where "q = p\<lparr>rng := stl (rng p)\<rparr>"
  define e where "e = order q ! k"
  define vic' where "vic' = (case vic of None \<Rightarrow> Some (e, eScore F q e)
    | Some (v, vs) \<Rightarrow> if fless F (eScore F q e) vs then Some (e, eScore F q e) else Some (v, vs))"
  have step: "sample_loop F (Suc n) p vic = sample_loop F n q vic'"
    by (cases vic) (simp_all add: Intn_def Let_def k_def q_def e_def vic'_def case_prod_unfold)
  have "k < length (order p)" using Suc.prems(1) by (simp add: k_def)
  then have e: "e \<in> set (order q)" by (simp add: e_def q_def)
  have "v \<in> set (order q)" if "vic' = Some (v, s)" for v s
    using that e Suc.prems(2) by (auto simp: vic'_def q_def split: option.splits if_splits)
  moreover have "vic' \<noteq> None" by (simp add: vic'_def split: option.split)
  ultimately show ?case using Suc.IH [of q vic'] Suc.prems(1) unfolding step by (simp add: q_def)
qed

lemma pick_victim_in:
  assumes inv: "paged_inv p xs" and ne: "xs \<noteq> []"
  shows "\<exists>v. fst (pick_victim F p) = Some v \<and> v \<in> set xs \<and> (pol p \<noteq> EvictCost \<longrightarrow> v = last xs)"
proof (cases "pol p = EvictCost")
  case True
  have st: "set (order p) = set xs" using inv by (simp add: paged_inv_def paged_core_def order_inv_def)
  with ne have o: "order p \<noteq> []" by auto
  have "0 < min evictSample (length (order p))" using o by (simp add: evictSample_def)
  then show ?thesis using sample_loop_in [OF o, of None "min evictSample (length (order p))" F] True st
    by (auto simp: pick_victim_def case_prod_unfold)
next
  case False
  then show ?thesis using inv ne by (simp add: pick_victim_def paged_inv_def paged_core_def dll_def last_or_def)
qed

lemma agree_rng: "agree p (p\<lparr>rng := r\<rparr>)"
  by (simp add: agree_def)

lemma paged_inv_rng: "paged_inv p xs \<Longrightarrow> paged_inv (p\<lparr>rng := r\<rparr>) xs"
proof -
  assume inv: "paged_inv p xs"
  have "dll (p\<lparr>rng := r\<rparr>) xs \<longleftrightarrow> dll p xs" by (rule dll_links) simp_all
  then show ?thesis using paged_inv_agree [OF agree_rng inv] inv by (simp add: paged_inv_def paged_core_def)
qed

text \<open>What an eviction changes, for the loop that repeats it.\<close>

definition evicted :: "'f Paged \<Rightarrow> 'f Paged \<Rightarrow> bool" where
  "evicted p p' \<longleftrightarrow> pageSize p' = pageSize p \<and> arena p' = arena p \<and> pol p' = pol p \<and> gnext p' = gnext p \<and>
     (\<forall>a. eid (heap p' a) = eid (heap p a) \<and> epages (heap p' a) = epages (heap p a)) \<and>
     paged_contents p' \<subseteq>\<^sub>m paged_contents p"

lemma evicted_refl: "evicted p p"
  by (simp add: evicted_def)

lemma evicted_trans: "evicted p q \<Longrightarrow> evicted q r \<Longrightarrow> evicted p r"
  unfolding evicted_def by (auto intro: map_le_trans)

lemma evictOne_inv:
  assumes inv: "paged_inv p xs" and ne: "xs \<noteq> []"
  shows "\<exists>p' us v vs. evictOne F p = Some (True, p') \<and> xs = us @ v # vs \<and> paged_inv p' (us @ vs) \<and>
    evicted p p' \<and> free p' = free p @ epages (heap p v) \<and> (pol p \<noteq> EvictCost \<longrightarrow> vs = [])"
proof -
  obtain v where v: "fst (pick_victim F p) = Some v" "v \<in> set xs" "pol p \<noteq> EvictCost \<longrightarrow> v = last xs"
    using pick_victim_in [OF inv ne] by blast
  obtain us vs where xs: "xs = us @ v # vs" using split_list [OF v(2)] by blast
  obtain r where r: "snd (pick_victim F p) = p\<lparr>rng := r\<rparr>" using pick_victim_rng by blast
  define q where "q = p\<lparr>rng := r\<rparr>"
  have iq: "paged_inv q (us @ v # vs)" unfolding q_def using paged_inv_rng [OF inv] xs by simp
  obtain p' where p': "release v q = Some p'" "dll p' (us @ vs)" "released v q p'" using release_step [OF iq] by blast
  have "pick_victim F p = (Some v, q)" using v(1) r by (metis prod.collapse q_def)
  then have e: "evictOne F p = Some (True, p')" by (simp add: evictOne_def p'(1))
  have "paged_contents q = paged_contents p" unfolding q_def by (rule agree_contents [OF agree_rng])
  then have "paged_contents p' \<subseteq>\<^sub>m paged_contents p" using released_contents [OF p'(3)] by simp
  then have ev: "evicted p p'" "free p' = free p @ epages (heap p v)"
    using released_fields [OF p'(3)] released_sel(1,2) [OF p'(3)] by (simp_all add: evicted_def q_def)
  have "vs = []" if "pol p \<noteq> EvictCost"
  proof (rule ccontr)
    assume "vs \<noteq> []"
    then have "v \<in> set vs" using v(3) that xs last_in_set [of vs] by simp
    then show False using inv xs by (simp add: paged_inv_def paged_core_def dll_def)
  qed
  then show ?thesis using e xs released_inv [OF iq p'(3,2)] ev by blast
qed

lemma page_inv_count:
  assumes "page_inv p xs"
  shows "length (free p) + length (used_pages p xs) = nPages p"
proof -
  have "size (mset (free p @ used_pages p xs)) = size (mset (map (word_of_nat :: nat \<Rightarrow> 32 word) [0..<nPages p]))"
    using assms by (simp only: page_inv_def)
  then show ?thesis by simp
qed

text \<open>Under the LRU policy the survivors are the most recent entries, and as many as possible.\<close>

definition kept_recent :: "nat \<Rightarrow> 'f Paged \<Rightarrow> nat list \<Rightarrow> nat list \<Rightarrow> bool" where
  "kept_recent need p xs xs' \<longleftrightarrow> (\<exists>k. xs' = take k xs \<and>
     (k < length xs \<longrightarrow> length (free p) + length (used_pages p (drop (Suc k) xs)) < need))"

lemma kept_recent_snoc:
  assumes "kept_recent need q us xs'" and "length (free p) < need"
    and "free q = free p @ epages (heap p v)" and "\<And>a. epages (heap q a) = epages (heap p a)"
  shows "kept_recent need p (us @ [v]) xs'"
proof -
  obtain k where k: "xs' = take k us"
    "k < length us \<longrightarrow> length (free q) + length (used_pages q (drop (Suc k) us)) < need"
    using assms(1) by (auto simp: kept_recent_def)
  define m where "m = min k (length us)"
  have "xs' = take m (us @ [v])" using k(1) by (cases "k \<le> length us") (simp_all add: m_def)
  moreover have "length (free p) + length (used_pages p (drop (Suc m) (us @ [v]))) < need"
    using k(2) assms(2-4) by (cases "k < length us") (simp_all add: m_def used_pages_def)
  ultimately show ?thesis unfolding kept_recent_def by blast
qed

lemma evict_until_inv:
  "paged_inv p xs \<Longrightarrow> need \<le> nPages p \<Longrightarrow>
   \<exists>p' xs'. evict_until F need p = Some (True, p') \<and> paged_inv p' xs' \<and> evicted p p' \<and> need \<le> length (free p') \<and>
     (pol p \<noteq> EvictCost \<longrightarrow> kept_recent need p xs xs')"
proof (induction F need p arbitrary: xs rule: evict_until.induct)
  case (1 F need p)
  show ?case
  proof (cases "length (free p) < need")
    case True
    then have "xs \<noteq> []" using page_inv_count [of p xs] 1(2,3) by (auto simp: paged_inv_def paged_core_def used_pages_def)
    then obtain q us v vs where q: "evictOne F p = Some (True, q)" "xs = us @ v # vs" "paged_inv q (us @ vs)"
      "evicted p q" "free q = free p @ epages (heap p v)" "pol p \<noteq> EvictCost \<longrightarrow> vs = []"
      using evictOne_inv [OF 1(2)] by blast
    have ev: "nPages q = nPages p" "pol q = pol p" "\<And>a. epages (heap q a) = epages (heap p a)"
      using q(4) by (simp_all add: evicted_def nPages_def)
    then have le: "need \<le> nPages q" using 1(3) by simp
    obtain p' xs' where p': "evict_until F need q = Some (True, p')" "paged_inv p' xs'" "evicted q p'" "need \<le> length (free p')"
      "pol q \<noteq> EvictCost \<longrightarrow> kept_recent need q (us @ vs) xs'"
      using 1(1) [OF True q(1) refl TrueI q(3) le] by blast
    have "evict_until F need p = Some (True, p')" using True q(1) p'(1) by (subst evict_until.simps) simp
    moreover have "pol p \<noteq> EvictCost \<longrightarrow> kept_recent need p xs xs'"
      using p'(5) q(2,6) ev(2) kept_recent_snoc [OF _ True q(5) ev(3), of us xs'] by auto
    ultimately show ?thesis using p'(2,4) evicted_trans [OF q(4) p'(3)] by blast
  next
    case False
    then have "evict_until F need p = Some (True, p)" by (subst evict_until.simps) simp
    moreover have "kept_recent need p xs xs" unfolding kept_recent_def by (intro exI [of _ "length xs"]) simp
    ultimately show ?thesis using 1(2) False evicted_refl by (metis not_less)
  qed
qed

subsection \<open>Writing and reading pages\<close>

lemma sint_small: "unat (w :: 32 word) < 2 ^ 31 \<Longrightarrow> sint w = int (unat w)"
proof -
  assume "unat w < 2 ^ 31"
  then have "int (unat w) < int (2 ^ 31)" by (simp only: of_nat_less_iff)
  then have "uint w < 2 ^ 31" by simp
  moreover have "- (2 ^ 31) \<le> uint w" by (rule order_trans [of _ 0]) simp_all
  ultimately have "sint w = uint w" unfolding sint_uint by (intro signed_take_bit_int_eq_self) simp_all
  then show ?thesis by simp
qed

lemma arena_from_page:
  assumes "unat pg < n" and "n \<le> 2 ^ 31" and "length (arena p) = n * pageSize p"
  shows "arena_from p pg = Some (unat pg * pageSize p)"
proof -
  have s: "sint pg * int (pageSize p) = int (unat pg * pageSize p)" using sint_small [of pg] assms(1,2) by simp
  have "unat pg * pageSize p \<le> length (arena p)" unfolding assms(3) using assms(1) by (intro mult_le_mono1) simp
  then show ?thesis unfolding arena_from_def Let_def s nat_int by (simp del: of_nat_mult)
qed

lemma mult_Suc_le: "(u :: nat) < n \<Longrightarrow> u * k + k \<le> n * k"
  by (metis Suc_leI add.commute mult_Suc mult_le_mono1)

lemma page_split:
  assumes "Suc u * ps \<le> length ar"
  shows "ar = take (u * ps) ar @ take ps (drop (u * ps) ar) @ drop (Suc u * ps) ar"
  by (metis append_take_drop_id add.commute drop_drop mult_Suc)

lemma page_other:
  assumes "length A = u * ps" and "length B = ps" and "length B' = ps" and "u' \<noteq> u"
  shows "take ps (drop (u' * ps) (A @ B' @ C)) = take ps (drop (u' * ps) (A @ B @ C))"
proof (cases "u' < u")
  case True
  then have "u' * ps + ps \<le> length A" unfolding assms(1) by (rule mult_Suc_le)
  then show ?thesis by simp
next
  case False
  then have "u * ps + ps \<le> u' * ps" using assms(4) by (intro mult_Suc_le) simp
  then show ?thesis using assms(1-3) by (simp add: drop_append)
qed

lemma page_copy:
  assumes "unat pg < n" and "length ar = n * ps" and "length src \<le> ps"
  defines "ar' \<equiv> go_copy ar (unat pg * ps) (length ar) src"
  shows "length ar' = length ar" and "page ps ar' pg = src @ drop (length src) (page ps ar pg)"
    and "pg' \<noteq> pg \<Longrightarrow> page ps ar' pg' = page ps ar pg'"
proof -
  let ?A = "take (unat pg * ps) ar" and ?B = "page ps ar pg" and ?C = "drop (Suc (unat pg) * ps) ar"
  have le: "unat pg * ps + ps \<le> length ar" unfolding assms(2) by (rule mult_Suc_le [OF assms(1)])
  then have ar: "ar = ?A @ ?B @ ?C" unfolding page_def by (intro page_split) simp
  have lA: "length ?A = unat pg * ps" and lB: "length ?B = ps" using le by (simp_all add: page_def)
  have n: "min (length ar - unat pg * ps) (length src) = length src" using le assms(3) by simp
  have "drop (unat pg * ps + length src) (?A @ ?B @ ?C) = drop (length src) ?B @ ?C"
    using lA lB assms(3) by (simp add: drop_append)
  then have "drop (unat pg * ps + length src) ar = drop (length src) ?B @ ?C" unfolding ar [symmetric] .
  then have ar': "ar' = ?A @ (src @ drop (length src) ?B) @ ?C" unfolding ar'_def go_copy_def Let_def n by simp
  have lB': "length (src @ drop (length src) ?B) = ps" using lB assms(3) by simp
  show "length ar' = length ar" 
  proof -
    have "length ar' = length (?A @ ?B @ ?C)" unfolding ar' length_append using lB lB' by simp
    then show ?thesis unfolding ar [symmetric] .
  qed
  show "page ps ar' pg = src @ drop (length src) ?B" 
  proof -
    have "page ps (?A @ X @ ?C) pg = X" if "length X = ps" for X
      using that lA by (simp add: page_def)
    from this [OF lB'] show ?thesis unfolding ar' .
  qed
  show "page ps ar' pg' = page ps ar pg'" if "pg' \<noteq> pg"
  proof -
    have "unat pg' \<noteq> unat pg" using that unsigned_word_eqI by blast
    from page_other [OF lA lB lB' this, of ?C] show ?thesis
      unfolding page_def [of _ _ pg'] ar' ar [symmetric] by simp
  qed
qed

definition tail_fits :: "nat \<Rightarrow> nat \<Rightarrow> nat \<Rightarrow> nat \<Rightarrow> bool" where
  "tail_fits ps i n len \<longleftrightarrow> (if n = 0 then len \<le> i * ps else (i + n - 1) * ps < len \<and> len \<le> (i + n) * ps)"

lemma tail_fits_Suc:
  assumes "tail_fits ps i (Suc n) len" and "0 < ps"
  shows "i * ps < len" and "tail_fits ps (Suc i) n len" and "n = 0 \<Longrightarrow> len \<le> i * ps + ps" and "0 < n \<Longrightarrow> i * ps + ps < len"
proof -
  have a: "(i + n) * ps < len" "len \<le> (i + n) * ps + ps" using assms(1) by (simp_all add: tail_fits_def algebra_simps)
  have "i * ps \<le> (i + n) * ps" by (intro mult_le_mono1) simp
  then show "i * ps < len" using a(1) by (rule order_le_less_trans)
  show "tail_fits ps (Suc i) n len" using a by (cases n) (simp_all add: tail_fits_def algebra_simps)
  show "len \<le> i * ps + ps" if "n = 0" using a that by simp
  show "i * ps + ps < len" if "0 < n"
  proof -
    have "(i + 1) * ps \<le> (i + n) * ps" using that by (intro mult_le_mono1) simp
    then have "(i + 1) * ps < len" using a(1) by (rule order_le_less_trans)
    then show ?thesis by (simp add: add.commute)
  qed
qed

lemma pagesNeeded_fits:
  assumes "0 < pageSize p" and "0 < len"
  shows "tail_fits (pageSize p) 0 (pagesNeeded p len) len"
proof -
  define d where "d = (len - 1) div pageSize p"
  have "len + pageSize p - 1 = (len - 1) + pageSize p" using assms(2) by simp
  then have n: "pagesNeeded p len = Suc d" using assms(1) by (simp only: pagesNeeded_def d_def div_add_self2)
  have d1: "d * pageSize p \<le> len - 1" unfolding d_def by (rule div_times_less_eq_dividend)
  have d2: "len - 1 < pageSize p + d * pageSize p" unfolding d_def using assms(1) by (rule dividend_less_div_times)
  have "d * pageSize p < len" "len \<le> pageSize p + d * pageSize p" using d1 d2 assms(2) by linarith+
  then show ?thesis by (simp add: n tail_fits_def)
qed

lemma take_page_concat:
  assumes "length src = min ps (len - i * ps)" and "pgd = src @ drop (length src) old" and "length old = ps"
    and "src = take (length src) (drop (i * ps) b)" and "len = length b" and "tail_fits ps i (Suc n) len" and "0 < ps"
    and rest: "take (len - Suc i * ps) rst = drop (Suc i * ps) b"
  shows "take (len - i * ps) (pgd @ rst) = drop (i * ps) b"
proof (cases "n = 0")
  case True
  then have "length src = len - i * ps" using tail_fits_Suc(3) [OF assms(6,7)] assms(1) by simp
  then show ?thesis using assms(2,4,5) by simp
next
  case False
  then have l: "length src = ps" using tail_fits_Suc(4) [OF assms(6,7)] assms(1) by simp
  then have p: "pgd = take ps (drop (i * ps) b)" using assms(2,3,4) by simp
  have lp: "length pgd = ps" using l assms(2,3) by simp
  have m: "len - i * ps = ps + (len - Suc i * ps)" using tail_fits_Suc(4) [OF assms(6,7)] False by simp
  have "take (len - i * ps) (pgd @ rst) = pgd @ take (len - Suc i * ps) rst" unfolding m using lp by simp
  also have "\<dots> = take ps (drop (i * ps) b) @ drop ps (drop (i * ps) b)" unfolding rest p by (simp add: add.commute)
  finally show ?thesis by (simp only: append_take_drop_id)
qed

lemma fill_loop_ok:
  "length pre = i \<Longrightarrow> distinct (free p) \<Longrightarrow> \<forall>pg \<in> set (free p). unat pg < N \<Longrightarrow> N \<le> 2 ^ 31 \<Longrightarrow>
   length (arena p) = N * pageSize p \<Longrightarrow> 0 < pageSize p \<Longrightarrow> n \<le> length (free p) \<Longrightarrow>
   tail_fits (pageSize p) i n (length b) \<Longrightarrow>
   \<exists>pgs fs ar. fill_loop b i n (pre @ replicate n 0) p = Some (pre @ pgs, p\<lparr>free := fs, arena := ar\<rparr>) \<and>
     length ar = length (arena p) \<and> length pgs = n \<and> free p = fs @ rev pgs \<and>
     (\<forall>pg. pg \<notin> set pgs \<longrightarrow> page (pageSize p) ar pg = page (pageSize p) (arena p) pg) \<and>
     take (length b - i * pageSize p) (concat (map (page (pageSize p) ar) pgs)) = drop (i * pageSize p) b"
proof (induction n arbitrary: i pre p)
  case 0
  then show ?case by (intro exI [of _ "[]"] exI [of _ "free p"] exI [of _ "arena p"]) (simp add: tail_fits_def)
next
  case (Suc n)
  let ?ps = "pageSize p"
  obtain fs pg where fr: "free p = fs @ [pg]" using Suc.prems(7) by (cases "free p" rule: rev_cases) auto
  have pg: "unat pg < N" and dfs: "pg \<notin> set fs" using Suc.prems(2,3) by (simp_all add: fr)
  note tf = tail_fits_Suc [OF Suc.prems(8,6)]
  define src where "src = take (min (i * ?ps + ?ps) (length b) - i * ?ps) (drop (i * ?ps) b)"
  have sl: "length src = min ?ps (length b - i * ?ps)" by (simp add: src_def)
  have sb: "src = take (length src) (drop (i * ?ps) b)" using sl by (simp add: src_def)
  have gs: "go_slice b (i * ?ps) (min (i * ?ps + ?ps) (length b)) = Some src" using tf(1) by (simp add: go_slice_def src_def)
  define ar1 where "ar1 = go_copy (arena p) (unat pg * ?ps) (length (arena p)) src"
  define p1 where "p1 = p\<lparr>free := fs, arena := ar1\<rparr>"
  have "length src \<le> ?ps" using sl by simp
  note pc = page_copy [OF pg Suc.prems(5) this, folded ar1_def]
  have "arena_from (p\<lparr>free := fs\<rparr>) pg = Some (unat pg * ?ps)"
    using arena_from_page [OF pg Suc.prems(4), of "p\<lparr>free := fs\<rparr>"] Suc.prems(5) by simp
  moreover have "(pre @ replicate (Suc n) 0)[i := pg] = (pre @ [pg]) @ replicate n 0"
    using Suc.prems(1) by (simp add: list_update_append)
  ultimately have step: "fill_loop b i (Suc n) (pre @ replicate (Suc n) 0) p = fill_loop b (Suc i) n ((pre @ [pg]) @ replicate n 0) p1"
    using gs by (simp add: fr Let_def p1_def ar1_def del: replicate_Suc)
  obtain pgs fs' ar where ih: "fill_loop b (Suc i) n ((pre @ [pg]) @ replicate n 0) p1 = Some ((pre @ [pg]) @ pgs, p1\<lparr>free := fs', arena := ar\<rparr>)"
    "length ar = length ar1" "length pgs = n" "fs = fs' @ rev pgs"
    "\<And>g. g \<notin> set pgs \<Longrightarrow> page ?ps ar g = page ?ps ar1 g"
    "take (length b - Suc i * ?ps) (concat (map (page ?ps ar) pgs)) = drop (Suc i * ?ps) b"
    using Suc.IH [of "pre @ [pg]" "Suc i" p1] Suc.prems tf(2) pc(1) by (auto simp: p1_def fr)
  have pgn: "pg \<notin> set pgs" using dfs ih(4) by auto
  have "page ?ps ar pg = src @ drop (length src) (page ?ps (arena p) pg)" using ih(5) [OF pgn] pc(2) by simp
  moreover have "length (page ?ps (arena p) pg) = ?ps"
    using mult_Suc_le [OF pg, of ?ps] Suc.prems(5) by (simp add: page_def)
  ultimately have "take (length b - i * ?ps) (page ?ps ar pg @ concat (map (page ?ps ar) pgs)) = drop (i * ?ps) b"
    using take_page_concat [OF sl _ _ sb refl Suc.prems(8,6) ih(6)] by blast
  moreover have "page ?ps ar g = page ?ps (arena p) g" if "g \<notin> set (pg # pgs)" for g
    using that ih(5) [of g] pc(3) [of g] by simp
  ultimately show ?case unfolding step ih(1)
    by (intro exI [of _ "pg # pgs"] exI [of _ fs'] exI [of _ ar]) (simp add: p1_def ih(2-4) pc(1) fr)
qed

lemma read_loop_ok:
  "length dn = i * pageSize p \<Longrightarrow> \<forall>pg \<in> set pgs. unat pg < N \<Longrightarrow> N \<le> 2 ^ 31 \<Longrightarrow>
   length (arena p) = N * pageSize p \<Longrightarrow> 0 < pageSize p \<Longrightarrow> sz = length dn + length rst \<Longrightarrow>
   tail_fits (pageSize p) i (length pgs) sz \<Longrightarrow>
   read_loop p sz i pgs (dn @ rst) = Some (dn @ take (length rst) (concat (map (page (pageSize p) (arena p)) pgs)))"
proof (induction pgs arbitrary: i dn rst)
  case Nil
  then show ?case by (simp add: tail_fits_def)
next
  case (Cons pg pgs)
  let ?ps = "pageSize p"
  have pg: "unat pg < N" using Cons.prems(2) by simp
  have af: "arena_from p pg = Some (unat pg * ?ps)" by (rule arena_from_page [OF pg Cons.prems(3,4)])
  have tl: "tail_fits ?ps i (Suc (length pgs)) sz" using Cons.prems(7) by simp
  note tf = tail_fits_Suc [OF tl Cons.prems(5)]
  define m where "m = min ?ps (length rst)"
  have hi: "min (i * ?ps + ?ps) sz = length dn + m" using Cons.prems(1,6) by (simp add: m_def)
  have lp: "length (page ?ps (arena p) pg) = ?ps"
    using mult_Suc_le [OF pg, of ?ps] Cons.prems(4) by (simp add: page_def)
  have "m \<le> ?ps" by (simp add: m_def)
  then have "m \<le> length (arena p) - unat pg * ?ps"
    unfolding Cons.prems(4) using mult_Suc_le [OF pg, of ?ps] by linarith
  then have cp: "go_copy (dn @ rst) (i * ?ps) (length dn + m) (drop (unat pg * ?ps) (arena p)) =
      dn @ take m (page ?ps (arena p) pg) @ drop m rst"
    using Cons.prems(1) by (simp add: go_copy_def Let_def page_def m_def)
  have step: "read_loop p sz i (pg # pgs) (dn @ rst) = read_loop p sz (Suc i) pgs (dn @ take m (page ?ps (arena p) pg) @ drop m rst)"
  proof -
    have "\<not> (length dn + m < i * ?ps \<or> length (dn @ rst) < length dn + m)" using Cons.prems(1) by (simp add: m_def)
    then show ?thesis unfolding read_loop.simps Let_def hi by (simp add: af cp del: not_less)
  qed
  show ?case
  proof (cases "pgs = []")
    case True
    then have "length rst \<le> ?ps" using tf(3) Cons.prems(1,6) by simp
    then show ?thesis using True unfolding step by (simp add: m_def)
  next
    case False
    then have m: "m = ?ps" "?ps < length rst" using tf(4) Cons.prems(1,6) by (simp_all add: m_def)
    have "read_loop p sz (Suc i) pgs ((dn @ page ?ps (arena p) pg) @ drop ?ps rst) =
        Some ((dn @ page ?ps (arena p) pg) @ take (length (drop ?ps rst)) (concat (map (page ?ps (arena p)) pgs)))"
      using Cons.prems m(2) lp tf(2) by (intro Cons.IH) simp_all
    then show ?thesis unfolding step m(1) using m(2) lp by simp
  qed
qed

subsection \<open>The operations on a well-formed store\<close>

lemma page_inv_pages:
  assumes "page_inv p xs"
  shows "distinct (free p @ used_pages p xs)" and "\<forall>pg \<in> set (free p @ used_pages p xs). unat pg < nPages p"
proof -
  let ?all = "map (word_of_nat :: nat \<Rightarrow> 32 word) [0..<nPages p]"
  have le: "nPages p \<le> 2 ^ 31" and m: "mset (free p @ used_pages p xs) = mset ?all"
    using assms by (simp_all only: page_inv_def)
  have u: "unat (word_of_nat k :: 32 word) = k" if "k < nPages p" for k
    using that le by (simp add: unsigned_of_nat take_bit_nat_eq_self)
  have "inj_on (word_of_nat :: nat \<Rightarrow> 32 word) {0..<nPages p}" by (rule inj_on_inverseI [of _ unat]) (simp add: u)
  then have "distinct ?all" by (simp add: distinct_map)
  then show "distinct (free p @ used_pages p xs)" using mset_eq_imp_distinct_iff [OF m] by simp
  show "\<forall>pg \<in> set (free p @ used_pages p xs). unat pg < nPages p" using mset_eq_setD [OF m] u by auto
qed

lemma pstats_inv:
  assumes "paged_inv p xs" and "OccupancyBytes st = OccupancyBytes (pstats p)"
  shows "agree p (p\<lparr>pstats := st\<rparr>)" and "paged_inv (p\<lparr>pstats := st\<rparr>) xs"
proof -
  show ag: "agree p (p\<lparr>pstats := st\<rparr>)" using assms(2) by (simp add: agree_def)
  have "dll (p\<lparr>pstats := st\<rparr>) xs \<longleftrightarrow> dll p xs" by (rule dll_links) simp_all
  then show "paged_inv (p\<lparr>pstats := st\<rparr>) xs" using paged_inv_agree [OF ag assms(1)] assms(1) by (simp add: paged_inv_def paged_core_def)
qed

lemma pitems_in: "paged_inv p xs \<Longrightarrow> pitems p i = Some a \<Longrightarrow> a \<in> set xs"
  by (simp add: paged_inv_def paged_core_def items_inv_def)

lemma Paged_touch_laws:
  assumes "paged_inv p xs" and "pitems p i = Some a" and "OccupancyBytes st = OccupancyBytes (pstats p)"
  shows "agree p (ptouch F a (p\<lparr>pstats := st\<rparr>))" and "paged_inv (ptouch F a (p\<lparr>pstats := st\<rparr>)) (a # remove1 a xs)"
proof -
  note q = pstats_inv [OF assms(1,3)]
  note t = ptouch_inv [OF q(2) pitems_in [OF assms(1,2)], of F]
  show "agree p (ptouch F a (p\<lparr>pstats := st\<rparr>))" using q(1) t(1) by (rule agree_trans)
  show "paged_inv (ptouch F a (p\<lparr>pstats := st\<rparr>)) (a # remove1 a xs)" by (rule t(2))
qed

lemma Paged_Get_inv:
  assumes inv: "paged_inv p xs"
  shows "\<exists>p'. Paged_Get F i p = Some (paged_contents p i, p') \<and> paged_wf p' \<and> paged_contents p' = paged_contents p"
proof (cases "pitems p i")
  case None
  define q where "q = p\<lparr>pstats := (pstats p)\<lparr>Misses := Misses (pstats p) + 1\<rparr>\<rparr>"
  have "agree p q" "paged_inv q xs" unfolding q_def using pstats_inv [OF inv] by simp_all
  then show ?thesis using agree_contents [of p q] None unfolding paged_wf_def
    by (auto simp: Paged_Get_def q_def [symmetric] paged_contents_def [of p i])
next
  case (Some a)
  define q where "q = ptouch F a (p\<lparr>pstats := (pstats p)\<lparr>Hits := Hits (pstats p) + 1\<rparr>\<rparr>)"
  have ag: "agree p q" and iq: "paged_inv q (a # remove1 a xs)"
    unfolding q_def using Paged_touch_laws [OF inv Some] by simp_all
  define e where "e = heap q a"
  have g: "page_inv q (a # remove1 a xs)" using iq by (simp add: paged_inv_def paged_core_def)
  then have fits: "tail_fits (pageSize q) 0 (length (epages e)) (epsize e)" "0 < pageSize q" "nPages q \<le> 2 ^ 31"
    "length (arena q) = nPages q * pageSize q"
    using pagesNeeded_fits [of q "epsize e"] by (simp_all add: page_inv_def e_def)
  have "\<forall>pg \<in> set (epages e). unat pg < nPages q" using page_inv_pages(2) [OF g] by (simp add: used_pages_def e_def)
  then have rd: "read_loop q (epsize e) 0 (epages e) (replicate (epsize e) 0) =
      Some (take (epsize e) (concat (map (page (pageSize q) (arena q)) (epages e))))"
    using read_loop_ok [of "[]" 0 q "epages e" "nPages q" "epsize e" "replicate (epsize e) 0"] fits by simp
  have "Paged_Get F i p = Some (Some (entry_blk q a), q)"
    using rd by (simp add: Paged_Get_def Some Let_def q_def [symmetric] e_def [symmetric] entry_blk_def)
  moreover have "paged_contents p i = Some (entry_blk q a)" using Some agree_sel(5) [OF ag] by (simp add: paged_contents_def)
  ultimately show ?thesis using iq agree_contents [OF ag] unfolding paged_wf_def by auto
qed

lemma Paged_Contains_inv:
  assumes inv: "paged_inv p xs"
  shows "\<exists>p'. Paged_Contains F i p = Some (paged_contents p i \<noteq> None, p') \<and> paged_wf p' \<and> paged_contents p' = paged_contents p"
proof (cases "pitems p i")
  case None
  define q where "q = p\<lparr>pstats := (pstats p)\<lparr>Misses := Misses (pstats p) + 1\<rparr>\<rparr>"
  have "agree p q" "paged_inv q xs" unfolding q_def using pstats_inv [OF inv] by simp_all
  then show ?thesis using agree_contents [of p q] None unfolding paged_wf_def
    by (auto simp: Paged_Contains_def q_def [symmetric] paged_contents_def [of p i])
next
  case (Some a)
  define q where "q = ptouch F a (p\<lparr>pstats := (pstats p)\<lparr>Hits := Hits (pstats p) + 1\<rparr>\<rparr>)"
  have "agree p q" "paged_inv q (a # remove1 a xs)" unfolding q_def using Paged_touch_laws [OF inv Some] by simp_all
  then show ?thesis using agree_contents [of p q] Some unfolding paged_wf_def
    by (auto simp: Paged_Contains_def q_def [symmetric] paged_contents_def [of p i])
qed

lemma Paged_Touch_inv:
  assumes inv: "paged_inv p xs"
  shows "\<exists>p'. Paged_Touch F i p = Some p' \<and> paged_wf p' \<and> paged_contents p' = paged_contents p"
proof (cases "pitems p i")
  case None
  then show ?thesis using inv by (auto simp: Paged_Touch_def paged_wf_def)
next
  case (Some a)
  have "agree p (ptouch F a p)" "paged_inv (ptouch F a p) (a # remove1 a xs)"
    using ptouch_inv [OF inv pitems_in [OF inv Some], of F] by simp_all
  then show ?thesis using agree_contents [of p "ptouch F a p"] Some unfolding paged_wf_def by (auto simp: Paged_Touch_def)
qed

text \<open>The new entry of a \<open>Put\<close>: \<open>insert_entry\<close> is the state just before it enters the recency list.\<close>

definition new_entry :: "'f float64 \<Rightarrow> blk \<Rightarrow> 32 word list \<Rightarrow> 'f Paged \<Rightarrow> 'f pagedEntry" where
  "new_entry F b pages p = \<lparr>eid = bID b, eparentID = bParentID b, emodelID = bModelID b, etokenCount = bTokenCount b,
     ecostUS = bCostUS b, epsize = length (bPayload b), epages = pages, orderIdx = length (order p), lastAccess = 0,
     freq = ofInt F 0, eprev = None, enext = None\<rparr>"

definition insert_entry :: "'f float64 \<Rightarrow> blk \<Rightarrow> 32 word list \<Rightarrow> 'f Paged \<Rightarrow> 'f Paged" where
  "insert_entry F b pages p = p\<lparr>gnext := Suc (gnext p), heap := (heap p)(gnext p := new_entry F b pages p),
     order := order p @ [gnext p], pitems := (pitems p)(bID b \<mapsto> gnext p)\<rparr>"

end
