(* ===== verification/PagedStore.thy ===== *)
theory PagedStore
  imports Paged
begin

text \<open>
  The paged store keeps the contract of a block store: \<open>Put\<close> on a well-formed store, the
  interpretation of \<open>store_contract\<close>, and the properties of the store.
\<close>

lemma agree_parts:
  assumes "agree p p'"
  shows "items_inv p' xs \<longleftrightarrow> items_inv p xs" "order_inv p' xs \<longleftrightarrow> order_inv p xs" "page_inv p' xs \<longleftrightarrow> page_inv p xs"
proof -
  note sel = agree_sel [OF assms]
  have f: "pageSize p' = pageSize p" "arena p' = arena p" "free p' = free p" "pitems p' = pitems p" "order p' = order p"
    "gnext p' = gnext p"
    using assms by (simp_all add: agree_def)
  show "items_inv p' xs \<longleftrightarrow> items_inv p xs" "order_inv p' xs \<longleftrightarrow> order_inv p xs" "page_inv p' xs \<longleftrightarrow> page_inv p xs"
    unfolding items_inv_def order_inv_def page_inv_def nPages_def pagesNeeded_def used_pages_def f sel by simp_all
qed

lemma fresh_entry:
  assumes "paged_core p xs"
  shows "gnext p \<notin> set xs"
  using assms by (auto simp: paged_core_def items_inv_def)

lemma pages_written_apart:
  assumes core: "paged_core p xs" and fr: "free p = fs @ rev pgs" and a: "a \<in> set xs"
  shows "set (epages (heap p a)) \<inter> set pgs = {}"
proof -
  have "distinct (free p @ used_pages p xs)" by (rule page_inv_pages(1)) (use core in \<open>simp add: paged_core_def\<close>)
  moreover have "set (epages (heap p a)) \<subseteq> set (used_pages p xs)" using a by (auto simp: used_pages_def)
  ultimately show ?thesis by (auto simp: fr)
qed

lemma insert_entry_core:
  assumes core: "paged_core p xs" and new: "pitems p (bID b) = None"
    and fr: "free p = fs @ rev pgs" and ar: "length ar = length (arena p)"
    and n: "length pgs = pagesNeeded p (length (bPayload b))" and ne: "0 < length (bPayload b)"
    and q_def: "q = insert_entry F b pgs (p\<lparr>free := fs, arena := ar\<rparr>)"
  shows "paged_core (lruPushFront (gnext p) q) (gnext p # xs)"
proof -
  let ?e = "gnext p" and ?q = "lruPushFront (gnext p) q"
  note fresh = fresh_entry [OF core]
  have d: "dll p xs" and i: "items_inv p xs" and o: "order_inv p xs" and g: "page_inv p xs"
    using core by (simp_all add: paged_core_def)
  have h: "heap q = (heap p)(?e := new_entry F b pgs (p\<lparr>free := fs, arena := ar\<rparr>))" by (simp add: q_def insert_entry_def)
  have "dll q xs" using d fresh by (simp add: dll_def h) (simp add: q_def insert_entry_def)
  then have dq: "dll ?q (?e # xs)" by (rule lruPushFront_dll [OF _ fresh])
  have ag: "agree q ?q" by (rule agree_relinked) simp
  have "eid (heap p a) \<noteq> bID b" if "a \<in> set xs" for a
  proof
    assume "eid (heap p a) = bID b"
    then have "pitems p (bID b) = Some a" using i that unfolding items_inv_def by blast
    then show False using new by simp
  qed
  then have "items_inv q (?e # xs)"
    unfolding items_inv_def h using i new fresh by (auto simp: q_def insert_entry_def new_entry_def items_inv_def)
  moreover have "order p ! k \<noteq> ?e" if "k < length (order p)" for k
    using nth_mem [OF that] o fresh by (auto simp: order_inv_def)
  then have "order_inv q (?e # xs)"
    using o fresh by (auto simp: order_inv_def q_def insert_entry_def new_entry_def nth_append less_Suc_eq)
  moreover have "page_inv q (?e # xs)"
  proof -
    have hx: "heap q a = heap p a" if "a \<in> set xs" for a using that fresh by (auto simp: h)
    then have u: "used_pages q (?e # xs) = pgs @ used_pages p xs"
      by (simp add: used_pages_def h new_entry_def) (simp add: h [symmetric] cong: map_cong)
    have f: "pageSize q = pageSize p" "length (arena q) = length (arena p)" "free q = fs"
      using ar by (simp_all add: q_def insert_entry_def)
    then have "nPages q = nPages p" "pagesNeeded q k = pagesNeeded p k" for k by (simp_all add: nPages_def pagesNeeded_def)
    moreover have "mset (free q @ used_pages q (?e # xs)) = mset (free p @ used_pages p xs)"
      unfolding u f fr by simp
    moreover have "epsize (heap q ?e) = length (bPayload b)" "epages (heap q ?e) = pgs" by (simp_all add: h new_entry_def)
    ultimately show ?thesis using g n ne hx unfolding page_inv_def f by simp
  qed
  ultimately show ?thesis using dq agree_parts [OF ag] by (simp add: paged_core_def)
qed

lemma insert_entry_contents:
  assumes core: "paged_core p xs" and new: "pitems p (bID b) = None" and fr: "free p = fs @ rev pgs"
    and keep: "\<forall>pg. pg \<notin> set pgs \<longrightarrow> page (pageSize p) ar pg = page (pageSize p) (arena p) pg"
    and pay: "take (length (bPayload b)) (concat (map (page (pageSize p) ar) pgs)) = bPayload b"
    and q_def: "q = insert_entry F b pgs (p\<lparr>free := fs, arena := ar\<rparr>)"
  shows "paged_contents q = (paged_contents p)(bID b \<mapsto> b)"
proof
  fix i
  show "paged_contents q i = ((paged_contents p)(bID b \<mapsto> b)) i"
  proof (cases "i = bID b")
    case True
    have "entry_blk q (gnext p) = b" using pay by (simp add: entry_blk_def Let_def q_def insert_entry_def new_entry_def)
    then show ?thesis using True by (simp add: paged_contents_def) (simp add: q_def insert_entry_def)
  next
    case False
    have "entry_blk q a = entry_blk p a" if "pitems p i = Some a" for a
    proof -
      have a: "a \<in> set xs" using core that by (simp add: paged_core_def items_inv_def)
      then have "a \<noteq> gnext p" using fresh_entry [OF core] by auto
      moreover have "map (page (pageSize p) ar) (epages (heap p a)) = map (page (pageSize p) (arena p)) (epages (heap p a))"
        using pages_written_apart [OF core fr a] keep by auto
      ultimately show ?thesis by (simp add: entry_blk_def Let_def q_def insert_entry_def cong: map_cong)
    qed
    moreover have "pitems q i = pitems p i" using False by (simp add: q_def insert_entry_def)
    ultimately show ?thesis using False by (cases "pitems p i") (simp_all add: paged_contents_def)
  qed
qed

lemma pstats_core [simp]:
  "paged_core (p\<lparr>pstats := s\<rparr>) xs \<longleftrightarrow> paged_core p xs" "paged_contents (p\<lparr>pstats := s\<rparr>) = paged_contents p"
proof -
  have "dll (p\<lparr>pstats := s\<rparr>) xs \<longleftrightarrow> dll p xs" by (rule dll_links) simp_all
  then show "paged_core (p\<lparr>pstats := s\<rparr>) xs \<longleftrightarrow> paged_core p xs"
    by (simp add: paged_core_def items_inv_def order_inv_def page_inv_def nPages_def pagesNeeded_def used_pages_def)
  have "entry_blk (p\<lparr>pstats := s\<rparr>) = entry_blk p" by (rule ext) (simp add: entry_blk_def)
  then show "paged_contents (p\<lparr>pstats := s\<rparr>) = paged_contents p" by (intro ext) (simp add: paged_contents_def)
qed

text \<open>The last steps of \<open>Put\<close>, from the written pages on.\<close>

lemma Put_finish:
  assumes inv: "paged_inv p xs" and new: "pitems p (bID b) = None"
    and fr: "free p = fs @ rev pgs" and ar: "length ar = length (arena p)"
    and n: "length pgs = pagesNeeded p (length (bPayload b))" and ne: "0 < length (bPayload b)"
    and keep: "\<forall>pg. pg \<notin> set pgs \<longrightarrow> page (pageSize p) ar pg = page (pageSize p) (arena p) pg"
    and pay: "take (length (bPayload b)) (concat (map (page (pageSize p) ar) pgs)) = bPayload b"
    and q_def: "q = insert_entry F b pgs (p\<lparr>free := fs, arena := ar\<rparr>)"
    and r_def: "r = ptouch F (gnext p) (lruPushFront (gnext p) q)"
    and r'_def: "r' = r\<lparr>pstats := (pstats r)\<lparr>OccupancyBytes := OccupancyBytes (pstats r) + word_of_nat (length pgs * pageSize r)\<rparr>\<rparr>"
  shows "paged_inv r' (gnext p # xs)" and "paged_contents r' = (paged_contents p)(bID b \<mapsto> b)"
    and "agree q r"
proof -
  let ?e = "gnext p"
  have core: "paged_core p xs" and occ: "occ_inv p xs" using inv by (simp_all add: paged_inv_def)
  have c1: "paged_core (lruPushFront ?e q) (?e # xs)" by (rule insert_entry_core [OF core new fr ar n ne q_def])
  have "agree q (lruPushFront ?e q)" by (rule agree_relinked) simp
  moreover have "agree (lruPushFront ?e q) r" unfolding r_def by (rule ptouch_core(1) [OF c1]) simp
  ultimately show ag: "agree q r" by (rule agree_trans)
  have "paged_core r (?e # remove1 ?e (?e # xs))" unfolding r_def by (rule ptouch_core(2) [OF c1]) simp
  then have c2: "paged_core r' (?e # xs)" by (simp add: r'_def)
  have f: "pageSize r = pageSize p" "OccupancyBytes (pstats r) = OccupancyBytes (pstats p)"
    and ep: "epages (heap r ?e) = pgs" "\<And>a. a \<in> set xs \<Longrightarrow> epages (heap r a) = epages (heap p a)"
    using ag fresh_entry [OF core] unfolding agree_sel(2) [OF ag]
    by (auto simp: agree_def q_def insert_entry_def new_entry_def)
  have "length (used_pages r (?e # xs)) = length pgs + length (used_pages p xs)"
    using ep by (simp add: used_pages_def cong: map_cong)
  moreover have "used_pages r' (?e # xs) = used_pages r (?e # xs)" by (simp add: r'_def used_pages_def)
  ultimately have "occ_inv r' (?e # xs)" using occ by (simp add: occ_inv_def r'_def f algebra_simps)
  then show "paged_inv r' (?e # xs)" using c2 by (simp add: paged_inv_def)
  show "paged_contents r' = (paged_contents p)(bID b \<mapsto> b)"
    using insert_entry_contents [OF core new fr keep pay q_def] agree_contents [OF ag] by (simp add: r'_def)
qed

text \<open>A \<open>Put\<close> is admitted exactly when the block is absent, not empty, and no larger than the arena.\<close>

definition admits :: "'f Paged \<Rightarrow> blk \<Rightarrow> bool" where
  "admits p b \<longleftrightarrow> paged_contents p (bID b) = None \<and> 0 < length (bPayload b) \<and> length (bPayload b) \<le> length (arena p)"

lemma admits_need:
  assumes inv: "paged_inv p xs" and new: "pitems p (bID b) = None"
  shows "admits p b \<longleftrightarrow> \<not> (pagesNeeded p (length (bPayload b)) = 0 \<or> pagesNeeded p (length (bPayload b)) > length (arena p) div pageSize p)"
proof -
  have ps: "0 < pageSize p" and ar: "length (arena p) = nPages p * pageSize p"
    using inv by (simp_all add: paged_inv_def paged_core_def page_inv_def)
  let ?len = "length (bPayload b)" and ?n = "pagesNeeded p (length (bPayload b))"
  show ?thesis
  proof (cases "?len = 0")
    case True
    then have "?n = 0" using ps by (simp add: pagesNeeded_def)
    then show ?thesis using True by (simp add: admits_def)
  next
    case False
    then have "tail_fits (pageSize p) 0 ?n ?len" by (intro pagesNeeded_fits [OF ps]) simp
    then have n: "?n \<noteq> 0" "(?n - 1) * pageSize p < ?len" "?len \<le> ?n * pageSize p"
      using False by (auto simp: tail_fits_def split: if_splits)
    have "?len \<le> nPages p * pageSize p \<longleftrightarrow> ?n \<le> nPages p"
    proof
      assume "?len \<le> nPages p * pageSize p"
      then have "(?n - 1) * pageSize p < nPages p * pageSize p" using n(2) by (rule order_less_le_trans [rotated])
      then have "?n - 1 < nPages p" by simp
      then show "?n \<le> nPages p" using n(1) by linarith
    next
      assume "?n \<le> nPages p"
      then have "?n * pageSize p \<le> nPages p * pageSize p" by (rule mult_le_mono1)
      then show "?len \<le> nPages p * pageSize p" using n(3) by (rule order_trans [rotated])
    qed
    then show ?thesis using False n(1) new unfolding admits_def ar nPages_def [symmetric]
      by (auto simp: paged_contents_def not_less)
  qed
qed

lemma Paged_Put_new:
  assumes inv: "paged_inv p xs" and ad: "admits p b"
  shows "\<exists>p' e xs'. Paged_Put F b p = Some (True, p') \<and> paged_inv p' (e # xs') \<and> eid (heap p' e) = bID b \<and>
    (\<forall>a \<in> set xs'. eid (heap p' a) = eid (heap p a)) \<and> paged_contents p' (bID b) = Some b \<and>
    paged_contents p' \<subseteq>\<^sub>m (paged_contents p)(bID b \<mapsto> b) \<and>
    (pol p \<noteq> EvictCost \<longrightarrow> kept_recent (pagesNeeded p (length (bPayload b))) p xs xs')"
proof -
  let ?need = "pagesNeeded p (length (bPayload b))"
  have new: "pitems p (bID b) = None" and ne: "0 < length (bPayload b)" using ad by (simp_all add: admits_def paged_contents_def)
  have need: "?need \<noteq> 0" "\<not> ?need > length (arena p) div pageSize p" using admits_need [OF inv new] ad by auto
  then have "?need \<le> nPages p" by (simp add: nPages_def)
  from evict_until_inv [OF inv this] obtain p1 xs1 where p1: "evict_until F ?need p = Some (True, p1)" "paged_inv p1 xs1"
    "evicted p p1" "?need \<le> length (free p1)" "pol p \<noteq> EvictCost \<longrightarrow> kept_recent ?need p xs xs1" by blast
  have f1: "pageSize p1 = pageSize p" "paged_contents p1 \<subseteq>\<^sub>m paged_contents p" "\<And>a. eid (heap p1 a) = eid (heap p a)"
    using p1(3) by (simp_all add: evicted_def)
  have nd: "?need = pagesNeeded p1 (length (bPayload b))" by (simp add: pagesNeeded_def f1(1))
  have new1: "pitems p1 (bID b) = None"
  proof -
    have "paged_contents p1 (bID b) = None" using f1(2) ad unfolding admits_def map_le_def by (metis domIff)
    then show ?thesis by (simp add: paged_contents_def)
  qed
  have g: "page_inv p1 xs1" using p1(2) by (simp add: paged_inv_def paged_core_def)
  have pg: "0 < pageSize p1" "nPages p1 \<le> 2 ^ 31" "length (arena p1) = nPages p1 * pageSize p1" "distinct (free p1)"
    "\<forall>pg \<in> set (free p1). unat pg < nPages p1"
    using g page_inv_pages [OF g] by (simp_all add: page_inv_def)
  have tf: "tail_fits (pageSize p1) 0 ?need (length (bPayload b))" unfolding nd by (rule pagesNeeded_fits [OF pg(1) ne])
  obtain pgs fs ar where fl: "fill_loop (bPayload b) 0 ?need (replicate ?need 0) p1 = Some (pgs, p1\<lparr>free := fs, arena := ar\<rparr>)"
    and l: "length ar = length (arena p1)" "length pgs = ?need" "free p1 = fs @ rev pgs"
    and keep: "\<forall>pg. pg \<notin> set pgs \<longrightarrow> page (pageSize p1) ar pg = page (pageSize p1) (arena p1) pg"
    and pay: "take (length (bPayload b)) (concat (map (page (pageSize p1) ar) pgs)) = bPayload b"
    using fill_loop_ok [of "[]" 0 p1 "nPages p1" ?need "bPayload b"] pg p1(4) tf by auto
  define q where "q = insert_entry F b pgs (p1\<lparr>free := fs, arena := ar\<rparr>)"
  define r where "r = ptouch F (gnext p1) (lruPushFront (gnext p1) q)"
  define r' where "r' = r\<lparr>pstats := (pstats r)\<lparr>OccupancyBytes := OccupancyBytes (pstats r) + word_of_nat (length pgs * pageSize r)\<rparr>\<rparr>"
  note fin = Put_finish [OF p1(2) new1 l(3,1) l(2) [unfolded nd] ne keep pay q_def r_def r'_def]
  have "Paged_Put F b p = Some (True, r')"
    using need p1(1) fl by (simp add: Paged_Put_def new Let_def r'_def r_def q_def insert_entry_def new_entry_def l(2))
  moreover have "eid (heap r' (gnext p1)) = bID b" "\<forall>a \<in> set xs1. eid (heap r' a) = eid (heap p a)"
    using agree_sel(1) [OF fin(3)] f1(3) fresh_entry [of p1 xs1] p1(2)
    by (auto simp: r'_def q_def insert_entry_def new_entry_def paged_inv_def)
  moreover have "paged_contents r' \<subseteq>\<^sub>m (paged_contents p)(bID b \<mapsto> b)" unfolding fin(2) using f1(2) by (rule map_le_upd)
  moreover have "paged_contents r' (bID b) = Some b" by (simp add: fin(2))
  ultimately show ?thesis using fin(1) p1(5) by blast
qed

lemma Paged_Put_present:
  assumes inv: "paged_inv p xs" and a: "pitems p (bID b) = Some a"
  shows "Paged_Put F b p = Some (False, ptouch F a p)" and "paged_inv (ptouch F a p) (a # remove1 a xs)"
    and "agree p (ptouch F a p)"
  using ptouch_inv [OF inv pitems_in [OF inv a], of F] by (simp_all add: Paged_Put_def a)

lemma Paged_Put_refused:
  assumes inv: "paged_inv p xs" and a: "pitems p (bID b) = None" and ad: "\<not> admits p b"
  shows "Paged_Put F b p = Some (False, p)"
  using admits_need [OF inv a] ad by (simp add: Paged_Put_def a Let_def)

interpretation paged: store_contract "paged_ops F" paged_contents paged_wf for F
proof
  fix p :: "'a Paged" and i assume "paged_wf p"
  then obtain xs where inv: "paged_inv p xs" by (auto simp: paged_wf_def)
  show "\<exists>p'. st_Get (paged_ops F) i p = Some (paged_contents p i, p') \<and> paged_wf p' \<and> paged_contents p' = paged_contents p"
    using Paged_Get_inv [OF inv] by (simp add: paged_ops_def)
  show "\<exists>p'. st_Contains (paged_ops F) i p = Some (paged_contents p i \<noteq> None, p') \<and> paged_wf p' \<and> paged_contents p' = paged_contents p"
    using Paged_Contains_inv [OF inv] by (simp add: paged_ops_def)
  show "\<exists>p'. st_Touch (paged_ops F) i p = Some p' \<and> paged_wf p' \<and> paged_contents p' = paged_contents p"
    using Paged_Touch_inv [OF inv] by (simp add: paged_ops_def)
next
  fix p :: "'a Paged" and b assume "paged_wf p"
  then obtain xs where inv: "paged_inv p xs" by (auto simp: paged_wf_def)
  show "\<exists>r p'. st_Put (paged_ops F) b p = Some (r, p') \<and> paged_wf p' \<and>
      (if r then paged_contents p (bID b) = None \<and> paged_contents p' (bID b) = Some b \<and>
         paged_contents p' \<subseteq>\<^sub>m (paged_contents p)(bID b \<mapsto> b) else paged_contents p' = paged_contents p)"
  proof (cases "pitems p (bID b)")
    case None
    show ?thesis
    proof (cases "admits p b")
      case True
      obtain p' e xs' where p': "Paged_Put F b p = Some (True, p')" "paged_inv p' (e # xs')"
        "paged_contents p' (bID b) = Some b" "paged_contents p' \<subseteq>\<^sub>m (paged_contents p)(bID b \<mapsto> b)"
        using Paged_Put_new [OF inv True] by blast
      then show ?thesis using None by (auto simp: paged_ops_def paged_wf_def paged_contents_def [of p])
    next
      case False
      then show ?thesis using Paged_Put_refused [OF inv None False] inv by (auto simp: paged_ops_def paged_wf_def)
    qed
  next
    case (Some a)
    show ?thesis using Paged_Put_present [OF inv Some, of F] agree_contents by (fastforce simp: paged_ops_def paged_wf_def)
  qed
qed

lemma NewPaged_ok:
  assumes "0 < k" and "cap < 2 ^ 63" and "unat cap div nat k \<le> 2 ^ 31"
  shows "\<exists>p. NewPaged e0 seed cap k policy = Some p \<and> paged_inv p [] \<and> paged_contents p = Map.empty \<and> pol p = policy \<and>
    pageSize p = nat k \<and> nPages p = unat cap div nat k"
proof -
  define n where "n = unat cap div nat k"
  have uc: "unat cap < 2 ^ 63" using assms(2) by (simp add: word_less_nat_alt)
  then have "int (unat cap) < int (2 ^ 63)" by (simp only: of_nat_less_iff)
  then have u: "uint cap < 2 ^ 63" by simp
  moreover have "- (2 ^ 63) \<le> uint cap" by (rule order_trans [of _ 0]) simp_all
  ultimately have si: "sint cap = int (unat cap)" unfolding sint_uint by (subst signed_take_bit_int_eq_self) simp_all
  have dv: "sint cap div k = int n" unfolding si n_def zdiv_int using assms(1) by simp
  have len: "nat (int n * k) = n * nat k" using assms(1) by (simp add: nat_mult_distrib)
  have "n * nat k \<le> unat cap" unfolding n_def by (rule div_times_less_eq_dividend)
  then have lt: "n * nat k < 2 ^ 63" using uc by (rule order_le_less_trans)
  define p where "p = \<lparr>pageSize = nat k, arena = replicate (n * nat k) 0,
    free = map word_of_nat [0..<n], pitems = Map.empty, order = [], phead = None, ptail = None,
    clock = 0, rng = seed, pol = policy, pstats = stats0\<lparr>StCapacityBytes := word_of_int (int n * k)\<rparr>,
    heap = (\<lambda>_. e0), gnext = 0\<rparr>"
  have "NewPaged e0 seed cap k policy = Some p"
    using assms(1) by (simp add: NewPaged_def Let_def dv len p_def) (simp add: si)
  moreover have np: "nPages p = n" using assms(1) by (simp add: nPages_def p_def)
  have "paged_inv p []"
    using assms(1,3) lt np
    by (simp add: paged_inv_def paged_core_def dll_def items_inv_def order_inv_def page_inv_def occ_inv_def used_pages_def)
      (simp add: p_def stats0_def n_def)
  moreover have "paged_contents p = Map.empty" by (rule ext) (simp add: paged_contents_def p_def)
  ultimately show ?thesis using np by (intro exI [of _ p]) (simp add: p_def n_def)
qed

subsection \<open>Properties of the paged store\<close>

text \<open>The recency order of a store: the ids along its list.\<close>

definition ids :: "'f Paged \<Rightarrow> nat list \<Rightarrow> block_id list" where
  "ids p xs = map (\<lambda>a. eid (heap p a)) xs"

lemma distinct_ids:
  assumes "paged_inv p xs"
  shows "distinct (ids p xs)"
proof -
  have d: "distinct xs" and i: "\<And>j a. pitems p j = Some a \<longleftrightarrow> a \<in> set xs \<and> eid (heap p a) = j"
    using assms by (simp_all add: paged_inv_def paged_core_def dll_def items_inv_def)
  have "inj_on (\<lambda>a. eid (heap p a)) (set xs)"
  proof (rule inj_onI)
    fix a c assume "a \<in> set xs" "c \<in> set xs" "eid (heap p a) = eid (heap p c)"
    then have "pitems p (eid (heap p c)) = Some a" "pitems p (eid (heap p c)) = Some c" unfolding i by simp_all
    then show "a = c" by simp
  qed
  then show ?thesis using d by (simp add: ids_def distinct_map)
qed

lemma ids_front:
  assumes inv: "paged_inv p xs" and a: "pitems p i = Some a" and ag: "agree p p'"
  shows "ids p' (a # remove1 a xs) = i # filter (\<lambda>j. j \<noteq> i) (ids p xs)"
proof -
  have e: "a \<in> set xs" "eid (heap p a) = i" using inv a by (simp_all add: paged_inv_def paged_core_def items_inv_def)
  obtain us vs where xs: "xs = us @ a # vs" "a \<notin> set us" using split_list_first [OF e(1)] by blast
  have r: "remove1 a xs = us @ vs" using xs by (simp add: remove1_append)
  have "distinct (map id (ids p us @ i # ids p vs))" using distinct_ids [OF inv] e(2) by (simp add: xs ids_def)
  from filter_one_key [OF this] have "filter (\<lambda>j. j \<noteq> i) (ids p xs) = ids p us @ ids p vs"
    using e(2) by (simp add: xs ids_def)
  then show ?thesis using e(2) agree_sel(1) [OF ag] by (simp add: r ids_def)
qed

definition demo_float :: "nat float64" where
  "demo_float = \<lparr>ofU64 = unat, ofInt = nat, fadd = (+), fsub = (-), fmul = (*), fdiv = (div), fneg = (\<lambda>x. x), Exp2 = (\<lambda>x. 2 ^ x), fless = (<), fle = (\<le>), fmin = min\<rparr>"

definition demo_entry :: "nat pagedEntry" where
  "demo_entry = \<lparr>eid = [], eparentID = [], emodelID = [], etokenCount = 0, ecostUS = 0, epsize = 0, epages = [],
     orderIdx = 0, lastAccess = 0, freq = 0, eprev = None, enext = None\<rparr>"



text \<open>
  C24: a round trip through the arena: after a \<open>Put\<close> that reports the block as stored, \<open>Get\<close> of its id
  returns exactly that block, its payload reassembled from the pages it was split over, whatever was
  evicted to make room.
\<close>

theorem Paged_Put_Get_roundtrip:
  assumes "paged_inv p xs" and "blk_ok b" and "Paged_Put F b p = Some (True, p')"
  shows "\<exists>p''. Paged_Get F (bID b) p' = Some (Some b, p'')"
proof -
  have "paged_wf p" using assms(1) by (auto simp: paged_wf_def)
  then show ?thesis using paged.put_get [of p b F p'] assms(2,3) by (auto simp: paged_ops_def)
qed

text \<open>
  C23: \<open>Put\<close> on the paged store is decided by what is stored and by the size alone: it stores exactly
  when the block is absent, not empty, and fits the whole arena, so fragmentation never refuses a block.
  A block already there moves to the front of the recency order; a refused one leaves the store
  untouched; a stored one comes first, and under the LRU policy the blocks that survive are the most
  recently used ones, and keeping one more would have left too few pages.
\<close>

theorem Paged_Put_spec:
  assumes inv: "paged_inv p xs"
  shows "\<exists>stored p' ys. Paged_Put F b p = Some (stored, p') \<and> paged_inv p' ys \<and>
    (stored \<longleftrightarrow> paged_contents p (bID b) = None \<and> 0 < length (bPayload b) \<and> length (bPayload b) \<le> length (arena p)) \<and>
    (if stored then \<exists>xs'. ids p' ys = bID b # ids p xs' \<and>
       (pol p \<noteq> EvictCost \<longrightarrow> kept_recent (pagesNeeded p (length (bPayload b))) p xs xs')
     else if paged_contents p (bID b) = None then p' = p
     else ids p' ys = bID b # filter (\<lambda>j. j \<noteq> bID b) (ids p xs))"
proof (cases "pitems p (bID b)")
  case (Some a)
  then show ?thesis using Paged_Put_present [OF inv Some, of F] ids_front [OF inv Some]
    by (intro exI [of _ False] exI [of _ "ptouch F a p"] exI [of _ "a # remove1 a xs"]) (simp add: paged_contents_def)
next
  case None
  show ?thesis
  proof (cases "admits p b")
    case True
    obtain p' e xs' where p': "Paged_Put F b p = Some (True, p')" "paged_inv p' (e # xs')" "eid (heap p' e) = bID b"
      "\<forall>a \<in> set xs'. eid (heap p' a) = eid (heap p a)"
      "pol p \<noteq> EvictCost \<longrightarrow> kept_recent (pagesNeeded p (length (bPayload b))) p xs xs'"
      using Paged_Put_new [OF inv True] by blast
    then have "ids p' (e # xs') = bID b # ids p xs'" by (simp add: ids_def)
    then show ?thesis using p' True
      by (intro exI [of _ True] exI [of _ p'] exI [of _ "e # xs'"]) (auto simp: admits_def)
  next
    case False
    then show ?thesis using Paged_Put_refused [OF inv None False] inv None
      by (intro exI [of _ False] exI [of _ p] exI [of _ xs]) (auto simp: admits_def paged_contents_def)
  qed
qed

lemma demo_paged:
  "\<exists>p. NewPaged demo_entry (sconst 0) 8 2 ''lru'' = Some p \<and> paged_inv p [] \<and> paged_contents p = Map.empty \<and> length (arena p) = 8"
proof -
  obtain p where p: "NewPaged demo_entry (sconst 0) 8 2 ''lru'' = Some p" "paged_inv p []" "paged_contents p = Map.empty"
    "pageSize p = 2" "nPages p = 4"
    using NewPaged_ok [of 2 8 demo_entry "sconst 0" "''lru''"] by auto
  moreover have "length (arena p) = 8" using p(2,4,5) by (simp add: paged_inv_def paged_core_def page_inv_def)
  ultimately show ?thesis by blast
qed

theorem Paged_Put_spec_witness:
  "\<exists>p p'. NewPaged demo_entry (sconst 0) 8 2 ''lru'' = Some p \<and> Paged_Put demo_float (demo_blk 1) p = Some (True, p')"
proof -
  obtain p where p: "NewPaged demo_entry (sconst 0) 8 2 ''lru'' = Some p" "paged_inv p []" "paged_contents p = Map.empty"
    "length (arena p) = 8" using demo_paged by blast
  then show ?thesis using Paged_Put_spec [OF p(2), of demo_float "demo_blk 1"] by (auto simp: demo_blk_def)
qed

theorem Paged_Put_Get_roundtrip_witness:
  "\<exists>p p' p''. NewPaged demo_entry (sconst 0) 8 2 ''lru'' = Some p \<and> Paged_Put demo_float (demo_blk 1) p = Some (True, p') \<and>
     Paged_Get demo_float [1] p' = Some (Some (demo_blk 1), p'')"
proof -
  obtain p where p: "NewPaged demo_entry (sconst 0) 8 2 ''lru'' = Some p" "paged_inv p []" "paged_contents p = Map.empty"
    "length (arena p) = 8" using demo_paged by blast
  then have "admits p (demo_blk 1)" by (simp add: admits_def demo_blk_def)
  then obtain p' where p': "Paged_Put demo_float (demo_blk 1) p = Some (True, p')" using Paged_Put_new [OF p(2)] by blast
  have "blk_ok (demo_blk 1)" "bID (demo_blk 1) = [1]" by (simp_all add: blk_ok_def demo_blk_def)
  then show ?thesis using Paged_Put_Get_roundtrip [OF p(2) _ p'] p(1) p' by auto
qed

end
