(* ===== verification/Ringwatch.thy ===== *)
theory Ringwatch
  imports DirectoryState
begin

text \<open>
  The fleet side of the control plane, \<^verbatim>\<open>internal/ringwatch/watcher.go\<close>: a watcher receives rings
  from one directory replica after another, keeps the latest as a hash ring and, for gateways, a
  connection to every member. \<^verbatim>\<open>grpc.NewClient\<close> is the parameter \<open>dial\<close>; a client is identified with its
  connection. A call of \<^verbatim>\<open>onRing\<close> is the second result of \<open>w_apply\<close>.
\<close>

subsection \<open>State and operations\<close>

record 'c Watcher =
  directories :: "string list"
  dialNodes :: bool
  wring :: "ring option"
  conns :: "(string \<times> 'c) list"
  wclients :: "(string \<times> 'c) list"

definition NewWatcher :: "string list \<Rightarrow> bool \<Rightarrow> 'c Watcher" where
  "NewWatcher dirs dialN = \<lparr>directories = dirs, dialNodes = dialN, wring = None, conns = [], wclients = []\<rparr>"

definition nodes_map :: "RingMsg \<Rightarrow> (string \<times> string) list" where
  "nodes_map r = foldl (\<lambda>m n. AList.update (NodeId n) (Addr n) m) [] (RNodes r)"

fun dial_loop :: "(string \<Rightarrow> 'c option) \<Rightarrow> (string \<times> string) list \<Rightarrow> 'c Watcher \<Rightarrow> 'c Watcher" where
  "dial_loop dial [] w = w"
| "dial_loop dial ((i, a) # ns) w =
     dial_loop dial ns
       (if map_of (conns w) i \<noteq> None then w
        else case dial a of
               None \<Rightarrow> w
             | Some c \<Rightarrow> w\<lparr>conns := AList.update i c (conns w), wclients := AList.update i c (wclients w)\<rparr>)"

fun close_loop :: "(string \<times> string) list \<Rightarrow> (string \<times> 'c) list \<Rightarrow> 'c Watcher \<Rightarrow> 'c Watcher" where
  "close_loop nodes [] w = w"
| "close_loop nodes ((i, c) # cs) w =
     close_loop nodes cs
       (if map_of nodes i = None then w\<lparr>conns := AList.delete i (conns w), wclients := AList.delete i (wclients w)\<rparr> else w)"

definition ring_of :: "RingMsg \<Rightarrow> ring" where
  "ring_of r = NewRing (REpoch r) (nodes_map r) (uint (VnodesPerNode r))"

definition w_install :: "(string \<Rightarrow> 'c option) \<Rightarrow> RingMsg \<Rightarrow> 'c Watcher \<Rightarrow> 'c Watcher" where
  "w_install dial r w =
     (let w1 = w\<lparr>wring := Some (ring_of r)\<rparr>
      in if dialNodes w1
         then let w2 = dial_loop dial (nodes_map r) w1 in close_loop (nodes_map r) (conns w2) w2
         else w1)"

definition w_apply :: "(string \<Rightarrow> 'c option) \<Rightarrow> RingMsg \<Rightarrow> 'c Watcher \<Rightarrow> 'c Watcher \<times> RingMsg option" where
  "w_apply dial r w =
     (if (case wring w of None \<Rightarrow> False | Some old \<Rightarrow> REpoch r \<le> Epoch old \<and> REpoch r \<noteq> 0) then (w, None)
      else (w_install dial r w, Some r))"

definition w_Ring :: "'c Watcher \<Rightarrow> ring option" where
  "w_Ring w = wring w"

definition w_Epoch :: "'c Watcher \<Rightarrow> u64" where
  "w_Epoch w = (case wring w of None \<Rightarrow> 0 | Some r \<Rightarrow> Epoch r)"

definition w_Client :: "'c Watcher \<Rightarrow> string \<Rightarrow> 'c option" where
  "w_Client w i = map_of (wclients w) i"

text \<open>
  \<open>watchOne\<close> sends the known epoch and applies the rings of one stream until it is lost; \<open>None\<close> is a
  directory that could not be reached. \<open>w_Run\<close> takes one such outcome per turn of the loop and yields
  what it asked each directory and how long it slept.
\<close>

definition watchOne :: "(string \<Rightarrow> 'c option) \<Rightarrow> RingMsg list option \<Rightarrow> 'c Watcher \<Rightarrow> 'c Watcher" where
  "watchOne dial rs w = (case rs of None \<Rightarrow> w | Some rs \<Rightarrow> foldl (\<lambda>w r. fst (w_apply dial r w)) w rs)"

fun w_Run ::
    "(string \<Rightarrow> 'c option) \<Rightarrow> nat \<Rightarrow> nat \<Rightarrow> RingMsg list option list \<Rightarrow> 'c Watcher \<Rightarrow>
     ((string \<times> u64 \<times> nat) list \<times> 'c Watcher) option" where
  "w_Run dial i ms [] w = Some ([], w)"
| "w_Run dial i ms (rs # turns) w =
     (if length (directories w) \<le> i then None
      else let w1 = watchOne dial rs w
           in map_option (\<lambda>(log, w2). ((directories w ! i, w_Epoch w, ms) # log, w2))
                (w_Run dial ((i + 1) mod length (directories w1)) (if ms < 3000 then ms * 2 else ms) turns w1))"

subsection \<open>What an update leaves\<close>

lemma nodes_map_distinct: "distinct (map fst (nodes_map r))"
proof -
  have "distinct (map fst (foldl (\<lambda>m n. AList.update (NodeId n) (Addr n) m) m0 ns))" if "distinct (map fst m0)"
    for m0 and ns :: "NodeInfo list"
    using that by (induction ns arbitrary: m0) (simp_all add: distinct_update)
  then show ?thesis by (simp add: nodes_map_def)
qed

lemma map_of_nodes_map:
  assumes "distinct (map NodeId (RNodes r))"
  shows "map_of (nodes_map r) = map_of (map (\<lambda>n. (NodeId n, Addr n)) (RNodes r))"
proof -
  have "map_of (foldl (\<lambda>m n. AList.update (NodeId n) (Addr n) m) m0 ns) = map_of m0 ++ map_of (map (\<lambda>n. (NodeId n, Addr n)) ns)"
    if "distinct (map NodeId ns)" for m0 and ns :: "NodeInfo list"
    using that
  proof (induction ns arbitrary: m0)
    case (Cons n ns)
    then have "map_of (map (\<lambda>n. (NodeId n, Addr n)) ns) (NodeId n) = None" by (auto simp: map_of_eq_None_iff)
    then show ?case using Cons by (auto simp: alist_simps fun_eq_iff map_add_def split: option.split)
  qed simp
  from this [OF assms, of "[]"] show ?thesis by (simp add: nodes_map_def)
qed

lemma ring_of_Epoch [simp]: "Epoch (ring_of r) = REpoch r"
  by (simp add: ring_of_def NewRing_def)

lemma dial_loop_frame [simp]:
  "wring (dial_loop dial ns w) = wring w" "dialNodes (dial_loop dial ns w) = dialNodes w"
  "directories (dial_loop dial ns w) = directories w"
  by (induction dial ns w rule: dial_loop.induct) (simp_all split: option.split)

lemma close_loop_frame [simp]:
  "wring (close_loop nodes cs w) = wring w" "dialNodes (close_loop nodes cs w) = dialNodes w"
  "directories (close_loop nodes cs w) = directories w"
  by (induction nodes cs w rule: close_loop.induct) simp_all

lemma w_install_frame [simp]:
  "wring (w_install dial r w) = Some (ring_of r)" "dialNodes (w_install dial r w) = dialNodes w"
  "directories (w_install dial r w) = directories w"
  by (simp_all add: w_install_def Let_def)

text \<open>Connections and clients are kept for the same members.\<close>

definition watcher_wf :: "'c Watcher \<Rightarrow> bool" where
  "watcher_wf w \<longleftrightarrow> map_of (conns w) = map_of (wclients w)"

lemma dial_loop_clients:
  "watcher_wf w \<Longrightarrow> distinct (map fst ns) \<Longrightarrow>
   watcher_wf (dial_loop dial ns w) \<and>
   w_Client (dial_loop dial ns w) i =
     (case w_Client w i of Some c \<Rightarrow> Some c | None \<Rightarrow> (case map_of ns i of None \<Rightarrow> None | Some a \<Rightarrow> dial a))"
proof (induction dial ns w rule: dial_loop.induct)
  case (1 dial w)
  then show ?case by (simp split: option.split)
next
  case (2 dial j a ns w)
  let ?w = "if map_of (conns w) j \<noteq> None then w else case dial a of None \<Rightarrow> w
     | Some c \<Rightarrow> w\<lparr>conns := AList.update j c (conns w), wclients := AList.update j c (wclients w)\<rparr>"
  have wf: "watcher_wf ?w" using 2(2) by (auto simp: watcher_wf_def alist_simps split: option.split)
  have j: "map_of ns j = None" using 2(3) by (auto simp: map_of_eq_None_iff)
  have "w_Client ?w i = (if i = j \<and> w_Client w j = None then dial a else w_Client w i)"
    using 2(2) by (auto simp: watcher_wf_def w_Client_def alist_simps split: option.split)
  then show ?case using 2(1) [OF wf] 2(3) j by (auto split: option.split)
qed

lemma close_loop_clients:
  "watcher_wf w \<Longrightarrow>
   watcher_wf (close_loop nodes cs w) \<and>
   w_Client (close_loop nodes cs w) i = (if i \<in> fst ` set cs \<and> map_of nodes i = None then None else w_Client w i)"
proof (induction nodes cs w rule: close_loop.induct)
  case (2 nodes j c cs w)
  let ?w = "if map_of nodes j = None then w\<lparr>conns := AList.delete j (conns w), wclients := AList.delete j (wclients w)\<rparr> else w"
  have wf: "watcher_wf ?w" using 2(2) by (auto simp: watcher_wf_def alist_simps)
  have "w_Client ?w i = (if i = j \<and> map_of nodes j = None then None else w_Client w i)"
    by (auto simp: w_Client_def alist_simps)
  then show ?case using 2(1) [OF wf] by auto
qed simp

lemma w_install_clients:
  assumes "watcher_wf w" and "dialNodes w"
  shows "watcher_wf (w_install dial r w)"
    and "w_Client (w_install dial r w) i =
      (case map_of (nodes_map r) i of
         None \<Rightarrow> None
       | Some a \<Rightarrow> (case w_Client w i of Some c \<Rightarrow> Some c | None \<Rightarrow> dial a))"
proof -
  define w1 where "w1 = w\<lparr>wring := Some (ring_of r)\<rparr>"
  define w2 where "w2 = dial_loop dial (nodes_map r) w1"
  have w1: "watcher_wf w1" "w_Client w1 i = w_Client w i" using assms(1) by (simp_all add: w1_def watcher_wf_def w_Client_def)
  have w2: "watcher_wf w2" "w_Client w2 i =
     (case w_Client w i of Some c \<Rightarrow> Some c | None \<Rightarrow> (case map_of (nodes_map r) i of None \<Rightarrow> None | Some a \<Rightarrow> dial a))"
    using dial_loop_clients [OF w1(1) nodes_map_distinct, of dial] w1(2) by (simp_all add: w2_def)
  have e: "w_install dial r w = close_loop (nodes_map r) (conns w2) w2"
    using assms(2) by (simp add: w_install_def Let_def w1_def w2_def)
  have "i \<in> fst ` set (conns w2) \<longleftrightarrow> w_Client w2 i \<noteq> None"
    using w2(1) map_of_eq_None_iff [of "conns w2" i] by (auto simp: watcher_wf_def w_Client_def)
  then show "watcher_wf (w_install dial r w)" "w_Client (w_install dial r w) i =
      (case map_of (nodes_map r) i of None \<Rightarrow> None | Some a \<Rightarrow> (case w_Client w i of Some c \<Rightarrow> Some c | None \<Rightarrow> dial a))"
    using close_loop_clients [OF w2(1), of "nodes_map r" "conns w2"] w2(2) unfolding e by (auto split: option.split)
qed

lemma w_apply_frame [simp]:
  "dialNodes (fst (w_apply dial r w)) = dialNodes w" "directories (fst (w_apply dial r w)) = directories w"
  by (simp_all add: w_apply_def)

text \<open>What a watcher of gateways holds after receiving \<open>rs\<close>, rings with epochs above 0.\<close>

definition holds_newest :: "(string \<Rightarrow> 'c option) \<Rightarrow> RingMsg list \<Rightarrow> 'c Watcher \<Rightarrow> bool" where
  "holds_newest dial rs w \<longleftrightarrow> watcher_wf w \<and> dialNodes w \<and>
     (if rs = [] then wring w = None \<and> (\<forall>i. w_Client w i = None)
      else \<exists>r \<in> set rs. wring w = Some (ring_of r) \<and> (\<forall>r' \<in> set rs. REpoch r' \<le> REpoch r) \<and>
        (\<forall>i. w_Client w i \<noteq> None \<longrightarrow> i \<in> fst ` set (nodes_map r)) \<and>
        ((\<forall>a. dial a \<noteq> None) \<longrightarrow> (\<forall>i \<in> fst ` set (nodes_map r). w_Client w i \<noteq> None)))"

lemma holds_newestI:
  assumes "watcher_wf w" "dialNodes w" "r \<in> set rs" "wring w = Some (ring_of r)" "\<forall>r' \<in> set rs. REpoch r' \<le> REpoch r"
    "\<forall>i. w_Client w i \<noteq> None \<longrightarrow> i \<in> fst ` set (nodes_map r)"
    "(\<forall>a. dial a \<noteq> None) \<longrightarrow> (\<forall>i \<in> fst ` set (nodes_map r). w_Client w i \<noteq> None)"
  shows "holds_newest dial rs w"
proof -
  have "rs \<noteq> []" using assms(3) by auto
  then show ?thesis unfolding holds_newest_def using assms by (simp only: if_False) blast
qed

lemma holds_newest_apply:
  assumes "holds_newest dial rs w" and "REpoch r \<noteq> 0"
  shows "holds_newest dial (rs @ [r]) (fst (w_apply dial r w))"
proof (cases "case wring w of None \<Rightarrow> False | Some old \<Rightarrow> REpoch r \<le> Epoch old \<and> REpoch r \<noteq> 0")
  case True
  then have "rs \<noteq> []" using assms(1) by (auto simp: holds_newest_def)
  then obtain q where q: "q \<in> set rs" "wring w = Some (ring_of q)" "\<forall>r' \<in> set rs. REpoch r' \<le> REpoch q"
      "\<forall>i. w_Client w i \<noteq> None \<longrightarrow> i \<in> fst ` set (nodes_map q)"
      "(\<forall>a. dial a \<noteq> None) \<longrightarrow> (\<forall>i \<in> fst ` set (nodes_map q). w_Client w i \<noteq> None)"
    using assms(1) by (auto simp: holds_newest_def)
  have e: "fst (w_apply dial r w) = w" using True by (simp add: w_apply_def)
  have le: "REpoch r \<le> REpoch q" using True q(2) by simp
  have "watcher_wf w" "dialNodes w" using assms(1) by (simp_all add: holds_newest_def)
  moreover have "q \<in> set (rs @ [r])" "\<forall>r' \<in> set (rs @ [r]). REpoch r' \<le> REpoch q" using q(1,3) le by simp_all
  ultimately show ?thesis unfolding e using q(2,4,5) by (intro holds_newestI)
next
  case False
  have wf: "watcher_wf w" "dialNodes w" using assms(1) by (simp_all add: holds_newest_def)
  have e: "fst (w_apply dial r w) = w_install dial r w" using False by (simp add: w_apply_def)
  have i: "i \<in> fst ` set (nodes_map r) \<longleftrightarrow> map_of (nodes_map r) i \<noteq> None" for i by (simp add: map_of_eq_None_iff)
  note c = w_install_clients [OF wf, of dial r]
  have "\<forall>i. w_Client (w_install dial r w) i \<noteq> None \<longrightarrow> i \<in> fst ` set (nodes_map r)"
    unfolding i c(2) by (simp split: option.split)
  moreover have "(\<forall>a. dial a \<noteq> None) \<longrightarrow> (\<forall>i \<in> fst ` set (nodes_map r). w_Client (w_install dial r w) i \<noteq> None)"
    unfolding Ball_def i c(2) by (auto split: option.split)
  moreover have "REpoch r' \<le> REpoch r" if mem: "r' \<in> set rs" for r'
  proof -
    have "rs \<noteq> []" using mem by auto
    then obtain q where "wring w = Some (ring_of q)" "\<forall>r' \<in> set rs. REpoch r' \<le> REpoch q"
      using assms(1) unfolding holds_newest_def by auto
    then have "wring w = Some (ring_of q)" "REpoch r' \<le> REpoch q" using mem by simp_all
    then show ?thesis using False assms(2) by auto
  qed
  ultimately show ?thesis
    unfolding e holds_newest_def using c(1) wf(2) by simp
qed

lemma holds_newest_foldl:
  "holds_newest dial rs w \<Longrightarrow> \<forall>r \<in> set qs. REpoch r \<noteq> 0 \<Longrightarrow>
   holds_newest dial (rs @ qs) (foldl (\<lambda>w r. fst (w_apply dial r w)) w qs)"
proof (induction qs arbitrary: rs w)
  case (Cons r qs)
  then show ?case using Cons.IH [OF holds_newest_apply [OF Cons.prems(1)]] by simp
qed simp

definition received :: "RingMsg list option list \<Rightarrow> RingMsg list" where
  "received turns = concat (map (\<lambda>t. case t of None \<Rightarrow> [] | Some rs \<Rightarrow> rs) turns)"

lemma w_Run_holds:
  "holds_newest dial rs w \<Longrightarrow> \<forall>r \<in> set (received turns). REpoch r \<noteq> 0 \<Longrightarrow> i < length (directories w) \<Longrightarrow> ms \<le> 5998 \<Longrightarrow>
   \<exists>log w'. w_Run dial i ms turns w = Some (log, w') \<and> holds_newest dial (rs @ received turns) w' \<and>
     length log = length turns \<and>
     (\<forall>k < length turns. fst (log ! k) = directories w ! ((i + k) mod length (directories w)) \<and> snd (snd (log ! k)) \<le> 5998)"
proof (induction turns arbitrary: rs w i ms)
  case (Cons t ts)
  define qs where "qs = (case t of None \<Rightarrow> [] | Some qs \<Rightarrow> qs)"
  define w1 where "w1 = watchOne dial t w"
  have w1: "w1 = foldl (\<lambda>w r. fst (w_apply dial r w)) w qs" by (simp add: w1_def watchOne_def qs_def split: option.split)
  have rc: "received (t # ts) = qs @ received ts" by (simp add: received_def qs_def)
  have h: "holds_newest dial (rs @ qs) w1" unfolding w1 using Cons.prems(1,2) rc by (intro holds_newest_foldl) auto
  have d: "directories (foldl (\<lambda>w r. fst (w_apply dial r w)) w xs) = directories w" for xs
    by (induction xs arbitrary: w) simp_all
  let ?n = "length (directories w)"
  have "0 < ?n" using Cons.prems(3) by (rule order_le_less_trans [rotated]) simp
  then have "(i + 1) mod ?n < length (directories w1)" unfolding w1 d by (rule mod_less_divisor)
  moreover have "(if ms < 3000 then ms * 2 else ms) \<le> 5998" using Cons.prems(4) by simp
  moreover have "\<forall>r \<in> set (received ts). REpoch r \<noteq> 0" using Cons.prems(2) rc by simp
  ultimately obtain log w' where r: "w_Run dial ((i + 1) mod ?n) (if ms < 3000 then ms * 2 else ms) ts w1 = Some (log, w')"
    "holds_newest dial ((rs @ qs) @ received ts) w'" "length log = length ts"
    "\<forall>k < length ts. fst (log ! k) = directories w1 ! (((i + 1) mod ?n + k) mod length (directories w1)) \<and> snd (snd (log ! k)) \<le> 5998"
    using Cons.IH [OF h] by blast
  have "fst (((directories w ! i, w_Epoch w, ms) # log) ! k) = directories w ! ((i + k) mod ?n) \<and>
      snd (snd (((directories w ! i, w_Epoch w, ms) # log) ! k)) \<le> 5998" if "k < length (t # ts)" for k
    using that r(4) Cons.prems(3,4) by (cases k) (simp_all add: w1 d mod_add_left_eq)
  moreover have "w_Run dial i ms (t # ts) w = Some ((directories w ! i, w_Epoch w, ms) # log, w')"
    using Cons.prems(3) r(1) by (simp add: w1_def [symmetric] Let_def) (auto simp: w1 d split: if_splits)
  ultimately show ?case using r(2,3) rc by auto
qed (simp add: received_def)

lemma holds_newest_New: "holds_newest dial [] (NewWatcher dirs True)"
  by (simp add: holds_newest_def NewWatcher_def watcher_wf_def w_Client_def)

subsection \<open>Properties\<close>

text \<open>
  C8: a gateway's watcher ends with the newest ring it was sent, whatever the replicas, streams,
  outages, duplicates and reorderings it came through. Over any sequence of turns whose rings carry
  epochs above 0, the loop does not panic, it asks the directories in rotation and never sleeps
  longer than 6 seconds, the ring it holds was received and none received has a higher epoch, it holds
  clients only for members of that ring, and for all of them if no dial fails.
\<close>

theorem watcher_holds_newest:
  assumes "dirs \<noteq> []" and "\<forall>r \<in> set (received turns). REpoch r \<noteq> 0"
  shows "\<exists>log w. w_Run dial 0 100 turns (NewWatcher dirs True) = Some (log, w) \<and> length log = length turns \<and>
    (\<forall>k < length turns. fst (log ! k) = dirs ! (k mod length dirs) \<and> snd (snd (log ! k)) < 6000) \<and>
    (received turns \<noteq> [] \<longrightarrow> (\<exists>r \<in> set (received turns). w_Ring w = Some (ring_of r) \<and>
       (\<forall>r' \<in> set (received turns). REpoch r' \<le> REpoch r) \<and>
       (\<forall>i. w_Client w i \<noteq> None \<longrightarrow> i \<in> fst ` set (nodes_map r)) \<and>
       ((\<forall>a. dial a \<noteq> None) \<longrightarrow> (\<forall>i \<in> fst ` set (nodes_map r). w_Client w i \<noteq> None))))"
proof -
  have d: "directories (NewWatcher dirs True) = dirs" by (simp add: NewWatcher_def)
  obtain log w where r: "w_Run dial 0 100 turns (NewWatcher dirs True) = Some (log, w)"
    "holds_newest dial ([] @ received turns) w" "length log = length turns"
    "\<forall>k < length turns. fst (log ! k) = dirs ! ((0 + k) mod length dirs) \<and> snd (snd (log ! k)) \<le> 5998"
    using w_Run_holds [OF holds_newest_New [of dial dirs] assms(2), where i = 0 and ms = 100] assms(1)
    unfolding d by auto
  then show ?thesis unfolding w_Ring_def holds_newest_def by fastforce
qed

definition demo_ring :: "u64 \<Rightarrow> RingMsg" where
  "demo_ring e = \<lparr>REpoch = e, RNodes = [demo_node], VnodesPerNode = 1\<rparr>"

theorem watcher_holds_newest_witness:
  "\<exists>log w r. w_Run Some 0 100 [Some [demo_ring 2], None, Some [demo_ring 1]] (NewWatcher [''a'', ''b''] True) = Some (log, w) \<and>
     r \<in> {demo_ring 1, demo_ring 2} \<and> w_Ring w = Some (ring_of r) \<and> 2 \<le> REpoch r"
proof -
  define turns where "turns = [Some [demo_ring 2], None, Some [demo_ring 1]]"
  have rc: "set (received turns) = {demo_ring 1, demo_ring 2}" "received turns \<noteq> []"
    by (auto simp: turns_def received_def)
  have ep: "REpoch (demo_ring e) = e" for e by (simp add: demo_ring_def)
  have "\<forall>r \<in> set (received turns). REpoch r \<noteq> 0" unfolding rc(1) by (simp add: ep)
  from watcher_holds_newest [OF _ this, of "[''a'', ''b'']" Some] rc(2)
  obtain log w r where r: "w_Run Some 0 100 turns (NewWatcher [''a'', ''b''] True) = Some (log, w)"
    "r \<in> set (received turns)" "w_Ring w = Some (ring_of r)" "\<forall>r' \<in> set (received turns). REpoch r' \<le> REpoch r"
    by (metis list.distinct(1))
  have "2 \<le> REpoch r" using r(4) unfolding rc(1) by (simp add: ep)
  then show ?thesis using r(1-3) unfolding turns_def [symmetric] rc(1) by (intro exI conjI)
qed

text \<open>
  C36: a replica that has applied nothing takes every member away from a watcher. The stream of such a
  replica starts with its ring of epoch 0 and no members, the guard against stale rings lets epoch 0
  pass, and the watcher then holds an empty ring and no client, whatever it held before.
\<close>

theorem fresh_replica_empties_watcher:
  assumes "watcher_wf w" and "dialNodes w" and "wring w = Some old"
  shows "watch_send 0 (Ring NewStateMachine) = (0, Some (Ring NewStateMachine)) \<and>
    (\<exists>w'. w_apply dial (Ring NewStateMachine) w = (w', Some (Ring NewStateMachine)) \<and>
      w_Epoch w' = 0 \<and> map_option Size (w_Ring w') = Some 0 \<and> (\<forall>i. w_Client w' i = None))"
proof -
  have e: "REpoch (Ring NewStateMachine) = 0" "nodes_map (Ring NewStateMachine) = []"
    by (simp_all add: Ring_def NewStateMachine_def dir0_def nodes_map_def)
  have "w_apply dial (Ring NewStateMachine) w = (w_install dial (Ring NewStateMachine) w, Some (Ring NewStateMachine))"
    by (simp add: w_apply_def assms(3) e)
  moreover have "w_Client (w_install dial (Ring NewStateMachine) w) i = None" for i
    using w_install_clients(2) [OF assms(1,2)] by (simp add: e)
  ultimately show ?thesis
    by (simp add: watch_send_def e w_Epoch_def w_Ring_def) (simp add: ring_of_def e NewRing_def Size_def)
qed

theorem fresh_replica_empties_watcher_witness:
  "\<exists>w. w_Client (fst (w_apply Some (demo_ring 5) (NewWatcher [''a''] True))) (NodeId demo_node) = Some (Addr demo_node) \<and>
     w = fst (w_apply Some (Ring NewStateMachine) (fst (w_apply Some (demo_ring 5) (NewWatcher [''a''] True)))) \<and>
     w_Client w (NodeId demo_node) = None"
proof -
  let ?w = "fst (w_apply Some (demo_ring 5) (NewWatcher [''a''] True))"
  have h: "holds_newest Some ([] @ [demo_ring 5]) ?w" by (rule holds_newest_apply [OF holds_newest_New]) (simp add: demo_ring_def)
  then have "watcher_wf ?w" "dialNodes ?w" "wring ?w = Some (ring_of (demo_ring 5))" by (auto simp: holds_newest_def)
  from fresh_replica_empties_watcher [OF this, of Some] have "w_Client (fst (w_apply Some (Ring NewStateMachine) ?w)) (NodeId demo_node) = None"
    by auto
  moreover have "w_Client ?w (NodeId demo_node) = Some (Addr demo_node)"
    by (simp add: w_apply_def NewWatcher_def w_install_def Let_def demo_ring_def nodes_map_def w_Client_def demo_node_def)
  ultimately show ?thesis by blast
qed

end
