(* ===== verification/CacheAgent.thy ===== *)
theory CacheAgent
  imports Cachenode PagedStore Ringwatch
begin

text \<open>
  The background side of a cache node: the warmer (\<^verbatim>\<open>internal/cachenode/warmer.go\<close>) that executes warm
  commands, the agent (\<^verbatim>\<open>agent.go\<close>) that keeps the node a member, and the collectors and telemetry
  (\<^verbatim>\<open>collector.go\<close>). Times are nanoseconds or milliseconds as the source uses them, read from the
  clock by the caller. \<open>unm\<close> and \<open>marshal\<close> are the protobuf codec, \<open>dial\<close> is \<^verbatim>\<open>grpc.NewClient\<close>, and
  \<open>fetch\<close> is the first message of a \<open>GetBlocks\<close> call to another node: \<open>None\<close> is a failed call or an
  empty stream.
\<close>

subsection \<open>The warmer\<close>

record WarmCommand =
  WBlockId :: bytes
  WParentId :: bytes
  WModelId :: string
  WSourceNode :: string
  WDeadlineUnixMs :: int
  WTargetNode :: string

record ('f, 'c) Warmer =
  wself :: string
  tokens :: 'f
  lastRef :: int
  rate :: 'f
  wmclients :: "(string \<times> 'c) list"
  executed :: u64
  skippedPresent :: u64
  wdropped :: u64

definition Counters :: "('f, 'c) Warmer \<Rightarrow> u64 \<times> u64 \<times> u64" where
  "Counters w = (executed w, skippedPresent w, wdropped w)"

definition NewWarmer :: "'f float64 \<Rightarrow> string \<Rightarrow> 'f \<Rightarrow> int \<Rightarrow> ('f, 'c) Warmer" where
  "NewWarmer F self ratePerSec now =
     (let r = (if fle F ratePerSec (ofInt F 0) then ofInt F 200 else ratePerSec)
      in \<lparr>wself = self, tokens = r, lastRef = now, rate = r, wmclients = [], executed = 0, skippedPresent = 0, wdropped = 0\<rparr>)"

text \<open>\<^verbatim>\<open>Duration.Seconds\<close>.\<close>

definition Seconds :: "'f float64 \<Rightarrow> int \<Rightarrow> 'f" where
  "Seconds F d =
     (let sec = sgn d * (\<bar>d\<bar> div 1000000000); nsec = d - sec * 1000000000
      in fadd F (ofInt F sec) (fdiv F (ofInt F nsec) (ofInt F 1000000000)))"

definition allow :: "'f float64 \<Rightarrow> int \<Rightarrow> ('f, 'c) Warmer \<Rightarrow> bool \<times> ('f, 'c) Warmer" where
  "allow F now w =
     (let w1 = w\<lparr>tokens := fmin F (rate w) (fadd F (tokens w) (fmul F (Seconds F (now - lastRef w)) (rate w))), lastRef := now\<rparr>
      in if fless F (tokens w1) (ofInt F 1) then (False, w1)
         else (True, w1\<lparr>tokens := fsub F (tokens w1) (ofInt F 1)\<rparr>))"

definition wm_client :: "(string \<Rightarrow> 'c option) \<Rightarrow> string \<Rightarrow> ('f, 'c) Warmer \<Rightarrow> 'c option \<times> ('f, 'c) Warmer" where
  "wm_client dial addr w =
     (case map_of (wmclients w) addr of
        Some c \<Rightarrow> (Some c, w)
      | None \<Rightarrow>
          (case dial addr of
             None \<Rightarrow> (None, w)
           | Some c \<Rightarrow> (Some c, w\<lparr>wmclients := AList.update addr c (wmclients w)\<rparr>)))"

definition Handle ::
    "'f float64 \<Rightarrow> (bytes \<Rightarrow> WarmCommand option) \<Rightarrow> (string \<Rightarrow> 'c option) \<Rightarrow> ('c \<Rightarrow> IdsRequest \<Rightarrow> Block option option) \<Rightarrow>
     's store_ops \<Rightarrow> int \<Rightarrow> int \<Rightarrow> bytes \<Rightarrow> ('f, 'c) Warmer \<Rightarrow> 's \<Rightarrow> (('f, 'c) Warmer \<times> 's) option" where
  "Handle F unm dial fetch ops nowMs now value w s =
     (case unm value of
        None \<Rightarrow> Some (w, s)
      | Some cmd \<Rightarrow>
          if WTargetNode cmd \<noteq> wself w \<or> length (WBlockId cmd) \<noteq> HashSize then Some (w, s)
          else if WDeadlineUnixMs cmd > 0 \<and> nowMs > WDeadlineUnixMs cmd then Some (w\<lparr>wdropped := wdropped w + 1\<rparr>, s)
          else do {
            (present, s1) \<leftarrow> st_Contains ops (WBlockId cmd) s;
            if present then Some (w\<lparr>skippedPresent := skippedPresent w + 1\<rparr>, s1)
            else if WSourceNode cmd = '''' then Some (w, s1)
            else (case allow F now w of
              (False, w1) \<Rightarrow> Some (w1\<lparr>wdropped := wdropped w1 + 1\<rparr>, s1)
            | (True, w1) \<Rightarrow>
                (case wm_client dial (WSourceNode cmd) w1 of
                   (None, w2) \<Rightarrow> Some (w2, s1)
                 | (Some c, w2) \<Rightarrow>
                     (case fetch c \<lparr>QRingEpoch = 0, QBlockIds = [WBlockId cmd]\<rparr> of
                        None \<Rightarrow> Some (w2, s1)
                      | Some None \<Rightarrow> Some (w2, s1)
                      | Some (Some p) \<Rightarrow>
                          (case fromProto (Some p) of
                             Inl _ \<Rightarrow> Some (w2, s1)
                           | Inr b \<Rightarrow> do {
                               (_, s2) \<leftarrow> st_Put ops b s1;
                               Some (w2\<lparr>executed := executed w2 + 1\<rparr>, s2)
                             }))))
          })"

subsection \<open>The agent\<close>

text \<open>
  \<open>rejoin\<close> is the signal channel of capacity one. A ring the agent's watcher applies is checked for the
  node itself; a send on a full channel is dropped.
\<close>

record 'c Agent =
  aSelf :: NodeInfo
  aDirectories :: "string list"
  aEvery :: int
  awatcher :: "'c Watcher"
  rejoin :: bool

definition NewAgent :: "NodeInfo \<Rightarrow> string list \<Rightarrow> 'c Agent" where
  "NewAgent self dirs = \<lparr>aSelf = self, aDirectories = dirs, aEvery = 500, awatcher = NewWatcher dirs False, rejoin = False\<rparr>"

definition agent_onRing :: "RingMsg \<Rightarrow> 'c Agent \<Rightarrow> 'c Agent" where
  "agent_onRing r a = (if \<exists>n \<in> set (RNodes r). NodeId n = NodeId (aSelf a) then a else a\<lparr>rejoin := True\<rparr>)"

definition agent_apply :: "(string \<Rightarrow> 'c option) \<Rightarrow> RingMsg \<Rightarrow> 'c Agent \<Rightarrow> 'c Agent" where
  "agent_apply dial r a =
     (case w_apply dial r (awatcher a) of
        (w, None) \<Rightarrow> a\<lparr>awatcher := w\<rparr>
      | (w, Some r) \<Rightarrow> agent_onRing r (a\<lparr>awatcher := w\<rparr>))"

definition a_Epoch :: "'c Agent \<Rightarrow> u64" where
  "a_Epoch a = w_Epoch (awatcher a)"

definition dial_dirs :: "(string \<Rightarrow> 'd option) \<Rightarrow> 'c Agent \<Rightarrow> 'd list" where
  "dial_dirs dialD a = List.map_filter dialD (aDirectories a)"

text \<open>
  One pass of \<^verbatim>\<open>join\<close> over the replicas. A call is a step of the world \<open>'w\<close> that says whether the
  replica committed the membership.
\<close>

fun join_pass :: "('d \<Rightarrow> NodeInfo \<Rightarrow> 'w \<Rightarrow> bool \<times> 'w) \<Rightarrow> NodeInfo \<Rightarrow> 'd list \<Rightarrow> 'w \<Rightarrow> bool \<times> 'w" where
  "join_pass call self [] w = (False, w)"
| "join_pass call self (d # ds) w = (case call d self w of (True, w1) \<Rightarrow> (True, w1) | (False, w1) \<Rightarrow> join_pass call self ds w1)"

record HeartbeatRequest =
  HNodeId :: string
  HOccupancyBytes :: u64
  HRingEpoch :: u64

text \<open>A tick heartbeats every replica; answers and failures are ignored.\<close>

definition a_tick :: "'s store_ops \<Rightarrow> 's option \<Rightarrow> 'd list \<Rightarrow> 'c Agent \<Rightarrow> ('d \<times> HeartbeatRequest) list" where
  "a_tick ops store ds a =
     (let occ = (case store of None \<Rightarrow> 0 | Some s \<Rightarrow> OccupancyBytes (st_Stats ops s))
      in map (\<lambda>d. (d, \<lparr>HNodeId = NodeId (aSelf a), HOccupancyBytes = occ, HRingEpoch = a_Epoch a\<rparr>)) ds)"

text \<open>
  The agent at work. \<^verbatim>\<open>Run\<close> gives up without a directory client; otherwise it joins first and then
  waits for a tick or a rejoin signal, and a join repeats its pass until one succeeds. Rings arrive on
  the watcher's goroutine between any two of these steps. \<open>joining\<close> says that \<^verbatim>\<open>Run\<close> is inside
  \<^verbatim>\<open>join\<close>, \<open>sent\<close> lists the heartbeats sent, and \<open>acked\<close> records that a join was committed since the
  last ring that the watcher took.
\<close>

record ('d, 'c, 'w) agent_world =
  agent :: "'c Agent"
  world :: 'w
  joining :: bool
  sent :: "('d \<times> HeartbeatRequest) list"
  acked :: bool

definition a_Run :: "(string \<Rightarrow> 'd option) \<Rightarrow> 'c Agent \<Rightarrow> 'w \<Rightarrow> ('d, 'c, 'w) agent_world option" where
  "a_Run dialD a w =
     (if dial_dirs dialD a = [] then None
      else Some \<lparr>agent = a, world = w, joining = True, sent = [], acked = False\<rparr>)"

inductive agent_step ::
    "('d \<Rightarrow> NodeInfo \<Rightarrow> 'w \<Rightarrow> bool \<times> 'w) \<Rightarrow> (string \<Rightarrow> 'c option) \<Rightarrow> 's store_ops \<Rightarrow> 'd list \<Rightarrow>
     ('d, 'c, 'w) agent_world \<Rightarrow> ('d, 'c, 'w) agent_world \<Rightarrow> bool"
  for call dial ops ds where
  on_ring:
    "agent_step call dial ops ds x
       (x\<lparr>agent := agent_apply dial r (agent x), acked := (acked x \<and> snd (w_apply dial r (awatcher (agent x))) = None)\<rparr>)"
| on_rejoin:
    "\<lbrakk>\<not> joining x; rejoin (agent x)\<rbrakk> \<Longrightarrow>
     agent_step call dial ops ds x (x\<lparr>agent := (agent x)\<lparr>rejoin := False\<rparr>, joining := True\<rparr>)"
| joined:
    "\<lbrakk>joining x; join_pass call (aSelf (agent x)) ds (world x) = (True, w')\<rbrakk> \<Longrightarrow>
     agent_step call dial ops ds x (x\<lparr>world := w', joining := False, acked := True\<rparr>)"
| join_failed:
    "\<lbrakk>joining x; join_pass call (aSelf (agent x)) ds (world x) = (False, w')\<rbrakk> \<Longrightarrow>
     agent_step call dial ops ds x (x\<lparr>world := w'\<rparr>)"
| on_tick:
    "\<not> joining x \<Longrightarrow> agent_step call dial ops ds x (x\<lparr>sent := sent x @ a_tick ops st ds (agent x)\<rparr>)"

subsection \<open>Collectors and telemetry\<close>

definition StoreCollect :: "'f float64 \<Rightarrow> 's store_ops \<Rightarrow> 's \<Rightarrow> 'f list" where
  "StoreCollect F ops s =
     (let st = st_Stats ops s
      in [ofU64 F (OccupancyBytes st), ofU64 F (StCapacityBytes st), ofU64 F (Hits st), ofU64 F (Misses st),
          ofU64 F (Evictions st), ofU64 F (EvictedCostUS st)])"

definition WarmerCollect :: "'f float64 \<Rightarrow> ('f, 'c) Warmer \<Rightarrow> 'f list" where
  "WarmerCollect F w = (let (e, s, d) = Counters w in [ofU64 F e, ofU64 F s, ofU64 F d])"

record NodeTelemetry =
  TNodeId :: string
  TOccupancyBytes :: u64
  TCapacityBytes :: u64
  THits :: u64
  TMisses :: u64
  TEvictions :: u64
  TEvictedCostUs :: u64
  TTsUnixMs :: int

definition telemetry_tick :: "string \<Rightarrow> int \<Rightarrow> StatsRec \<Rightarrow> StatsRec \<Rightarrow> NodeTelemetry" where
  "telemetry_tick nid ts prev st =
     \<lparr>TNodeId = nid, TOccupancyBytes = OccupancyBytes st, TCapacityBytes = StCapacityBytes st,
      THits = Hits st - Hits prev, TMisses = Misses st - Misses prev, TEvictions = Evictions st - Evictions prev,
      TEvictedCostUs = EvictedCostUS st - EvictedCostUS prev, TTsUnixMs = ts\<rparr>"

fun RunTelemetry :: "(NodeTelemetry \<Rightarrow> bytes option) \<Rightarrow> string \<Rightarrow> StatsRec \<Rightarrow> (int \<times> StatsRec) list \<Rightarrow> (NodeTelemetry \<times> bytes) list" where
  "RunTelemetry marshal nid prev [] = []"
| "RunTelemetry marshal nid prev ((ts, st) # ticks) =
     (let ev = telemetry_tick nid ts prev st
      in (case marshal ev of None \<Rightarrow> [] | Some raw \<Rightarrow> [(ev, raw)]) @ RunTelemetry marshal nid st ticks)"

subsection \<open>Properties\<close>

lemma allow_frame:
  "allow F now w = (ok, w1) \<Longrightarrow> wself w1 = wself w \<and> executed w1 = executed w \<and> wmclients w1 = wmclients w"
  by (auto simp: allow_def Let_def split: if_splits)

lemma wm_client_frame:
  "wm_client dial a w = (c, w1) \<Longrightarrow> wself w1 = wself w \<and> executed w1 = executed w"
  by (auto simp: wm_client_def split: option.splits)

text \<open>A command is live for a warmer when it is addressed to it, well formed and not past its deadline.\<close>

definition live_cmd :: "int \<Rightarrow> WarmCommand \<Rightarrow> ('f, 'c) Warmer \<Rightarrow> bool" where
  "live_cmd nowMs cmd w \<longleftrightarrow> WTargetNode cmd = wself w \<and> id_ok (WBlockId cmd) \<and>
     (WDeadlineUnixMs cmd \<le> 0 \<or> nowMs \<le> WDeadlineUnixMs cmd)"

text \<open>The tail of \<open>Handle\<close> for a live command whose block is absent, has a source and is within budget.\<close>

definition warm_fetch ::
    "(string \<Rightarrow> 'c option) \<Rightarrow> ('c \<Rightarrow> IdsRequest \<Rightarrow> Block option option) \<Rightarrow> WarmCommand \<Rightarrow> ('f, 'c) Warmer \<Rightarrow> blk option" where
  "warm_fetch dial fetch cmd w =
     (case fst (wm_client dial (WSourceNode cmd) w) of
        None \<Rightarrow> None
      | Some c \<Rightarrow>
          (case fetch c \<lparr>QRingEpoch = 0, QBlockIds = [WBlockId cmd]\<rparr> of
             Some (Some p) \<Rightarrow> (case fromProto (Some p) of Inl _ \<Rightarrow> None | Inr b \<Rightarrow> Some b)
           | _ \<Rightarrow> None))"

lemma Handle_dead:
  assumes "\<not> (\<exists>cmd. unm value = Some cmd \<and> live_cmd nowMs cmd w)"
  shows "\<exists>d. Handle F unm dial fetch ops nowMs now value w s = Some (w\<lparr>wdropped := d\<rparr>, s)"
proof -
  have "w = w\<lparr>wdropped := wdropped w\<rparr>" by simp
  then show ?thesis using assms
    by (cases "unm value") (auto simp: Handle_def live_cmd_def id_ok_def intro: exI [of _ "wdropped w"])
qed

lemma Handle_live:
  assumes "unm value = Some cmd" and "live_cmd nowMs cmd w" and "st_Contains ops (WBlockId cmd) s = Some (present, s1)"
  shows "present \<Longrightarrow> Handle F unm dial fetch ops nowMs now value w s = Some (w\<lparr>skippedPresent := skippedPresent w + 1\<rparr>, s1)"
    and "\<not> present \<Longrightarrow> WSourceNode cmd = '''' \<Longrightarrow> Handle F unm dial fetch ops nowMs now value w s = Some (w, s1)"
    and "\<not> present \<Longrightarrow> WSourceNode cmd \<noteq> '''' \<Longrightarrow> allow F now w = (False, w1) \<Longrightarrow>
      Handle F unm dial fetch ops nowMs now value w s = Some (w1\<lparr>wdropped := wdropped w1 + 1\<rparr>, s1)"
    and "\<not> present \<Longrightarrow> WSourceNode cmd \<noteq> '''' \<Longrightarrow> allow F now w = (True, w1) \<Longrightarrow>
      Handle F unm dial fetch ops nowMs now value w s =
        (let w2 = snd (wm_client dial (WSourceNode cmd) w1) in
         case warm_fetch dial fetch cmd w1 of
           None \<Rightarrow> Some (w2, s1)
         | Some b \<Rightarrow> map_option (\<lambda>(_, s2). (w2\<lparr>executed := executed w2 + 1\<rparr>, s2)) (st_Put ops b s1))"
proof -
  have pre: "\<not> (WTargetNode cmd \<noteq> wself w \<or> length (WBlockId cmd) \<noteq> HashSize)" "\<not> (WDeadlineUnixMs cmd > 0 \<and> nowMs > WDeadlineUnixMs cmd)"
    using assms(2) by (auto simp: live_cmd_def id_ok_def)
  note d = Handle_def [of F unm dial fetch ops nowMs now "value" w s, unfolded assms(1) option.case if_not_P [OF pre(1)] if_not_P [OF pre(2)] assms(3) Option.bind.simps prod.case]
  show "Handle F unm dial fetch ops nowMs now value w s = Some (w\<lparr>skippedPresent := skippedPresent w + 1\<rparr>, s1)" if present
    using that by (simp add: d)
  show "Handle F unm dial fetch ops nowMs now value w s = Some (w, s1)" if "\<not> present" "WSourceNode cmd = ''''"
    using that by (simp add: d)
  show "Handle F unm dial fetch ops nowMs now value w s = Some (w1\<lparr>wdropped := wdropped w1 + 1\<rparr>, s1)"
    if "\<not> present" "WSourceNode cmd \<noteq> ''''" "allow F now w = (False, w1)"
    using that by (simp add: d)
  show "Handle F unm dial fetch ops nowMs now value w s =
        (let w2 = snd (wm_client dial (WSourceNode cmd) w1) in
         case warm_fetch dial fetch cmd w1 of
           None \<Rightarrow> Some (w2, s1)
         | Some b \<Rightarrow> map_option (\<lambda>(_, s2). (w2\<lparr>executed := executed w2 + 1\<rparr>, s2)) (st_Put ops b s1))"
    if "\<not> present" "WSourceNode cmd \<noteq> ''''" "allow F now w = (True, w1)"
  proof (cases "wm_client dial (WSourceNode cmd) w1")
    case (Pair c w2)
    show ?thesis using that Pair
      by (auto simp: d warm_fetch_def Let_def map_conv_bind_option comp_def case_prod_unfold split: option.split sum.split)
  qed
qed

lemma warm_fetch_block:
  assumes "warm_fetch dial fetch cmd w = Some b"
  shows "\<exists>c p. (map_of (wmclients w) (WSourceNode cmd) = Some c \<or> dial (WSourceNode cmd) = Some c) \<and>
    fetch c \<lparr>QRingEpoch = 0, QBlockIds = [WBlockId cmd]\<rparr> = Some (Some p) \<and> fromProto (Some p) = Inr b"
  using assms by (auto simp: warm_fetch_def wm_client_def split: option.splits sum.splits)

lemma fromProto_payload: "fromProto (Some p) = Inr b \<Longrightarrow> bPayload b = Payload p \<and> bID b = BlockId p"
  by (auto simp: fromProto_def toID_def split: if_splits)

text \<open>
  C12: warming is safe and best-effort. Handling any message never panics the node. What is stored
  changes only for a live command whose block is absent, when the budget allows it, and then only by
  putting the block that the source named in the command sent for it; the executed counter moves exactly then. A live command for
  a block that is present changes no contents and counts as skipped, so a redelivered command is free.
\<close>

theorem warm_adds_only_fetched:
  assumes "store_contract ops contents okst" and "okst s"
    and "\<forall>c req p. fetch c req = Some (Some p) \<longrightarrow> length (Payload p) < 2 ^ 63"
  shows "\<exists>w' s'. Handle F unm dial fetch ops nowMs now value w s = Some (w', s') \<and> okst s' \<and>
    (contents s' = contents s \<and> executed w' = executed w \<or>
     (\<exists>cmd c p b. unm value = Some cmd \<and> live_cmd nowMs cmd w \<and> contents s (WBlockId cmd) = None \<and> fst (allow F now w) \<and>
        (map_of (wmclients w) (WSourceNode cmd) = Some c \<or> dial (WSourceNode cmd) = Some c) \<and>
        fetch c \<lparr>QRingEpoch = 0, QBlockIds = [WBlockId cmd]\<rparr> = Some (Some p) \<and> fromProto (Some p) = Inr b \<and>
        executed w' = executed w + 1 \<and> (contents s' = contents s \<or> contents s' \<subseteq>\<^sub>m (contents s)(bID b \<mapsto> b)))) \<and>
    (\<forall>cmd. unm value = Some cmd \<and> live_cmd nowMs cmd w \<and> contents s (WBlockId cmd) \<noteq> None \<longrightarrow>
       contents s' = contents s \<and> w' = w\<lparr>skippedPresent := skippedPresent w + 1\<rparr>)"
proof (cases "\<exists>cmd. unm value = Some cmd \<and> live_cmd nowMs cmd w")
  case False
  obtain d where "Handle F unm dial fetch ops nowMs now value w s = Some (w\<lparr>wdropped := d\<rparr>, s)" using Handle_dead [of unm "value" nowMs w F dial fetch ops now s] False by auto
  then show ?thesis using assms(2) False by auto
next
  case True
  then obtain cmd where cmd: "unm value = Some cmd" "live_cmd nowMs cmd w" by blast
  obtain s1 where s1: "st_Contains ops (WBlockId cmd) s = Some (contents s (WBlockId cmd) \<noteq> None, s1)" "okst s1"
    "contents s1 = contents s" using store_contract.has [OF assms(1,2)] by blast
  note live = Handle_live [of unm "value", OF cmd s1(1)]
  obtain ok w1 where w1: "allow F now w = (ok, w1)" by fastforce
  define w2 where "w2 = snd (wm_client dial (WSourceNode cmd) w1)"
  have ex: "executed w1 = executed w" "executed w2 = executed w"
    using allow_frame [OF w1] wm_client_frame [of dial "WSourceNode cmd" w1 _ w2] by (auto simp: w2_def prod_eq_iff)
  consider "contents s (WBlockId cmd) \<noteq> None" | "contents s (WBlockId cmd) = None" "WSourceNode cmd = '''' \<or> \<not> ok"
    | "contents s (WBlockId cmd) = None" "WSourceNode cmd \<noteq> ''''" ok "warm_fetch dial fetch cmd w1 = None"
    | b where "contents s (WBlockId cmd) = None" "WSourceNode cmd \<noteq> ''''" ok "warm_fetch dial fetch cmd w1 = Some b"
    by (cases "warm_fetch dial fetch cmd w1") auto
  then show ?thesis
  proof cases
    case 1
    then show ?thesis using live(1) s1 cmd(1) by auto
  next
    case 2
    then show ?thesis using live(2) live(3) [of F now w1] s1 cmd(1) w1 ex(1) by (cases "WSourceNode cmd = ''''") auto
  next
    case 3
    then show ?thesis using live(4) [of F now w1] s1 cmd(1) w1 ex(2) by (auto simp: w2_def [symmetric])
  next
    case 4
    obtain c p where src: "map_of (wmclients w) (WSourceNode cmd) = Some c \<or> dial (WSourceNode cmd) = Some c"
      and f: "fetch c \<lparr>QRingEpoch = 0, QBlockIds = [WBlockId cmd]\<rparr> = Some (Some p)" "fromProto (Some p) = Inr b"
      using warm_fetch_block [OF 4(4)] allow_frame [OF w1] by auto
    then have "blk_ok b" using assms(3) fromProto_payload [OF f(2)] by (auto simp: blk_ok_def)
    then obtain r s2 where s2: "st_Put ops b s1 = Some (r, s2)" "okst s2"
      "contents s2 = contents s1 \<or> contents s2 \<subseteq>\<^sub>m (contents s1)(bID b \<mapsto> b)"
      using store_contract.put [OF assms(1) s1(2)] by (metis (full_types))
    have "Handle F unm dial fetch ops nowMs now value w s = Some (w2\<lparr>executed := executed w2 + 1\<rparr>, s2)"
      using live(4) [of F now w1 dial fetch] 4 w1 s2(1) by (simp add: w2_def [symmetric])
    then show ?thesis using s2(2,3) s1(3) cmd src f ex(2) 4(1,3) w1 by auto
  qed
qed

definition demo_cmd :: WarmCommand where
  "demo_cmd = \<lparr>WBlockId = demo_id 7, WParentId = demo_id 0, WModelId = ''m'', WSourceNode = ''h:2'', WDeadlineUnixMs = 9, WTargetNode = ''n1''\<rparr>"

theorem warm_adds_only_fetched_witness:
  "\<exists>w' s'. Handle demo_float (\<lambda>_. Some demo_cmd) Some (\<lambda>_ _. Some (Some (demo_block 7))) lru_ops 5 0 []
     (NewWarmer demo_float ''n1'' 10 0) (NewLRU 200) = Some (w', s') \<and> lru_wf s'"
proof -
  have "\<forall>c req p. (\<lambda>_ _. Some (Some (demo_block 7))) c req = Some (Some p) \<longrightarrow> length (Payload p) < 2 ^ 63"
    by (auto simp: demo_block_def)
  from warm_adds_only_fetched [OF lru.store_contract_axioms lru_wf_New this, of 200 demo_float "\<lambda>_. Some demo_cmd" Some 5 0 "[]" "NewWarmer demo_float ''n1'' 10 0"]
  show ?thesis by auto
qed

text \<open>The ring an agent's watcher holds leaves the agent out.\<close>

definition excluded :: "'c Agent \<Rightarrow> bool" where
  "excluded a \<longleftrightarrow> (\<exists>rg. wring (awatcher a) = Some rg \<and> NodeId (aSelf a) \<notin> fst ` set (addrs rg))"

lemma fst_nodes_map: "fst ` set (nodes_map r) = NodeId ` set (RNodes r)"
proof -
  have "fst ` set (foldl (\<lambda>m n. AList.update (NodeId n) (Addr n) m) m0 ns) = fst ` set m0 \<union> NodeId ` set ns"
    for m0 and ns :: "NodeInfo list"
    by (induction ns arbitrary: m0) (auto simp: dom_update)
  then show ?thesis by (simp add: nodes_map_def)
qed

lemma agent_apply_signals:
  assumes "excluded a \<longrightarrow> rejoin a \<or> ok"
  shows "excluded (agent_apply dial r a) \<longrightarrow> rejoin (agent_apply dial r a) \<or> ok \<and> snd (w_apply dial r (awatcher a)) = None"
    and "aSelf (agent_apply dial r a) = aSelf a"
proof -
  have mem: "NodeId (aSelf a) \<in> fst ` set (addrs (ring_of r)) \<longleftrightarrow> (\<exists>n \<in> set (RNodes r). NodeId n = NodeId (aSelf a))"
    by (auto simp: ring_of_def NewRing_def fst_nodes_map image_iff eq_commute)
  consider "w_apply dial r (awatcher a) = (awatcher a, None)"
    | w where "w_apply dial r (awatcher a) = (w, Some r)" "wring w = Some (ring_of r)"
    unfolding w_apply_def by (cases "case wring (awatcher a) of None \<Rightarrow> False | Some old \<Rightarrow> REpoch r \<le> Epoch old \<and> REpoch r \<noteq> 0") simp_all
  then have "(excluded (agent_apply dial r a) \<longrightarrow> rejoin (agent_apply dial r a) \<or> ok \<and> snd (w_apply dial r (awatcher a)) = None) \<and>
      aSelf (agent_apply dial r a) = aSelf a"
  proof cases
    case 1
    then show ?thesis using assms by (simp add: agent_apply_def)
  next
    case 2
    then show ?thesis by (simp add: agent_apply_def agent_onRing_def excluded_def mem)
  qed
  then show "excluded (agent_apply dial r a) \<longrightarrow> rejoin (agent_apply dial r a) \<or> ok \<and> snd (w_apply dial r (awatcher a)) = None"
    "aSelf (agent_apply dial r a) = aSelf a" by blast+
qed

lemma agent_steps_signal:
  assumes "(agent_step call dial ops ds)\<^sup>*\<^sup>* x y" and "excluded (agent x) \<longrightarrow> rejoin (agent x) \<or> joining x \<or> acked x"
  shows "aSelf (agent y) = aSelf (agent x) \<and> (excluded (agent y) \<longrightarrow> rejoin (agent y) \<or> joining y \<or> acked y)"
  using assms
proof (induction rule: rtranclp_induct)
  case (step y z)
  note IH = step.IH [OF step.prems]
  from step.hyps(2) show ?case
  proof (cases rule: agent_step.cases)
    case (on_ring r)
    then show ?thesis
      using IH agent_apply_signals [of "agent y" "joining y \<or> acked y" dial r] by auto
  qed (use IH in \<open>auto simp: excluded_def\<close>)
qed simp

lemma join_pass_succeeds:
  assumes "d \<in> set ds" and "\<forall>w. fst (call d self w)"
  shows "\<exists>w'. join_pass call self ds w = (True, w')"
proof -
  have "fst (join_pass call self ds w)"
    using assms(1)
  proof (induction ds arbitrary: w)
    case (Cons e ds)
    then show ?case using assms(2) by (cases "call e self w") (auto split: bool.split; metis fst_conv)
  qed simp
  then show ?thesis by (cases "join_pass call self ds w") auto
qed



text \<open>
  Telemetry loses nothing while encoding works: over any sequence of ticks the hits, misses and
  evictions reported add up to the change of the store's counters, with the counters' wrap-around.
\<close>

theorem telemetry_adds_up:
  assumes "\<forall>ev. marshal ev \<noteq> None"
  shows "(\<Sum>(ev, raw) \<leftarrow> RunTelemetry marshal nid prev ticks. THits ev) = Hits (last (prev # map snd ticks)) - Hits prev \<and>
    (\<Sum>(ev, raw) \<leftarrow> RunTelemetry marshal nid prev ticks. TMisses ev) = Misses (last (prev # map snd ticks)) - Misses prev \<and>
    (\<Sum>(ev, raw) \<leftarrow> RunTelemetry marshal nid prev ticks. TEvictions ev) = Evictions (last (prev # map snd ticks)) - Evictions prev \<and>
    (\<Sum>(ev, raw) \<leftarrow> RunTelemetry marshal nid prev ticks. TEvictedCostUs ev) =
      EvictedCostUS (last (prev # map snd ticks)) - EvictedCostUS prev"
proof (induction ticks arbitrary: prev)
  case (Cons t ticks)
  obtain ts st where t: "t = (ts, st)" by fastforce
  obtain raw where "marshal (telemetry_tick nid ts prev st) = Some raw" using assms by blast
  then show ?case using Cons.IH [of st] by (simp add: t Let_def) (simp add: telemetry_tick_def)
qed simp

theorem telemetry_adds_up_witness:
  "(\<Sum>(ev, raw) \<leftarrow> RunTelemetry (\<lambda>_. Some []) ''n'' stats0 [(1, stats0\<lparr>Hits := 5\<rparr>), (2, stats0\<lparr>Hits := 7\<rparr>)]. THits ev) = 7"
  using telemetry_adds_up [of "\<lambda>_. Some []" "''n''" stats0 "[(1, stats0\<lparr>Hits := 5\<rparr>), (2, stats0\<lparr>Hits := 7\<rparr>)]"]
  by (simp add: stats0_def)

end
