(* ===== verification/Gateway.thy ===== *)
theory Gateway
  imports Ringwatch Cachenode
begin

text \<open>
  The gateway, \<^verbatim>\<open>internal/gateway/server.go\<close>. Everything outside the handler is the record \<open>gw_env\<close>
  over a world \<open>'w\<close>: the ring source, the \<open>Contains\<close> and \<open>PutBlocks\<close> calls to cache nodes, the event
  producer, the clock and the protobuf codec. Every interaction returns a new world, so that other
  goroutines may change anything between two of them. The goroutines of a fan-out lock before they write
  the shared results; \<open>gorder\<close> and \<open>porder\<close> are the orders in which they get there, and the theorems
  hold for all of them. \<open>None\<close> is a panic. Prometheus counters are not modelled.
\<close>

subsection \<open>Messages\<close>

record MatchRequest =
  QModelId :: string
  QChain :: "bytes list"

record BlockRef =
  RefBlockId :: bytes
  RefNodeAddr :: string

record MatchResponse =
  MatchedDepth :: u32
  Refs :: "BlockRef list"
  MRingEpoch :: u64

record AccessEvent =
  AChainHead :: bytes
  AModelId :: string
  ADepthRequested :: u32
  ADepthMatched :: u32
  ADeepestHit :: bytes
  ANextMiss :: bytes
  ATsUnixMs :: int
  AChain :: "bytes list"

record PutBlocksResponse =
  PStored :: u32
  PExisting :: u32

record 'c batch =
  bclient :: 'c
  bindices :: "nat list"
  bids :: "bytes list"

record ('c, 'w) gw_env =
  src_Ring :: "'w \<Rightarrow> ring option \<times> 'w"
  src_Client :: "string \<Rightarrow> 'w \<Rightarrow> 'c option \<times> 'w"
  rpc_Contains :: "'c \<Rightarrow> IdsRequest \<Rightarrow> 'w \<Rightarrow> (code + bool list) \<times> 'w"
  rpc_PutBlocks :: "'c \<Rightarrow> CachePutRequest list \<Rightarrow> 'w \<Rightarrow> (cn_err + CachePutResponse) \<times> 'w"
  gorder :: "'w \<Rightarrow> (string \<times> 'c batch) list \<Rightarrow> (string \<times> 'c batch) list"
  porder :: "'w \<Rightarrow> (string \<times> Block list) list \<Rightarrow> (string \<times> Block list) list"
  clockMs :: "'w \<Rightarrow> int"
  marshalAccess :: "AccessEvent \<Rightarrow> bytes option"
  Produce :: "(bytes \<Rightarrow> bytes \<Rightarrow> 'w \<Rightarrow> 'w) option"

subsection \<open>Ring sources and construction\<close>

record 'c Static =
  StaticR :: "ring option"
  StaticClients :: "(string \<times> 'c) list"

definition Static_Ring :: "'c Static \<Rightarrow> ring option" where
  "Static_Ring s = StaticR s"

definition Static_Client :: "'c Static \<Rightarrow> string \<Rightarrow> 'c option" where
  "Static_Client s i = map_of (StaticClients s) i"

definition NewGateway :: "int \<Rightarrow> int" where
  "NewGateway rf = (if rf < 1 then 1 else rf)"

subsection \<open>Match\<close>

fun build_batches ::
    "('c, 'w) gw_env \<Rightarrow> ring \<Rightarrow> bytes list \<Rightarrow> nat \<Rightarrow> nat list \<Rightarrow> (string \<times> 'c batch) list \<Rightarrow> nat list \<Rightarrow> 'w \<Rightarrow>
     (((string \<times> 'c batch) list \<times> nat list) \<times> 'w) option" where
  "build_batches env ring chainIDs replica [] batches unroutable w = Some ((batches, unroutable), w)"
| "build_batches env ring chainIDs replica (i # indices) batches unroutable w = do {
     owners \<leftarrow> Owners ring (chainIDs ! i) (int replica + 1);
     if length owners \<le> replica then build_batches env ring chainIDs replica indices batches unroutable w
     else
       let nid = owners ! replica
       in case map_of batches nid of
            Some b \<Rightarrow>
              build_batches env ring chainIDs replica indices
                (AList.update nid (b\<lparr>bindices := bindices b @ [i], bids := bids b @ [chainIDs ! i]\<rparr>) batches) unroutable w
          | None \<Rightarrow>
              (case src_Client env nid w of
                 (None, w1) \<Rightarrow> build_batches env ring chainIDs replica indices batches (unroutable @ [i]) w1
               | (Some c, w1) \<Rightarrow>
                   build_batches env ring chainIDs replica indices
                     (AList.update nid \<lparr>bclient = c, bindices = [i], bids = [chainIDs ! i]\<rparr> batches) unroutable w1)
   }"

record probe =
  present :: "bool list"
  holders :: "string list"
  retry :: "nat list"
  wrongEpoch :: bool

fun answers_loop :: "string \<Rightarrow> nat list \<Rightarrow> bool list \<Rightarrow> probe \<Rightarrow> probe" where
  "answers_loop nid [] ps st = st"
| "answers_loop nid (i # is) ps st =
     answers_loop nid is (tl ps)
       (if ps \<noteq> [] \<and> hd ps then st\<lparr>present := (present st)[i := True], holders := (holders st)[i := nid]\<rparr>
        else st\<lparr>retry := retry st @ [i]\<rparr>)"

definition batch_done :: "string \<Rightarrow> 'c batch \<Rightarrow> code + bool list \<Rightarrow> probe \<Rightarrow> probe" where
  "batch_done nid b res st =
     (case res of
        Inl c \<Rightarrow> st\<lparr>wrongEpoch := (wrongEpoch st \<or> c = FailedPrecondition), retry := retry st @ bindices b\<rparr>
      | Inr ps \<Rightarrow> answers_loop nid (bindices b) ps st)"

fun run_batches :: "('c, 'w) gw_env \<Rightarrow> u64 \<Rightarrow> (string \<times> 'c batch) list \<Rightarrow> probe \<Rightarrow> 'w \<Rightarrow> probe \<times> 'w" where
  "run_batches env ep [] st w = (st, w)"
| "run_batches env ep ((nid, b) # bs) st w =
     (case rpc_Contains env (bclient b) \<lparr>QRingEpoch = ep, QBlockIds = bids b\<rparr> w of
        (res, w1) \<Rightarrow> run_batches env ep bs (batch_done nid b res st) w1)"

definition probeReplica ::
    "('c, 'w) gw_env \<Rightarrow> ring \<Rightarrow> bytes list \<Rightarrow> nat list \<Rightarrow> nat \<Rightarrow> probe \<Rightarrow> 'w \<Rightarrow> (probe \<times> 'w) option" where
  "probeReplica env ring chainIDs indices replica st w = do {
     ((batches, unroutable), w1) \<leftarrow> build_batches env ring chainIDs replica indices [] [] w;
     Some (run_batches env (Epoch ring) (gorder env w1 batches) (st\<lparr>retry := unroutable\<rparr>) w1)
   }"

text \<open>\<open>n\<close> counts the replicas still to probe; \<open>wrongEpoch\<close> accumulates over the rounds.\<close>

fun probe_rounds ::
    "('c, 'w) gw_env \<Rightarrow> ring \<Rightarrow> bytes list \<Rightarrow> nat \<Rightarrow> nat \<Rightarrow> probe \<Rightarrow> 'w \<Rightarrow> (probe \<times> 'w) option" where
  "probe_rounds env ring chainIDs replica 0 st w = Some (st, w)"
| "probe_rounds env ring chainIDs replica (Suc n) st w =
     (if retry st = [] then Some (st, w)
      else do {
        (st1, w1) \<leftarrow> probeReplica env ring chainIDs (retry st) replica st w;
        probe_rounds env ring chainIDs (Suc replica) n st1 w1
      })"

fun depth_loop :: "bool list \<Rightarrow> nat" where
  "depth_loop [] = 0"
| "depth_loop (p # ps) = (if p then Suc (depth_loop ps) else 0)"

definition matchOnRing ::
    "('c, 'w) gw_env \<Rightarrow> int \<Rightarrow> ring \<Rightarrow> MatchRequest \<Rightarrow> 'w \<Rightarrow> ((MatchResponse \<times> bool) \<times> 'w) option" where
  "matchOnRing env rf ring req w = do {
     let n = length (QChain req);
     (st, w1) \<leftarrow> probe_rounds env ring (QChain req) 0 (nat rf)
       \<lparr>present = replicate n False, holders = replicate n '''', retry = [0..<n], wrongEpoch = False\<rparr> w;
     let depth = depth_loop (present st);
     let refs = map (\<lambda>i. \<lparr>RefBlockId = QChain req ! i,
       RefNodeAddr = (case map_of (Nodes ring) (holders st ! i) of None \<Rightarrow> '''' | Some a \<Rightarrow> a)\<rparr>) [0..<depth];
     Some ((\<lparr>MatchedDepth = word_of_nat depth, Refs = refs, MRingEpoch = Epoch ring\<rparr>, wrongEpoch st), w1)
   }"

definition emitAccess :: "('c, 'w) gw_env \<Rightarrow> MatchRequest \<Rightarrow> MatchResponse \<Rightarrow> 'w \<Rightarrow> 'w option" where
  "emitAccess env req resp w =
     (case Produce env of
        None \<Rightarrow> Some w
      | Some produce \<Rightarrow>
          if QChain req = [] then Some w
          else
            let d = unat (MatchedDepth resp); n = length (QChain req)
            in if d > n then None
               else
                 let ev = \<lparr>AChainHead = QChain req ! 0, AModelId = QModelId req, ADepthRequested = word_of_nat n,
                       ADepthMatched = MatchedDepth resp,
                       ADeepestHit = (if d > 0 then QChain req ! (d - 1) else []),
                       ANextMiss = (if d < n then QChain req ! d else []),
                       ATsUnixMs = clockMs env w, AChain = QChain req\<rparr>
                 in case marshalAccess env ev of
                      None \<Rightarrow> Some w
                    | Some raw \<Rightarrow> Some (produce (QChain req ! 0) raw w))"

function Match_loop :: "('c, 'w) gw_env \<Rightarrow> int \<Rightarrow> MatchRequest \<Rightarrow> nat \<Rightarrow> 'w \<Rightarrow> (MatchResponse \<times> 'w) option" where
  "Match_loop env rf req attempt w =
     (case src_Ring env w of
        (None, w1) \<Rightarrow> Some (\<lparr>MatchedDepth = 0, Refs = [], MRingEpoch = 0\<rparr>, w1)
      | (Some ring, w1) \<Rightarrow>
          if Size ring = 0 \<or> QChain req = [] then Some (\<lparr>MatchedDepth = 0, Refs = [], MRingEpoch = 0\<rparr>, w1)
          else
            (case matchOnRing env rf ring req w1 of
               None \<Rightarrow> None
             | Some ((resp, we), w2) \<Rightarrow>
                 if we \<and> attempt = 0
                 then (case src_Ring env w2 of
                         (Some newer, w3) \<Rightarrow>
                           if Epoch newer > Epoch ring then Match_loop env rf req (attempt + 1) w3
                           else map_option (Pair resp) (emitAccess env req resp w3)
                       | (None, w3) \<Rightarrow> map_option (Pair resp) (emitAccess env req resp w3))
                 else map_option (Pair resp) (emitAccess env req resp w2)))"
  by pat_completeness auto

termination
  by (relation "measure (\<lambda>(env, rf, req, attempt, w). 1 - attempt)") auto

declare Match_loop.simps [simp del]

definition Match :: "('c, 'w) gw_env \<Rightarrow> int \<Rightarrow> MatchRequest \<Rightarrow> 'w \<Rightarrow> ((code + MatchResponse) \<times> 'w) option" where
  "Match env rf req w =
     (if \<exists>i \<in> set (QChain req). length i \<noteq> HashSize then Some (Inl InvalidArgument, w)
      else map_option (map_prod Inr id) (Match_loop env rf req 0 w))"

subsection \<open>PutBlocks\<close>

fun put_owners :: "Block \<Rightarrow> string list \<Rightarrow> (string \<times> Block list) list \<Rightarrow> (string \<times> Block list) list" where
  "put_owners b [] byOwner = byOwner"
| "put_owners b (nid # nids) byOwner =
     put_owners b nids
       (AList.update nid ((case map_of byOwner nid of None \<Rightarrow> [] | Some bs \<Rightarrow> bs) @ [b]) byOwner)"

fun recv_loop ::
    "('c, 'w) gw_env \<Rightarrow> int \<Rightarrow> bool \<Rightarrow> Block option list \<Rightarrow> (string \<times> Block list) list \<Rightarrow> 'w \<Rightarrow>
     ((cn_err + (string \<times> Block list) list) \<times> 'w) option" where
  "recv_loop env rf eof [] byOwner w = Some (if eof then Inr byOwner else Inl StreamErr, w)"
| "recv_loop env rf eof (req # reqs) byOwner w =
     (case req of
        None \<Rightarrow> Some (Inl (Status InvalidArgument), w)
      | Some b \<Rightarrow>
          if length (BlockId b) \<noteq> HashSize then Some (Inl (Status InvalidArgument), w)
          else
            (case src_Ring env w of
               (None, w1) \<Rightarrow> recv_loop env rf eof reqs byOwner w1
             | (Some ring, w1) \<Rightarrow>
                 if Size ring = 0 then recv_loop env rf eof reqs byOwner w1
                 else do {
                   owners \<leftarrow> Owners ring (BlockId b) rf;
                   recv_loop env rf eof reqs (put_owners b owners byOwner) w1
                 }))"

fun put_fanout ::
    "('c, 'w) gw_env \<Rightarrow> u64 \<Rightarrow> (string \<times> Block list) list \<Rightarrow> u32 \<Rightarrow> u32 \<Rightarrow> 'w \<Rightarrow> PutBlocksResponse \<times> 'w" where
  "put_fanout env ep [] stored existing w = (\<lparr>PStored = stored, PExisting = existing\<rparr>, w)"
| "put_fanout env ep ((nid, blocks) # rest) stored existing w =
     (case src_Client env nid w of
        (None, w1) \<Rightarrow> put_fanout env ep rest stored existing w1
      | (Some c, w1) \<Rightarrow>
          (case rpc_PutBlocks env c (map (\<lambda>b. \<lparr>PRingEpoch = ep, PBlock = Some b\<rparr>) blocks) w1 of
             (Inl _, w2) \<Rightarrow> put_fanout env ep rest stored existing w2
           | (Inr resp, w2) \<Rightarrow> put_fanout env ep rest (stored + RStored resp) (existing + RExisting resp) w2))"

definition gw_PutBlocks ::
    "('c, 'w) gw_env \<Rightarrow> int \<Rightarrow> bool \<Rightarrow> Block option list \<Rightarrow> 'w \<Rightarrow> ((cn_err + PutBlocksResponse) \<times> 'w) option" where
  "gw_PutBlocks env rf eof reqs w = do {
     (res, w1) \<leftarrow> recv_loop env rf eof reqs [] w;
     case res of
       Inl e \<Rightarrow> Some (Inl e, w1)
     | Inr byOwner \<Rightarrow>
         let (ring, w2) = src_Ring env w1;
             ep = (case ring of None \<Rightarrow> 0 | Some r \<Rightarrow> Epoch r);
             (resp, w3) = put_fanout env ep (porder env w2 byOwner) 0 0 w2
         in Some (Inr resp, w3)
   }"

subsection \<open>Owners of a block\<close>

definition ring_ok :: "ring \<Rightarrow> bool" where
  "ring_ok r \<longleftrightarrow> (\<exists>e nodes v. r = NewRing e nodes v \<and> distinct (map fst nodes))"

text \<open>The members in the order in which they own a block, and the \<open>k\<close>-th of them.\<close>

definition ring_order :: "ring \<Rightarrow> bytes \<Rightarrow> string list" where
  "ring_order r i = clockwise (vnodes r) (Uint64 i)"

definition owner_at :: "ring \<Rightarrow> nat \<Rightarrow> bytes \<Rightarrow> string option" where
  "owner_at r k i = (if k < length (ring_order r i) then Some (ring_order r i ! k) else None)"

lemma Owners_ok: "ring_ok r \<Longrightarrow> id_ok i \<Longrightarrow> Owners r i n = Some (take (nat n) (ring_order r i))"
  using Owners_New by (auto simp: ring_ok_def ring_order_def id_ok_def HashSize_def)

lemma ring_order_members: "ring_ok r \<Longrightarrow> set (ring_order r i) = fst ` set (Nodes r)"
proof -
  assume "ring_ok r"
  then obtain e nodes v where r: "r = NewRing e nodes v" by (auto simp: ring_ok_def)
  have "Nodes (NewRing e nodes v) = nodes" by (simp add: Nodes_def NewRing_def)
  then show ?thesis unfolding r ring_order_def set_clockwise nodeIDs_New by simp
qed

lemma owner_at_addr:
  assumes "ring_ok r" and "owner_at r k i = Some n"
  shows "\<exists>a. map_of (Nodes r) n = Some a"
proof -
  have "n \<in> set (ring_order r i)" using assms(2) by (auto simp: owner_at_def split: if_splits)
  then show ?thesis unfolding ring_order_members [OF assms(1)] by (auto dest: weak_map_of_SomeI)
qed

lemma NewRing_ok: "distinct (map fst nodes) \<Longrightarrow> ring_ok (NewRing e nodes v)"
  by (auto simp: ring_ok_def)

lemma ring_of_ok: "ring_ok (ring_of r)"
  unfolding ring_of_def by (rule NewRing_ok) (rule nodes_map_distinct)

subsection \<open>Any environment: what a response may contain\<close>

lemma in_update: "x \<in> set (AList.update k v m) \<Longrightarrow> x = (k, v) \<or> x \<in> set m"
  by (induction m) (auto split: if_splits)

definition batches_ok :: "(string \<Rightarrow> 'c \<Rightarrow> bool) \<Rightarrow> ring \<Rightarrow> bytes list \<Rightarrow> nat \<Rightarrow> (string \<times> 'c batch) list \<Rightarrow> bool" where
  "batches_ok Cl r ch k bs \<longleftrightarrow>
     (\<forall>(n, b) \<in> set bs. Cl n (bclient b) \<and> bids b = map ((!) ch) (bindices b) \<and>
        (\<forall>i \<in> set (bindices b). i < length ch \<and> owner_at r k (ch ! i) = Some n))"

lemma batches_ok_update:
  "batches_ok Cl r ch k bs \<Longrightarrow> Cl n (bclient b) \<Longrightarrow> bids b = map ((!) ch) (bindices b) \<Longrightarrow>
   \<forall>i \<in> set (bindices b). i < length ch \<and> owner_at r k (ch ! i) = Some n \<Longrightarrow> batches_ok Cl r ch k (AList.update n b bs)"
  unfolding batches_ok_def by (auto dest!: in_update)

lemma owner_step:
  assumes "ring_ok r" and "id_ok i"
  obtains (none) os where "Owners r i (int k + 1) = Some os" "length os \<le> k" "owner_at r k i = None"
  | (some) os where "Owners r i (int k + 1) = Some os" "\<not> length os \<le> k" "owner_at r k i = Some (os ! k)"
  using Owners_ok [OF assms, of "int k + 1"] that
  by (cases "k < length (ring_order r i)") (auto simp: owner_at_def nat_add_distrib)

lemma build_sound:
  assumes "ring_ok r" and "\<forall>i \<in> set ch. id_ok i" and cl: "\<forall>n w c w'. src_Client env n w = (Some c, w') \<longrightarrow> Cl n c"
  shows "\<forall>i \<in> set ixs. i < length ch \<Longrightarrow> batches_ok Cl r ch k bs \<Longrightarrow>
    \<exists>bs' un' w'. build_batches env r ch k ixs bs un w = Some ((bs', un'), w') \<and> batches_ok Cl r ch k bs' \<and>
      set un' \<subseteq> set un \<union> set ixs"
proof (induction ixs arbitrary: bs un w)
  case (Cons i ixs)
  have i: "i < length ch" "id_ok (ch ! i)" using Cons.prems(1) assms(2) by auto
  have ixs: "\<forall>i \<in> set ixs. i < length ch" using Cons.prems(1) by simp
  from assms(1) i(2) show ?case
  proof (cases rule: owner_step [where k = k])
    case (none os)
    then show ?thesis using Cons.IH [OF ixs Cons.prems(2), of un w] by auto
  next
    case (some os)
    show ?thesis
    proof (cases "map_of bs (os ! k)")
      case None
      obtain c w1 where c: "src_Client env (os ! k) w = (c, w1)" by fastforce
      show ?thesis
      proof (cases c)
        case None: None
        then show ?thesis using Cons.IH [OF ixs Cons.prems(2), of "un @ [i]" w1] some c \<open>map_of bs (os ! k) = None\<close> by auto
      next
        case (Some c')
        have "batches_ok Cl r ch k (AList.update (os ! k) \<lparr>bclient = c', bindices = [i], bids = [ch ! i]\<rparr> bs)"
          using cl c Some i some(3) by (intro batches_ok_update [OF Cons.prems(2)]) auto
        from Cons.IH [OF ixs this, of un w1] show ?thesis using some c Some None by auto
      qed
    next
      case (Some b)
      have "(os ! k, b) \<in> set bs" using Some by (rule map_of_SomeD)
      then have "batches_ok Cl r ch k (AList.update (os ! k) (b\<lparr>bindices := bindices b @ [i], bids := bids b @ [ch ! i]\<rparr>) bs)"
        using Cons.prems(2) i some(3) by (intro batches_ok_update) (auto simp: batches_ok_def)
      from Cons.IH [OF ixs this, of un w] show ?thesis using some Some by auto
    qed
  qed
qed simp

definition probe_sound :: "(nat \<Rightarrow> string \<Rightarrow> bool) \<Rightarrow> nat \<Rightarrow> probe \<Rightarrow> bool" where
  "probe_sound Good n st \<longleftrightarrow> length (present st) = n \<and> length (holders st) = n \<and> (\<forall>i \<in> set (retry st). i < n) \<and>
     (\<forall>i < n. present st ! i \<longrightarrow> Good i (holders st ! i))"

lemma answers_loop_sound:
  "probe_sound Good n st \<Longrightarrow> \<forall>i \<in> set ixs. i < n \<Longrightarrow> \<forall>(i, p) \<in> set (zip ixs ps). p \<longrightarrow> Good i nid \<Longrightarrow>
   probe_sound Good n (answers_loop nid ixs ps st)"
proof (induction ixs arbitrary: ps st)
  case (Cons i ixs)
  have "probe_sound Good n
      (if ps \<noteq> [] \<and> hd ps then st\<lparr>present := (present st)[i := True], holders := (holders st)[i := nid]\<rparr> else st\<lparr>retry := retry st @ [i]\<rparr>)"
    using Cons.prems by (cases ps) (auto simp: probe_sound_def nth_list_update)
  then show ?case using Cons by (cases ps) auto
qed simp

lemma run_batches_sound:
  assumes rep: "\<forall>c e ids w ps w'. rpc_Contains env c \<lparr>QRingEpoch = e, QBlockIds = ids\<rparr> w = (Inr ps, w') \<longrightarrow>
      (\<forall>(i, p) \<in> set (zip ids ps). p \<longrightarrow> Rep c i)"
    and good: "\<forall>i n c. i < length ch \<and> owner_at r k (ch ! i) = Some n \<and> Cl n c \<and> Rep c (ch ! i) \<longrightarrow> Good i n"
  shows "probe_sound Good (length ch) st \<Longrightarrow> batches_ok Cl r ch k bs \<Longrightarrow>
    probe_sound Good (length ch) (fst (run_batches env e bs st w))"
proof (induction bs arbitrary: st w)
  case (Cons nb bs)
  obtain n b where nb: "nb = (n, b)" by fastforce
  obtain res w1 where res: "rpc_Contains env (bclient b) \<lparr>QRingEpoch = e, QBlockIds = bids b\<rparr> w = (res, w1)" by fastforce
  have ok: "Cl n (bclient b)" "bids b = map ((!) ch) (bindices b)" "\<forall>i \<in> set (bindices b). i < length ch \<and> owner_at r k (ch ! i) = Some n"
    and rest: "batches_ok Cl r ch k bs" using Cons.prems(2) by (auto simp: batches_ok_def nb)
  have "probe_sound Good (length ch) (batch_done n b res st)"
  proof (cases res)
    case (Inl c)
    then show ?thesis using Cons.prems(1) ok(3) by (auto simp: batch_done_def probe_sound_def)
  next
    case (Inr ps)
    have "p \<longrightarrow> Good i n" if "(i, p) \<in> set (zip (bindices b) ps)" for i p
    proof -
      have "(ch ! i, p) \<in> set (zip (bids b) ps)" using that unfolding ok(2) zip_map1 by force
      then have "p \<longrightarrow> Rep (bclient b) (ch ! i)" using rep res Inr by fast
      then show ?thesis using good ok(1,3) set_zip_leftD [OF that] by blast
    qed
    then show ?thesis using Cons.prems(1) ok(3) Inr by (auto simp: batch_done_def intro!: answers_loop_sound)
  qed
  then show ?case using Cons.IH [OF _ rest] res by (simp add: nb)
qed simp

text \<open>
  What an environment is known to do: the rings it offers are well formed, \<open>Cl\<close> holds of the clients it
  hands out for a node, \<open>Rep\<close> of the blocks its nodes report, and fan-outs complete in some order.
\<close>

definition env_ok :: "('c, 'w) gw_env \<Rightarrow> (ring \<Rightarrow> bool) \<Rightarrow> (string \<Rightarrow> 'c \<Rightarrow> bool) \<Rightarrow> ('c \<Rightarrow> bytes \<Rightarrow> bool) \<Rightarrow> bool" where
  "env_ok env Offered Cl Rep \<longleftrightarrow>
     (\<forall>w r w'. src_Ring env w = (Some r, w') \<longrightarrow> ring_ok r \<and> Offered r) \<and>
     (\<forall>n w c w'. src_Client env n w = (Some c, w') \<longrightarrow> Cl n c) \<and>
     (\<forall>c e ids w ps w'. rpc_Contains env c \<lparr>QRingEpoch = e, QBlockIds = ids\<rparr> w = (Inr ps, w') \<longrightarrow>
        (\<forall>(i, p) \<in> set (zip ids ps). p \<longrightarrow> Rep c i)) \<and>
     (\<forall>w bs. mset (gorder env w bs) = mset bs)"

text \<open>A reference that may be in a response over the ring \<open>r\<close>.\<close>

definition ref_ok :: "int \<Rightarrow> (string \<Rightarrow> 'c \<Rightarrow> bool) \<Rightarrow> ('c \<Rightarrow> bytes \<Rightarrow> bool) \<Rightarrow> ring \<Rightarrow> bytes \<Rightarrow> string \<Rightarrow> bool" where
  "ref_ok rf Cl Rep r i n \<longleftrightarrow> (\<exists>k < nat rf. \<exists>c. owner_at r k i = Some n \<and> Cl n c \<and> Rep c i)"

lemma probe_rounds_sound:
  assumes env: "env_ok env Offered Cl Rep" and r: "ring_ok r" and ch: "\<forall>i \<in> set ch. id_ok i"
  shows "k + n \<le> nat rf \<Longrightarrow> probe_sound (\<lambda>i. ref_ok rf Cl Rep r (ch ! i)) (length ch) st \<Longrightarrow>
    \<exists>st' w'. probe_rounds env r ch k n st w = Some (st', w') \<and> probe_sound (\<lambda>i. ref_ok rf Cl Rep r (ch ! i)) (length ch) st'"
proof (induction n arbitrary: k st w)
  case (Suc n)
  let ?S = "probe_sound (\<lambda>i. ref_ok rf Cl Rep r (ch ! i)) (length ch)"
  have cl: "\<forall>n w c w'. src_Client env n w = (Some c, w') \<longrightarrow> Cl n c"
    and rep: "\<forall>c e ids w ps w'. rpc_Contains env c \<lparr>QRingEpoch = e, QBlockIds = ids\<rparr> w = (Inr ps, w') \<longrightarrow>
        (\<forall>(i, p) \<in> set (zip ids ps). p \<longrightarrow> Rep c i)"
    and ord: "mset (gorder env w bs) = mset bs" for w bs using env unfolding env_ok_def by blast+
  have retry: "\<forall>i \<in> set (retry st). i < length ch" using Suc.prems(2) by (simp add: probe_sound_def)
  obtain bs un w1 where b: "build_batches env r ch k (retry st) [] [] w = Some ((bs, un), w1)" "batches_ok Cl r ch k bs"
    "set un \<subseteq> set (retry st)"
    using build_sound [OF r ch cl retry, of k "[]" "[]" w] by (auto simp: batches_ok_def)
  have bo: "batches_ok Cl r ch k (gorder env w1 bs)" using b(2) mset_eq_setD [OF ord] by (simp add: batches_ok_def)
  have st0: "?S (st\<lparr>retry := un\<rparr>)" using Suc.prems(2) b(3) retry by (auto simp: probe_sound_def)
  have good: "\<forall>i n c. i < length ch \<and> owner_at r k (ch ! i) = Some n \<and> Cl n c \<and> Rep c (ch ! i) \<longrightarrow> ref_ok rf Cl Rep r (ch ! i) n"
    using Suc.prems(1) by (auto simp: ref_ok_def intro!: exI [of _ k])
  obtain st1 w2 where s1: "run_batches env (Epoch r) (gorder env w1 bs) (st\<lparr>retry := un\<rparr>) w1 = (st1, w2)" by fastforce
  have "?S st1" using run_batches_sound [OF rep good st0 bo, of "Epoch r" w1] s1 by simp
  then show ?case using Suc.IH [of "Suc k" st1 w2] Suc.prems b(1) s1 by (auto simp: probeReplica_def)
qed simp

lemma depth_loop_le: "depth_loop ps \<le> length ps"
  by (induction ps) auto

lemma depth_loop_nth: "i < depth_loop ps \<Longrightarrow> ps ! i"
  by (induction ps arbitrary: i) (auto simp: nth_Cons' split: if_splits)

text \<open>A response of well-formed references to a prefix of the chain.\<close>

definition resp_ok :: "int \<Rightarrow> (string \<Rightarrow> 'c \<Rightarrow> bool) \<Rightarrow> ('c \<Rightarrow> bytes \<Rightarrow> bool) \<Rightarrow> (ring \<Rightarrow> bool) \<Rightarrow> bytes list \<Rightarrow> MatchResponse \<Rightarrow> bool" where
  "resp_ok rf Cl Rep Offered ch resp \<longleftrightarrow>
     MatchedDepth resp = word_of_nat (length (Refs resp)) \<and> length (Refs resp) \<le> length ch \<and>
     map RefBlockId (Refs resp) = take (length (Refs resp)) ch \<and>
     (Refs resp = [] \<or> (\<exists>r. Offered r \<and> MRingEpoch resp = Epoch r \<and> (\<forall>ref \<in> set (Refs resp).
        \<exists>n. ref_ok rf Cl Rep r (RefBlockId ref) n \<and> map_of (Nodes r) n = Some (RefNodeAddr ref))))"

lemma resp_ok_empty: "resp_ok rf Cl Rep Offered ch \<lparr>MatchedDepth = 0, Refs = [], MRingEpoch = 0\<rparr>"
  by (simp add: resp_ok_def)

lemma matchOnRing_sound:
  assumes env: "env_ok env Offered Cl Rep" and r: "ring_ok r" "Offered r" and ch: "\<forall>i \<in> set (QChain req). id_ok i"
  shows "\<exists>resp we w'. matchOnRing env rf r req w = Some ((resp, we), w') \<and> resp_ok rf Cl Rep Offered (QChain req) resp"
proof -
  let ?ch = "QChain req" and ?n = "length (QChain req)"
  let ?st0 = "\<lparr>present = replicate ?n False, holders = replicate ?n '''', retry = [0..<?n], wrongEpoch = False\<rparr>"
  have "probe_sound (\<lambda>i. ref_ok rf Cl Rep r (?ch ! i)) ?n ?st0" by (simp add: probe_sound_def)
  then obtain st w1 where st: "probe_rounds env r ?ch 0 (nat rf) ?st0 w = Some (st, w1)"
    "probe_sound (\<lambda>i. ref_ok rf Cl Rep r (?ch ! i)) ?n st"
    using probe_rounds_sound [OF env r(1) ch, of 0 "nat rf" rf ?st0 w] by auto
  let ?d = "depth_loop (present st)"
  let ?addr = "\<lambda>i. case map_of (Nodes r) (holders st ! i) of None \<Rightarrow> '''' | Some a \<Rightarrow> a"
  define resp where "resp = \<lparr>MatchedDepth = word_of_nat ?d, Refs = map (\<lambda>i. \<lparr>RefBlockId = ?ch ! i, RefNodeAddr = ?addr i\<rparr>) [0..<?d], MRingEpoch = Epoch r\<rparr>"
  have d: "?d \<le> ?n" using depth_loop_le [of "present st"] st(2) by (simp add: probe_sound_def)
  have "\<exists>n. ref_ok rf Cl Rep r (?ch ! i) n \<and> map_of (Nodes r) n = Some (?addr i)" if "i < ?d" for i
  proof -
    have ok: "ref_ok rf Cl Rep r (?ch ! i) (holders st ! i)"
      using st(2) depth_loop_nth [OF that] that d by (auto simp: probe_sound_def)
    then obtain k where "owner_at r k (?ch ! i) = Some (holders st ! i)" by (auto simp: ref_ok_def)
    from owner_at_addr [OF r(1) this] show ?thesis using ok by auto
  qed
  moreover have "map ((!) ?ch) [0..<?d] = take ?d ?ch" using d by (auto intro!: nth_equalityI)
  ultimately have "resp_ok rf Cl Rep Offered ?ch resp" using d r(2) by (auto simp: resp_ok_def resp_def comp_def)
  moreover have "matchOnRing env rf r req w = Some ((resp, wrongEpoch st), w1)" using st(1) by (simp add: matchOnRing_def resp_def Let_def)
  ultimately show ?thesis by blast
qed

lemma emitAccess_total:
  assumes "resp_ok rf Cl Rep Offered (QChain req) resp"
  shows "\<exists>w'. emitAccess env req resp w = Some w'"
proof -
  have "unat (MatchedDepth resp) \<le> length (Refs resp)"
    using assms by (simp add: resp_ok_def unsigned_of_nat take_bit_nat_less_eq_self)
  then have "\<not> unat (MatchedDepth resp) > length (QChain req)" using assms by (simp add: resp_ok_def)
  then show ?thesis by (auto simp: emitAccess_def Let_def split: option.split)
qed

lemma Match_loop_sound:
  assumes env: "env_ok env Offered Cl Rep" and ch: "\<forall>i \<in> set (QChain req). id_ok i"
  shows "\<exists>resp w'. Match_loop env rf req attempt w = Some (resp, w') \<and> resp_ok rf Cl Rep Offered (QChain req) resp"
proof (induction "1 - attempt" arbitrary: attempt w rule: less_induct)
  case less
  obtain rg w1 where rg: "src_Ring env w = (rg, w1)" by fastforce
  show ?case
  proof (cases "\<exists>r. rg = Some r \<and> Size r \<noteq> 0 \<and> QChain req \<noteq> []")
    case False
    then have "Match_loop env rf req attempt w = Some (\<lparr>MatchedDepth = 0, Refs = [], MRingEpoch = 0\<rparr>, w1)"
      using rg by (cases rg) (simp_all add: Match_loop.simps [of env rf req attempt w])
    then show ?thesis using resp_ok_empty by blast
  next
    case True
    then obtain r where r: "rg = Some r" "\<not> (Size r = 0 \<or> QChain req = [])" by auto
    have "ring_ok r" "Offered r" using env rg r(1) unfolding env_ok_def by blast+
    then obtain resp we w2 where m: "matchOnRing env rf r req w1 = Some ((resp, we), w2)" "resp_ok rf Cl Rep Offered (QChain req) resp"
      using matchOnRing_sound [OF env _ _ ch] by blast
    have fin: "\<exists>resp' w'. map_option (Pair resp) (emitAccess env req resp w) = Some (resp', w') \<and> resp_ok rf Cl Rep Offered (QChain req) resp'" for w
      using emitAccess_total [OF m(2), of env w] m(2) by auto
    have step: "Match_loop env rf req attempt w =
        (if we \<and> attempt = 0
         then (case src_Ring env w2 of
                 (Some newer, w3) \<Rightarrow> if Epoch newer > Epoch r then Match_loop env rf req (attempt + 1) w3
                   else map_option (Pair resp) (emitAccess env req resp w3)
               | (None, w3) \<Rightarrow> map_option (Pair resp) (emitAccess env req resp w3))
         else map_option (Pair resp) (emitAccess env req resp w2))"
      using rg r m(1) by (simp only: Match_loop.simps [of env rf req attempt w] prod.case option.case if_False)
    obtain newer w3 where nw: "src_Ring env w2 = (newer, w3)" by fastforce
    have "\<exists>resp w'. Match_loop env rf req 1 w3 = Some (resp, w') \<and> resp_ok rf Cl Rep Offered (QChain req) resp" if "attempt = 0"
      using less [of 1 w3] that by simp
    then have again: "\<exists>resp w'. Match_loop env rf req (attempt + 1) w3 = Some (resp, w') \<and> resp_ok rf Cl Rep Offered (QChain req) resp" if "attempt = 0"
      using that by simp
    consider "Match_loop env rf req attempt w = map_option (Pair resp) (emitAccess env req resp w2)"
      | "Match_loop env rf req attempt w = map_option (Pair resp) (emitAccess env req resp w3)"
      | "attempt = 0" "Match_loop env rf req attempt w = Match_loop env rf req (attempt + 1) w3"
      using step unfolding nw prod.case by (cases "we \<and> attempt = 0"; cases newer; cases "Epoch (the newer) > Epoch r") auto
    then show ?thesis
    proof cases
      case 1
      then show ?thesis using fin [of w2] by (simp only:)
    next
      case 2
      then show ?thesis using fin [of w3] by (simp only:)
    next
      case 3
      then show ?thesis using again by (simp only:)
    qed
  qed
qed

text \<open>
  C14: \<open>Match\<close> always answers, and never points at a block that was not reported. For any behaviour of
  the ring source, the nodes and the goroutines, including rings and stores that change while the call
  runs: the call returns after at most one retry and without a panic; it refuses exactly the chains with
  a malformed id; and otherwise the references are, in order, for a prefix of the chain as long as the
  matched depth, each naming the address, in one offered ring whose epoch is returned, of one of the
  first \<open>rf\<close> owners of the block, a client of which reported the block present.
\<close>

theorem Match_refs_reported:
  assumes "env_ok env Offered Cl Rep"
  shows "\<exists>res w'. Match env rf req w = Some (res, w') \<and>
    (case res of
       Inl c \<Rightarrow> c = InvalidArgument \<and> \<not> (\<forall>i \<in> set (QChain req). id_ok i)
     | Inr resp \<Rightarrow> (\<forall>i \<in> set (QChain req). id_ok i) \<and> resp_ok rf Cl Rep Offered (QChain req) resp)"
proof (cases "\<forall>i \<in> set (QChain req). id_ok i")
  case True
  moreover from True have "\<not> (\<exists>i \<in> set (QChain req). length i \<noteq> HashSize)" by (simp add: id_ok_def)
  ultimately show ?thesis using Match_loop_sound [OF assms True, of rf 0 w] by (auto simp: Match_def)
next
  case False
  moreover from False have "\<exists>i \<in> set (QChain req). length i \<noteq> HashSize" by (simp add: id_ok_def)
  ultimately show ?thesis by (auto simp: Match_def)
qed

text \<open>A gateway over a static ring source whose nodes report every block.\<close>

definition demo_static :: "string Static" where
  "demo_static = \<lparr>StaticR = Some (NewRing 4 [(''n1'', ''h:1'')] 1), StaticClients = [(''n1'', ''h:1'')]\<rparr>"

definition demo_env :: "(string, nat) gw_env" where
  "demo_env = \<lparr>src_Ring = \<lambda>w. (Static_Ring demo_static, w), src_Client = \<lambda>n w. (Static_Client demo_static n, w),
     rpc_Contains = \<lambda>c req w. (Inr (map (\<lambda>_. True) (QBlockIds req)), Suc w),
     rpc_PutBlocks = \<lambda>c reqs w. (Inr \<lparr>RStored = word_of_nat (length reqs), RExisting = 0\<rparr>, Suc w),
     gorder = \<lambda>w bs. rev bs, porder = \<lambda>w bs. bs, clockMs = int, marshalAccess = \<lambda>ev. None, Produce = None\<rparr>"

lemma demo_env_ok: "env_ok demo_env (\<lambda>r. Epoch r = 4) (\<lambda>n c. n = ''n1'' \<and> c = ''h:1'') (\<lambda>c i. True)"
  by (auto simp: env_ok_def demo_env_def demo_static_def Static_Ring_def Static_Client_def NewRing_ok split: if_splits)
    (simp add: NewRing_def)

theorem Match_refs_reported_witness:
  "\<exists>resp w'. Match demo_env 2 \<lparr>QModelId = ''m'', QChain = [demo_id 7]\<rparr> 0 = Some (Inr resp, w') \<and>
     resp_ok 2 (\<lambda>n c. n = ''n1'' \<and> c = ''h:1'') (\<lambda>c i. True) (\<lambda>r. Epoch r = 4) [demo_id 7] resp"
proof -
  have "id_ok (demo_id 7)" by (simp add: id_ok_def demo_id_def HashSize_def)
  then show ?thesis using Match_refs_reported [OF demo_env_ok, of 2 "\<lparr>QModelId = ''m'', QChain = [demo_id 7]\<rparr>" 0]
    by (elim exE) (rename_tac res w', case_tac res, auto)
qed

subsection \<open>A mesh that holds still: the exact response\<close>

text \<open>
  Where a block is found: \<open>hit_at\<close> is the owner at position \<open>k\<close> if there is a client for it, the node
  accepts the epoch and holds the block; \<open>first_hit\<close> is the first such owner among the first \<open>k\<close>.
\<close>

definition hit_at ::
    "(string \<Rightarrow> 'c option) \<Rightarrow> ('c \<Rightarrow> u64 \<Rightarrow> code option) \<Rightarrow> ('c \<Rightarrow> bytes \<Rightarrow> bool) \<Rightarrow> ring \<Rightarrow> nat \<Rightarrow> bytes \<Rightarrow> string option" where
  "hit_at cl refuse has r k i =
     (case owner_at r k i of
        None \<Rightarrow> None
      | Some n \<Rightarrow> (case cl n of None \<Rightarrow> None | Some c \<Rightarrow> if refuse c (Epoch r) = None \<and> has c i then Some n else None))"

primrec first_hit ::
    "(string \<Rightarrow> 'c option) \<Rightarrow> ('c \<Rightarrow> u64 \<Rightarrow> code option) \<Rightarrow> ('c \<Rightarrow> bytes \<Rightarrow> bool) \<Rightarrow> ring \<Rightarrow> nat \<Rightarrow> bytes \<Rightarrow> string option" where
  "first_hit cl refuse has r 0 i = None"
| "first_hit cl refuse has r (Suc k) i =
     (case first_hit cl refuse has r k i of Some n \<Rightarrow> Some n | None \<Rightarrow> hit_at cl refuse has r k i)"

lemma owner_at_mono: "owner_at r k i = None \<Longrightarrow> k \<le> k' \<Longrightarrow> owner_at r k' i = None"
  by (simp add: owner_at_def split: if_splits)

lemma first_hit_stays: "owner_at r k i = None \<Longrightarrow> first_hit cl rf has r (k + m) i = first_hit cl rf has r k i"
proof (induction m)
  case (Suc m)
  then have "owner_at r (k + m) i = None" by (auto intro: owner_at_mono)
  then show ?case using Suc by (simp add: hit_at_def split: option.split)
qed simp

text \<open>The effect of a set \<open>J\<close> of answers, \<open>H\<close> being the node that has the block, if any.\<close>

definition probe_upd :: "(nat \<Rightarrow> string option) \<Rightarrow> nat set \<Rightarrow> probe \<Rightarrow> probe \<Rightarrow> bool" where
  "probe_upd H J st st' \<longleftrightarrow>
     length (present st') = length (present st) \<and> length (holders st') = length (holders st) \<and>
     (\<forall>j < length (present st). present st' ! j = (present st ! j \<or> j \<in> J \<and> H j \<noteq> None)) \<and>
     (\<forall>j < length (holders st). holders st' ! j = (if j \<in> J \<and> H j \<noteq> None then the (H j) else holders st ! j)) \<and>
     set (retry st') = set (retry st) \<union> {j \<in> J. H j = None}"

lemma probe_upd_refl: "probe_upd H {} st st"
  by (simp add: probe_upd_def)

lemma probe_upd_trans: "probe_upd H J st st1 \<Longrightarrow> probe_upd H J' st1 st2 \<Longrightarrow> probe_upd H (J \<union> J') st st2"
  unfolding probe_upd_def by auto

lemma answers_loop_upd:
  "\<forall>i \<in> set ixs. i < length (present st) \<and> i < length (holders st) \<and> H i = (if P i then Some n else None) \<Longrightarrow>
   probe_upd H (set ixs) st (answers_loop n ixs (map P ixs) st)"
proof (induction ixs arbitrary: st)
  case (Cons i ixs)
  define st1 where "st1 = (if P i then st\<lparr>present := (present st)[i := True], holders := (holders st)[i := n]\<rparr> else st\<lparr>retry := retry st @ [i]\<rparr>)"
  have "probe_upd H {i} st st1" using Cons.prems by (auto simp: probe_upd_def st1_def nth_list_update)
  moreover have "length (present st1) = length (present st)" "length (holders st1) = length (holders st)" by (simp_all add: st1_def)
  then have "probe_upd H (set ixs) st1 (answers_loop n ixs (map P ixs) st1)" using Cons by simp
  ultimately have "probe_upd H ({i} \<union> set ixs) st (answers_loop n ixs (map P ixs) st1)" by (rule probe_upd_trans)
  then show ?case by (simp add: st1_def)
qed (simp add: probe_upd_refl)

lemma refused_upd:
  "\<forall>i \<in> set (bindices b). H i = None \<Longrightarrow> probe_upd H (set (bindices b)) st (batch_done n b (Inl c) st)"
  by (auto simp: probe_upd_def batch_done_def)

text \<open>The batches built from the indices \<open>J\<close>, \<open>cl\<close> being the clients on offer.\<close>

definition batch_inv ::
    "(string \<Rightarrow> 'c option) \<Rightarrow> ring \<Rightarrow> bytes list \<Rightarrow> nat \<Rightarrow> nat set \<Rightarrow> (string \<times> 'c batch) list \<Rightarrow> nat list \<Rightarrow> bool" where
  "batch_inv cl r ch k J bs un \<longleftrightarrow>
     batches_ok (\<lambda>n c. cl n = Some c) r ch k bs \<and> (\<forall>(n, b) \<in> set bs. set (bindices b) \<subseteq> J) \<and>
     set un = {i \<in> J. \<exists>n. owner_at r k (ch ! i) = Some n \<and> cl n = None} \<and>
     (\<forall>i \<in> J. \<forall>n. owner_at r k (ch ! i) = Some n \<and> cl n \<noteq> None \<longrightarrow> (\<exists>b. map_of bs n = Some b \<and> i \<in> set (bindices b)))"

lemma batch_inv_empty: "batch_inv cl r ch k {} [] []"
  by (simp add: batch_inv_def batches_ok_def)

lemma batch_inv_none:
  assumes "batch_inv cl r ch k J bs un" and "owner_at r k (ch ! i) = None"
  shows "batch_inv cl r ch k (insert i J) bs un"
proof -
  have "\<forall>(n, b) \<in> set bs. set (bindices b) \<subseteq> insert i J" using assms(1) by (auto simp: batch_inv_def)
  then show ?thesis using assms unfolding batch_inv_def by auto
qed

lemma batch_inv_unroutable:
  assumes "batch_inv cl r ch k J bs un" and "owner_at r k (ch ! i) = Some n" and "cl n = None"
  shows "batch_inv cl r ch k (insert i J) bs (un @ [i])"
proof -
  have "\<forall>(n, b) \<in> set bs. set (bindices b) \<subseteq> insert i J" using assms(1) by (auto simp: batch_inv_def)
  then show ?thesis using assms unfolding batch_inv_def by auto
qed

lemma batch_inv_add:
  assumes inv: "batch_inv cl r ch k J bs un" and own: "owner_at r k (ch ! i) = Some n" "i < length ch" and cl: "cl n = Some (bclient b)"
    and b: "bids b = map ((!) ch) (bindices b)" "bindices b = (case map_of bs n of None \<Rightarrow> [] | Some b0 \<Rightarrow> bindices b0) @ [i]"
  shows "batch_inv cl r ch k (insert i J) (AList.update n b bs) un"
proof -
  have old: "\<forall>j \<in> set (bindices b). j = i \<or> j \<in> J \<and> j < length ch \<and> owner_at r k (ch ! j) = Some n"
  proof (cases "map_of bs n")
    case (Some b0)
    then have "(n, b0) \<in> set bs" by (rule map_of_SomeD)
    then show ?thesis using inv Some by (auto simp: batch_inv_def batches_ok_def b(2))
  qed (simp add: b(2))
  have "batches_ok (\<lambda>n c. cl n = Some c) r ch k (AList.update n b bs)"
    using inv old own cl b(1) by (intro batches_ok_update) (auto simp: batch_inv_def)
  moreover have "\<forall>(m, b) \<in> set (AList.update n b bs). set (bindices b) \<subseteq> insert i J"
    using inv old by (auto simp: batch_inv_def dest!: in_update)
  moreover have "set un = {j \<in> insert i J. \<exists>n. owner_at r k (ch ! j) = Some n \<and> cl n = None}"
    using inv own(1) cl by (auto simp: batch_inv_def)
  moreover have "\<exists>b'. map_of (AList.update n b bs) m = Some b' \<and> j \<in> set (bindices b')"
    if j: "j \<in> insert i J" "owner_at r k (ch ! j) = Some m" "cl m \<noteq> None" for j m
  proof (cases "j = i")
    case True
    then show ?thesis using j own(1) b(2) by (simp add: map_of_update)
  next
    case False
    then obtain b0 where "map_of bs m = Some b0" "j \<in> set (bindices b0)" using j inv unfolding batch_inv_def by blast
    then show ?thesis using b(2) by (cases "m = n") (auto simp: map_of_update)
  qed
  ultimately show ?thesis by (simp add: batch_inv_def)
qed

lemma batch_inv_routes:
  fixes r :: ring
  assumes "batch_inv cl r ch k R bs un"
  defines "J \<equiv> \<Union>(n, b) \<in> set bs. set (bindices b)"
  shows "J \<subseteq> R" and "j \<in> R \<Longrightarrow> owner_at r k (ch ! j) \<noteq> None \<Longrightarrow> j \<in> set un \<or> j \<in> J"
    and "j \<in> set un \<Longrightarrow> j \<in> R \<and> hit_at cl refuse has r k (ch ! j) = None"
    and "j \<in> R \<Longrightarrow> hit_at cl refuse has r k (ch ! j) \<noteq> None \<Longrightarrow> j \<in> J"
proof -
  show "J \<subseteq> R" using assms by (auto simp: batch_inv_def)
  show un: "j \<in> set un \<Longrightarrow> j \<in> R \<and> hit_at cl refuse has r k (ch ! j) = None"
    using assms(1) by (auto simp: batch_inv_def hit_at_def)
  show rt: "j \<in> set un \<or> j \<in> J" if j: "j \<in> R" "owner_at r k (ch ! j) \<noteq> None"
  proof -
    obtain n where n: "owner_at r k (ch ! j) = Some n" using j(2) by blast
    show ?thesis
    proof (cases "cl n")
      case None
      then show ?thesis using n j(1) assms(1) by (auto simp: batch_inv_def)
    next
      case (Some c)
      then obtain b where "map_of bs n = Some b" "j \<in> set (bindices b)" using assms(1) n j(1) unfolding batch_inv_def by blast
      then show ?thesis by (auto simp: J_def dest: map_of_SomeD)
    qed
  qed
  show "j \<in> R \<Longrightarrow> hit_at cl refuse has r k (ch ! j) \<noteq> None \<Longrightarrow> j \<in> J"
    using rt un by (cases "owner_at r k (ch ! j)") (auto simp: hit_at_def)
qed

text \<open>
  The specification of \<open>Match\<close>: the longest prefix of the chain all of whose blocks are found, each at
  the first of its first \<open>rf\<close> owners that has it.
\<close>

definition match_spec ::
    "(string \<Rightarrow> 'c option) \<Rightarrow> ('c \<Rightarrow> u64 \<Rightarrow> code option) \<Rightarrow> ('c \<Rightarrow> bytes \<Rightarrow> bool) \<Rightarrow> ring \<Rightarrow> int \<Rightarrow> bytes list \<Rightarrow> MatchResponse" where
  "match_spec cl refuse has r rf ch =
     (let hit = first_hit cl refuse has r (nat rf); pre = takeWhile (\<lambda>i. hit i \<noteq> None) ch
      in \<lparr>MatchedDepth = word_of_nat (length pre),
          Refs = map (\<lambda>i. \<lparr>RefBlockId = i, RefNodeAddr = (case map_of (Nodes r) (the (hit i)) of None \<Rightarrow> '''' | Some a \<Rightarrow> a)\<rparr>) pre,
          MRingEpoch = Epoch r\<rparr>)"

lemma depth_loop_takeWhile: "depth_loop (map P xs) = length (takeWhile P xs)"
  by (induction xs) auto

lemma nth_takeWhile_map:
  "map f [0..<length (takeWhile P xs)] = map g (takeWhile P xs)" if "\<And>i. i < length xs \<Longrightarrow> P (xs ! i) \<Longrightarrow> f i = g (xs ! i)"
proof (rule nth_equalityI)
  fix i assume "i < length (map f [0..<length (takeWhile P xs)])"
  then have i: "i < length (takeWhile P xs)" by simp
  then have "P (xs ! i)" using nth_mem [OF i] set_takeWhileD takeWhile_nth [OF i] by metis
  moreover have "i < length xs" using i length_takeWhile_le [of P xs] by linarith
  ultimately show "map f [0..<length (takeWhile P xs)] ! i = map g (takeWhile P xs) ! i" using that i by (simp add: takeWhile_nth)
qed simp

lemma emitAccess_spec:
  "\<exists>w'. emitAccess env req (match_spec cl refuse has r rf (QChain req)) w = Some w' \<and>
     (w' = w \<or> (\<exists>produce raw. Produce env = Some produce \<and> w' = produce (QChain req ! 0) raw w))"
proof -
  let ?pre = "takeWhile (\<lambda>i. first_hit cl refuse has r (nat rf) i \<noteq> None) (QChain req)"
  have "unat (word_of_nat (length ?pre) :: u32) \<le> length ?pre" by (simp add: unsigned_of_nat take_bit_nat_less_eq_self)
  then have "\<not> unat (MatchedDepth (match_spec cl refuse has r rf (QChain req))) > length (QChain req)"
    using length_takeWhile_le [of "\<lambda>i. first_hit cl refuse has r (nat rf) i \<noteq> None" "QChain req"] by (simp add: match_spec_def Let_def)
  then show ?thesis by (auto simp: emitAccess_def Let_def split: option.split)
qed

text \<open>
  The environment as a service that answers by a view of the world which the call itself does not
  change: the ring and clients on offer, and the nodes' answers block by block.
\<close>

locale node_service =
  fixes env :: "('c, 'w) gw_env" and okw :: "'w \<Rightarrow> bool" and view :: "'w \<Rightarrow> 'v"
    and ringof :: "'v \<Rightarrow> ring option" and clientof :: "'v \<Rightarrow> string \<Rightarrow> 'c option"
    and refusal :: "'v \<Rightarrow> 'c \<Rightarrow> u64 \<Rightarrow> code option" and holds :: "'v \<Rightarrow> 'c \<Rightarrow> bytes \<Rightarrow> bool"
  assumes ring: "okw w \<Longrightarrow> \<exists>w'. src_Ring env w = (ringof (view w), w') \<and> okw w' \<and> view w' = view w"
    and rings: "okw w \<Longrightarrow> ringof (view w) = Some r \<Longrightarrow> ring_ok r"
    and client: "okw w \<Longrightarrow> \<exists>w'. src_Client env n w = (clientof (view w) n, w') \<and> okw w' \<and> view w' = view w"
    and contains: "okw w \<Longrightarrow> \<forall>i \<in> set ids. id_ok i \<Longrightarrow>
      \<exists>w'. rpc_Contains env c \<lparr>QRingEpoch = e, QBlockIds = ids\<rparr> w =
          (case refusal (view w) c e of Some x \<Rightarrow> Inl x | None \<Rightarrow> Inr (map (holds (view w) c) ids), w') \<and>
        okw w' \<and> view w' = view w"
    and order: "mset (gorder env w bs) = mset bs"
    and events: "Produce env = Some produce \<Longrightarrow> okw w \<Longrightarrow> okw (produce k raw w) \<and> view (produce k raw w) = view w"
begin

lemma build_exact:
  assumes "ring_ok r" and "\<forall>i \<in> set ch. id_ok i"
  shows "okw w \<Longrightarrow> \<forall>i \<in> set ixs. i < length ch \<Longrightarrow> batch_inv (clientof (view w)) r ch k J bs un \<Longrightarrow>
    \<exists>bs' un' w'. build_batches env r ch k ixs bs un w = Some ((bs', un'), w') \<and> okw w' \<and> view w' = view w \<and>
      batch_inv (clientof (view w)) r ch k (J \<union> set ixs) bs' un'"
proof (induction ixs arbitrary: J bs un w)
  case (Cons i ixs)
  let ?cl = "clientof (view w)"
  have i: "i < length ch" "id_ok (ch ! i)" using Cons.prems(2) assms(2) by auto
  have IH: "\<exists>bs2 un2 w2. build_batches env r ch k ixs bs' un' w' = Some ((bs2, un2), w2) \<and> okw w2 \<and> view w2 = view w \<and>
      batch_inv ?cl r ch k (J \<union> set (i # ixs)) bs2 un2"
    if "okw w'" "view w' = view w" "batch_inv ?cl r ch k (insert i J) bs' un'" for bs' un' w'
    using Cons.IH [of w' "insert i J" bs' un'] Cons.prems(2) that by simp
  from assms(1) i(2) show ?case
  proof (cases rule: owner_step [where k = k])
    case (none os)
    then show ?thesis using IH [OF Cons.prems(1) refl batch_inv_none [OF Cons.prems(3)]] by simp
  next
    case (some os)
    let ?n = "os ! k"
    obtain w1 where w1: "src_Client env ?n w = (?cl ?n, w1)" "okw w1" "view w1 = view w" using client [OF Cons.prems(1)] by blast
    note inv = batch_inv_add [OF Cons.prems(3) some(3) i(1)]
    consider b where "map_of bs ?n = Some b" | "map_of bs ?n = None" "?cl ?n = None" | c where "map_of bs ?n = None" "?cl ?n = Some c"
      by (cases "map_of bs ?n"; cases "?cl ?n") auto
    then show ?thesis
    proof cases
      case (1 b)
      then have "?cl ?n = Some (bclient b)" "bids b = map ((!) ch) (bindices b)"
        using Cons.prems(3) by (auto simp: batch_inv_def batches_ok_def dest!: map_of_SomeD)
      then have "batch_inv ?cl r ch k (insert i J) (AList.update ?n (b\<lparr>bindices := bindices b @ [i], bids := bids b @ [ch ! i]\<rparr>) bs) un"
        using 1 by (intro inv) simp_all
      from IH [OF Cons.prems(1) refl this] show ?thesis using some 1 by simp
    next
      case 2
      from IH [OF w1(2,3) batch_inv_unroutable [OF Cons.prems(3) some(3) 2(2)]] show ?thesis using some 2 w1(1) by simp
    next
      case (3 c)
      then have "batch_inv ?cl r ch k (insert i J) (AList.update ?n \<lparr>bclient = c, bindices = [i], bids = [ch ! i]\<rparr> bs) un"
        by (intro inv) simp_all
      from IH [OF w1(2,3) this] show ?thesis using some 3 w1(1) by simp
    qed
  qed
qed simp

lemma run_batches_exact:
  assumes ids: "\<forall>i \<in> set ch. id_ok i" and H: "H = (\<lambda>i. hit_at (clientof v) (refusal v) (holds v) r k (ch ! i))"
  shows "okw w \<Longrightarrow> view w = v \<Longrightarrow> batches_ok (\<lambda>n c. clientof v n = Some c) r ch k bs \<Longrightarrow>
    length (present st) = length ch \<Longrightarrow> length (holders st) = length ch \<Longrightarrow>
    \<exists>st' w'. run_batches env (Epoch r) bs st w = (st', w') \<and> okw w' \<and> view w' = v \<and>
      probe_upd H (\<Union>(n, b) \<in> set bs. set (bindices b)) st st'"
proof (induction bs arbitrary: st w)
  case (Cons nb bs)
  obtain n b where nb: "nb = (n, b)" by fastforce
  let ?c = "bclient b"
  have ok: "clientof v n = Some ?c" "bids b = map ((!) ch) (bindices b)" "\<forall>i \<in> set (bindices b). i < length ch \<and> owner_at r k (ch ! i) = Some n"
    and rest: "batches_ok (\<lambda>n c. clientof v n = Some c) r ch k bs" using Cons.prems(3) by (auto simp: batches_ok_def nb)
  define res where "res = (case refusal v ?c (Epoch r) of Some x \<Rightarrow> Inl x | None \<Rightarrow> Inr (map (holds v ?c) (bids b)))"
  have "\<forall>i \<in> set (bids b). id_ok i" using ok(2,3) ids by auto
  then obtain w1 where w1: "rpc_Contains env ?c \<lparr>QRingEpoch = Epoch r, QBlockIds = bids b\<rparr> w = (res, w1)" "okw w1" "view w1 = v"
    using contains [OF Cons.prems(1), of "bids b" ?c "Epoch r"] Cons.prems(2) by (auto simp: res_def)
  have hit: "H i = (if refusal v ?c (Epoch r) = None \<and> holds v ?c (ch ! i) then Some n else None)" if "i \<in> set (bindices b)" for i
    using ok(1,3) that by (simp add: H hit_at_def)
  have upd: "probe_upd H (set (bindices b)) st (batch_done n b res st)"
  proof (cases "refusal v ?c (Epoch r)")
    case (Some x)
    then show ?thesis using hit by (auto simp: res_def intro!: refused_upd)
  next
    case None
    then have "probe_upd H (set (bindices b)) st (answers_loop n (bindices b) (map (\<lambda>i. holds v ?c (ch ! i)) (bindices b)) st)"
      using hit ok(3) Cons.prems(4,5) by (intro answers_loop_upd) auto
    then show ?thesis using None by (simp add: res_def batch_done_def ok(2) comp_def)
  qed
  then have "length (present (batch_done n b res st)) = length ch" "length (holders (batch_done n b res st)) = length ch"
    using Cons.prems(4,5) by (simp_all add: probe_upd_def)
  from Cons.IH [OF w1(2,3) rest this] obtain st' w' where "run_batches env (Epoch r) bs (batch_done n b res st) w1 = (st', w')"
    "okw w'" "view w' = v" "probe_upd H (\<Union>(n, b) \<in> set bs. set (bindices b)) (batch_done n b res st) st'" by blast
  then show ?case using probe_upd_trans [OF upd] w1(1) by (simp add: nb)
qed (simp add: probe_upd_refl)

text \<open>The state of the probe after \<open>k\<close> rounds.\<close>

definition probed :: "'v \<Rightarrow> ring \<Rightarrow> bytes list \<Rightarrow> nat \<Rightarrow> probe \<Rightarrow> bool" where
  "probed v r ch k st \<longleftrightarrow>
     (let F = \<lambda>j. first_hit (clientof v) (refusal v) (holds v) r k (ch ! j) in
      length (present st) = length ch \<and> length (holders st) = length ch \<and>
      (\<forall>j < length ch. present st ! j = (F j \<noteq> None) \<and> (F j \<noteq> None \<longrightarrow> holders st ! j = the (F j))) \<and>
      (\<forall>j \<in> set (retry st). j < length ch \<and> F j = None) \<and>
      (\<forall>j < length ch. F j = None \<and> j \<notin> set (retry st) \<longrightarrow> owner_at r k (ch ! j) = None))"

lemma probed_step:
  assumes p: "probed v r ch k st" and b: "batch_inv (clientof v) r ch k (set (retry st)) bs un"
    and u: "probe_upd (\<lambda>i. hit_at (clientof v) (refusal v) (holds v) r k (ch ! i)) (\<Union>(n, b) \<in> set bs. set (bindices b)) (st\<lparr>retry := un\<rparr>) st'"
  shows "probed v r ch (Suc k) st'"
proof -
  let ?F = "\<lambda>j. first_hit (clientof v) (refusal v) (holds v) r k (ch ! j)"
  let ?H = "\<lambda>j. hit_at (clientof v) (refusal v) (holds v) r k (ch ! j)"
  let ?J = "\<Union>(n, b) \<in> set bs. set (bindices b)"
  note J = batch_inv_routes(1) [OF b] and routed = batch_inv_routes(2) [OF b]
    and unH = batch_inv_routes(3) [OF b, of _ "refusal v" "holds v"] and inJ = batch_inv_routes(4) [OF b, of _ "refusal v" "holds v"]
  have F: "first_hit (clientof v) (refusal v) (holds v) r (Suc k) (ch ! j) = (case ?F j of Some n \<Rightarrow> Some n | None \<Rightarrow> ?H j)" for j by simp
  have missed: "?H j = None" if "owner_at r k (ch ! j) = None" for j using that by (simp add: hit_at_def)
  have len: "length (present st) = length ch" "length (holders st) = length ch"
    and pr: "\<And>j. j < length ch \<Longrightarrow> present st ! j = (?F j \<noteq> None) \<and> (?F j \<noteq> None \<longrightarrow> holders st ! j = the (?F j))"
    and re: "\<And>j. j \<in> set (retry st) \<Longrightarrow> j < length ch \<and> ?F j = None"
    and no: "\<And>j. j < length ch \<Longrightarrow> ?F j = None \<Longrightarrow> j \<notin> set (retry st) \<Longrightarrow> owner_at r k (ch ! j) = None"
    using p by (auto simp: probed_def Let_def)
  have len': "length (present st') = length ch" "length (holders st') = length ch" using u len by (simp_all add: probe_upd_def)
  have pres: "present st' ! j = (present st ! j \<or> j \<in> ?J \<and> ?H j \<noteq> None)" "holders st' ! j = (if j \<in> ?J \<and> ?H j \<noteq> None then the (?H j) else holders st ! j)"
    if "j < length ch" for j using u that len by (simp_all add: probe_upd_def)
  have ret: "set (retry st') = set un \<union> {j \<in> ?J. ?H j = None}" using u by (simp add: probe_upd_def)
  have new: "j \<in> ?J \<and> ?H j \<noteq> None \<longleftrightarrow> ?F j = None \<and> ?H j \<noteq> None" if j: "j < length ch" for j
  proof
    assume h: "j \<in> ?J \<and> ?H j \<noteq> None"
    then have "j \<in> set (retry st)" using J by (auto dest: subsetD)
    then show "?F j = None \<and> ?H j \<noteq> None" using re h by simp
  next
    assume h: "?F j = None \<and> ?H j \<noteq> None"
    then have "j \<in> set (retry st)" using no [OF j] missed [of j] by fastforce
    then show "j \<in> ?J \<and> ?H j \<noteq> None" using inJ h by simp
  qed
  have "present st' ! j = (first_hit (clientof v) (refusal v) (holds v) r (Suc k) (ch ! j) \<noteq> None) \<and>
      (first_hit (clientof v) (refusal v) (holds v) r (Suc k) (ch ! j) \<noteq> None \<longrightarrow> holders st' ! j = the (first_hit (clientof v) (refusal v) (holds v) r (Suc k) (ch ! j)))"
    if "j < length ch" for j
    unfolding pres [OF that] new [OF that] F using pr [OF that] by (cases "?F j") auto
  moreover have "j < length ch \<and> first_hit (clientof v) (refusal v) (holds v) r (Suc k) (ch ! j) = None" if "j \<in> set (retry st')" for j
  proof -
    have "j \<in> set (retry st)" "?H j = None" using that J unH unfolding ret by blast+
    then show ?thesis using re unfolding F by simp
  qed
  moreover have "owner_at r (Suc k) (ch ! j) = None"
    if j: "j < length ch" "first_hit (clientof v) (refusal v) (holds v) r (Suc k) (ch ! j) = None" "j \<notin> set (retry st')" for j
  proof -
    have "?F j = None" "?H j = None" using j(2) unfolding F by (auto split: option.splits)
    then have "owner_at r k (ch ! j) = None" using no [OF j(1)] routed j(3) unfolding ret by blast
    then show ?thesis by (rule owner_at_mono) simp
  qed
  ultimately show ?thesis using len' unfolding probed_def Let_def by blast
qed

lemma probe_rounds_exact:
  assumes r: "ring_ok r" and ch: "\<forall>i \<in> set ch. id_ok i"
  shows "okw w \<Longrightarrow> view w = v \<Longrightarrow> probed v r ch k st \<Longrightarrow>
    \<exists>st' w'. probe_rounds env r ch k m st w = Some (st', w') \<and> okw w' \<and> view w' = v \<and> length (present st') = length ch \<and>
      (\<forall>j < length ch. present st' ! j = (first_hit (clientof v) (refusal v) (holds v) r (k + m) (ch ! j) \<noteq> None) \<and>
         (present st' ! j \<longrightarrow> holders st' ! j = the (first_hit (clientof v) (refusal v) (holds v) r (k + m) (ch ! j))))"
proof (induction m arbitrary: k st w)
  case 0
  then show ?case by (simp add: probed_def Let_def)
next
  case (Suc m)
  show ?case
  proof (cases "retry st = []")
    case True
    have "first_hit (clientof v) (refusal v) (holds v) r (k + Suc m) (ch ! j) = first_hit (clientof v) (refusal v) (holds v) r k (ch ! j)"
      if "j < length ch" for j
    proof (cases "first_hit (clientof v) (refusal v) (holds v) r k (ch ! j)")
      case None
      then have "owner_at r k (ch ! j) = None" using Suc.prems(3) True that by (simp add: probed_def Let_def)
      then show ?thesis by (rule first_hit_stays)
    next
      case (Some n)
      have "first_hit (clientof v) (refusal v) (holds v) r (k + l) (ch ! j) = Some n" for l by (induction l) (simp_all add: Some)
      then show ?thesis by (metis Some)
    qed
    then show ?thesis using Suc.prems True by (simp add: probed_def Let_def)
  next
    case False
    have rt: "\<forall>i \<in> set (retry st). i < length ch" using Suc.prems(3) by (simp add: probed_def Let_def)
    obtain bs un w1 where b: "build_batches env r ch k (retry st) [] [] w = Some ((bs, un), w1)" "okw w1" "view w1 = v"
      "batch_inv (clientof v) r ch k (set (retry st)) bs un"
      using build_exact [OF r ch Suc.prems(1) rt, of k "{}" "[]" "[]"] Suc.prems(2) by (auto simp: batch_inv_empty)
    have perm: "set (gorder env w1 bs) = set bs" using order by (rule mset_eq_setD)
    have "batches_ok (\<lambda>n c. clientof v n = Some c) r ch k (gorder env w1 bs)" using b(4) perm by (simp add: batch_inv_def batches_ok_def)
    then obtain st1 w2 where s1: "run_batches env (Epoch r) (gorder env w1 bs) (st\<lparr>retry := un\<rparr>) w1 = (st1, w2)" "okw w2" "view w2 = v"
      "probe_upd (\<lambda>i. hit_at (clientof v) (refusal v) (holds v) r k (ch ! i)) (\<Union>(n, b) \<in> set bs. set (bindices b)) (st\<lparr>retry := un\<rparr>) st1"
      using run_batches_exact [OF ch refl b(2,3), where r = r and k = k and bs = "gorder env w1 bs" and st = "st\<lparr>retry := un\<rparr>"] Suc.prems(3) perm
      by (auto simp: probed_def Let_def)
    have "probed v r ch (Suc k) st1" using Suc.prems(3) b(4) s1(4) by (rule probed_step)
    then show ?thesis using Suc.IH [OF s1(2,3), of "Suc k" st1] False b(1) s1(1) by (simp add: probeReplica_def)
  qed
qed

lemma matchOnRing_exact:
  assumes "okw w" and "view w = v" and "ring_ok r" and ch: "\<forall>i \<in> set (QChain req). id_ok i"
  shows "\<exists>we w'. matchOnRing env rf r req w = Some ((match_spec (clientof v) (refusal v) (holds v) r rf (QChain req), we), w') \<and>
    okw w' \<and> view w' = v"
proof -
  let ?ch = "QChain req" and ?n = "length (QChain req)"
  let ?hit = "first_hit (clientof v) (refusal v) (holds v) r (nat rf)"
  let ?st0 = "\<lparr>present = replicate ?n False, holders = replicate ?n '''', retry = [0..<?n], wrongEpoch = False\<rparr>"
  have "probed v r ?ch 0 ?st0" by (simp add: probed_def)
  then obtain st w1 where st: "probe_rounds env r ?ch 0 (nat rf) ?st0 w = Some (st, w1)" "okw w1" "view w1 = v" "length (present st) = ?n"
    "\<forall>j < ?n. present st ! j = (?hit (?ch ! j) \<noteq> None) \<and> (present st ! j \<longrightarrow> holders st ! j = the (?hit (?ch ! j)))"
    using probe_rounds_exact [OF assms(3) ch assms(1,2), of 0 ?st0 "nat rf"] by auto
  have pres: "present st = map (\<lambda>i. ?hit i \<noteq> None) ?ch" using st(4,5) by (auto intro!: nth_equalityI)
  let ?addr = "\<lambda>n. case map_of (Nodes r) n of None \<Rightarrow> '''' | Some a \<Rightarrow> a"
  have "map (\<lambda>i. \<lparr>RefBlockId = ?ch ! i, RefNodeAddr = ?addr (holders st ! i)\<rparr>) [0..<length (takeWhile (\<lambda>i. ?hit i \<noteq> None) ?ch)] =
      map (\<lambda>i. \<lparr>RefBlockId = i, RefNodeAddr = ?addr (the (?hit i))\<rparr>) (takeWhile (\<lambda>i. ?hit i \<noteq> None) ?ch)"
    using st(5) by (intro nth_takeWhile_map) simp
  then have "matchOnRing env rf r req w = Some ((match_spec (clientof v) (refusal v) (holds v) r rf ?ch, wrongEpoch st), w1)"
    using st(1) by (simp add: matchOnRing_def match_spec_def Let_def pres depth_loop_takeWhile)
  then show ?thesis using st(2,3) by blast
qed

lemma Match_exact:
  assumes "okw w" and "view w = v" and "ringof v = Some r" and "Size r \<noteq> 0" and "QChain req \<noteq> []"
    and ch: "\<forall>i \<in> set (QChain req). id_ok i"
  shows "\<exists>w'. Match env rf req w = Some (Inr (match_spec (clientof v) (refusal v) (holds v) r rf (QChain req)), w') \<and>
    okw w' \<and> view w' = v"
proof -
  let ?resp = "match_spec (clientof v) (refusal v) (holds v) r rf (QChain req)"
  obtain w1 where w1: "src_Ring env w = (Some r, w1)" "okw w1" "view w1 = v" using ring [OF assms(1)] assms(2,3) by auto
  have r: "ring_ok r" using rings [OF assms(1)] assms(2,3) by simp
  obtain we w2 where m: "matchOnRing env rf r req w1 = Some ((?resp, we), w2)" "okw w2" "view w2 = v"
    using matchOnRing_exact [OF w1(2,3) r ch] by blast
  obtain w3 where w3: "src_Ring env w2 = (Some r, w3)" "okw w3" "view w3 = v" using ring [OF m(2)] m(3) assms(3) by auto
  define w4 where "w4 = (if we then w3 else w2)"
  have w4: "okw w4" "view w4 = v" using m w3 by (simp_all add: w4_def)
  obtain w' where w': "emitAccess env req ?resp w4 = Some w'" "w' = w4 \<or> (\<exists>produce raw. Produce env = Some produce \<and> w' = produce (QChain req ! 0) raw w4)"
    using emitAccess_spec [of env req "clientof v" "refusal v" "holds v" r rf w4] by (elim exE conjE)
  have "okw w' \<and> view w' = v" using w'(2) events w4 by auto
  moreover have "Match_loop env rf req 0 w = Some (?resp, w')"
    using w1(1) m(1) w3(1) w'(1) assms(4,5) by (cases we) (simp_all add: Match_loop.simps [of env rf req 0 w] w4_def)
  moreover have "\<not> (\<exists>i \<in> set (QChain req). length i \<noteq> HashSize)" using ch by (simp add: id_ok_def)
  ultimately show ?thesis by (simp add: Match_def)
qed

end

lemma first_hit_None: "first_hit cl refuse has r k i = None \<longleftrightarrow> (\<forall>j < k. hit_at cl refuse has r j i = None)"
  by (induction k) (auto simp: less_Suc_eq split: option.splits)

subsection \<open>Routing of writes\<close>

lemma put_owners_spec:
  "distinct os \<Longrightarrow> distinct (map fst m) \<Longrightarrow>
   distinct (map fst (put_owners b os m)) \<and>
   map_of (put_owners b os m) n =
     (if n \<in> set os then Some ((case map_of m n of None \<Rightarrow> [] | Some bs \<Rightarrow> bs) @ [b]) else map_of m n)"
  by (induction b os m rule: put_owners.induct) (auto simp: alist_simps)

text \<open>The blocks a node is to be sent.\<close>

definition blocks_for :: "ring \<Rightarrow> int \<Rightarrow> Block list \<Rightarrow> string \<Rightarrow> Block list" where
  "blocks_for r rf blocks n = filter (\<lambda>b. n \<in> set (take (nat rf) (ring_order r (BlockId b)))) blocks"

lemma recv_loop_spec:
  assumes src: "src_Ring env w = (Some r, w)" and r: "ring_ok r" "Size r \<noteq> 0"
  shows "\<forall>b \<in> set blocks. id_ok (BlockId b) \<Longrightarrow> distinct (map fst m) \<Longrightarrow>
    \<exists>m'. recv_loop env rf True (map Some blocks) m w = Some (Inr m', w) \<and> distinct (map fst m') \<and>
      (\<forall>n. map_of m' n = (case map_of m n of
         None \<Rightarrow> if blocks_for r rf blocks n = [] then None else Some (blocks_for r rf blocks n)
       | Some bs \<Rightarrow> Some (bs @ blocks_for r rf blocks n)))"
proof (induction blocks arbitrary: m)
  case Nil
  then show ?case by (auto simp: blocks_for_def split: option.split)
next
  case (Cons b blocks)
  let ?os = "take (nat rf) (ring_order r (BlockId b))"
  have b: "id_ok (BlockId b)" "length (BlockId b) = HashSize" using Cons.prems(1) by (simp_all add: id_ok_def)
  have os: "Owners r (BlockId b) rf = Some ?os" by (rule Owners_ok [OF r(1) b(1)])
  have "distinct ?os" by (simp add: ring_order_def)
  note put = put_owners_spec [OF this Cons.prems(2), of b]
  obtain m' where m': "recv_loop env rf True (map Some blocks) (put_owners b ?os m) w = Some (Inr m', w)" "distinct (map fst m')"
    "\<And>n. map_of m' n = (case map_of (put_owners b ?os m) n of
         None \<Rightarrow> if blocks_for r rf blocks n = [] then None else Some (blocks_for r rf blocks n)
       | Some bs \<Rightarrow> Some (bs @ blocks_for r rf blocks n))"
    using Cons.IH [of "put_owners b ?os m"] put Cons.prems(1) by auto
  have "recv_loop env rf True (map Some (b # blocks)) m w = Some (Inr m', w)" using m'(1) src os r(2) b(2) by simp
  moreover have "map_of m' n = (case map_of m n of
         None \<Rightarrow> if blocks_for r rf (b # blocks) n = [] then None else Some (blocks_for r rf (b # blocks) n)
       | Some bs \<Rightarrow> Some (bs @ blocks_for r rf (b # blocks) n))" for n
    using put m'(3) [of n] by (cases "map_of m n"; cases "n \<in> set ?os") (auto simp: blocks_for_def)
  ultimately show ?case using m'(2) by blast
qed

lemma recv_loop_bad:
  assumes src: "src_Ring env w = (Some r, w)" and r: "ring_ok r" "Size r \<noteq> 0"
  shows "\<exists>b \<in> set reqs. b = None \<or> \<not> id_ok (BlockId (the b)) \<Longrightarrow> recv_loop env rf eof reqs m w = Some (Inl (Status InvalidArgument), w)"
proof (induction reqs arbitrary: m)
  case (Cons q reqs)
  show ?case
  proof (cases "q = None \<or> \<not> id_ok (BlockId (the q))")
    case True
    then show ?thesis by (auto simp: id_ok_def split: option.split)
  next
    case False
    then obtain b where q: "q = Some b" "id_ok (BlockId b)" "length (BlockId b) = HashSize" by (auto simp: id_ok_def)
    then show ?thesis using Cons.IH Cons.prems False src r(2) Owners_ok [OF r(1) q(2)] by simp
  qed
qed simp



end
