(* ===== verification/Mesh.thy ===== *)
theory Mesh
  imports Gateway PagedStore
begin

text \<open>
  A gateway in front of cache nodes: the ring source is a ring watcher, whose clients are the addresses it
  dialled, and each address is a cache-node server (\<open>Cachenode\<close>) over a block store with the epoch that
  the node has seen. A node that is down, or whose store panicked, is \<open>None\<close> and its calls fail. The
  mesh is an instance of the environment of \<open>Gateway\<close> and keeps the laws of \<open>node_service\<close>, so the
  gateway's contract holds end to end, for every store that keeps the store contract.
\<close>

record 's mesh =
  mwatcher :: "string Watcher"
  servers :: "string \<Rightarrow> (u64 option \<times> 's) option"
  published :: "(bytes \<times> bytes) list"

definition mesh_Contains :: "'s store_ops \<Rightarrow> string \<Rightarrow> IdsRequest \<Rightarrow> 's mesh \<Rightarrow> (code + bool list) \<times> 's mesh" where
  "mesh_Contains ops addr req m =
     (case servers m addr of
        None \<Rightarrow> (Inl Unavailable, m)
      | Some (mine, s) \<Rightarrow>
          (case cn_Contains ops mine req s of
             None \<Rightarrow> (Inl Unavailable, m\<lparr>servers := (servers m)(addr := None)\<rparr>)
           | Some (res, s') \<Rightarrow> (res, m\<lparr>servers := (servers m)(addr := Some (mine, s'))\<rparr>)))"

definition mesh_PutBlocks :: "'s store_ops \<Rightarrow> string \<Rightarrow> CachePutRequest list \<Rightarrow> 's mesh \<Rightarrow> (cn_err + CachePutResponse) \<times> 's mesh" where
  "mesh_PutBlocks ops addr reqs m =
     (case servers m addr of
        None \<Rightarrow> (Inl (Status Unavailable), m)
      | Some (mine, s) \<Rightarrow>
          (case cn_PutBlocks ops True (map (Pair mine) reqs) s of
             None \<Rightarrow> (Inl StreamErr, m\<lparr>servers := (servers m)(addr := None)\<rparr>)
           | Some (res, s') \<Rightarrow> (res, m\<lparr>servers := (servers m)(addr := Some (mine, s'))\<rparr>)))"

text \<open>\<open>gord\<close> and \<open>pord\<close> order the goroutines of the fan-outs; \<open>now\<close> and \<open>marsh\<close> are the clock and the codec.\<close>

definition mesh_env ::
    "'s store_ops \<Rightarrow> ('s mesh \<Rightarrow> (string \<times> string batch) list \<Rightarrow> (string \<times> string batch) list) \<Rightarrow>
     ('s mesh \<Rightarrow> (string \<times> Block list) list \<Rightarrow> (string \<times> Block list) list) \<Rightarrow>
     ('s mesh \<Rightarrow> int) \<Rightarrow> (AccessEvent \<Rightarrow> bytes option) \<Rightarrow> (string, 's mesh) gw_env" where
  "mesh_env ops gord pord now marsh =
     \<lparr>src_Ring = \<lambda>m. (w_Ring (mwatcher m), m), src_Client = \<lambda>n m. (w_Client (mwatcher m) n, m),
      rpc_Contains = mesh_Contains ops, rpc_PutBlocks = mesh_PutBlocks ops, gorder = gord, porder = pord,
      clockMs = now, marshalAccess = marsh, Produce = Some (\<lambda>k v m. m\<lparr>published := published m @ [(k, v)]\<rparr>)\<rparr>"

subsection \<open>The mesh keeps the laws of a node service\<close>

text \<open>The part of a mesh that a reader depends on: ring, clients, and per address the epoch and contents.\<close>

type_synonym mesh_view = "ring option \<times> (string \<Rightarrow> string option) \<times> (string \<Rightarrow> (u64 option \<times> (block_id \<rightharpoonup> blk)) option)"

definition view_of :: "('s \<Rightarrow> block_id \<rightharpoonup> blk) \<Rightarrow> 's mesh \<Rightarrow> mesh_view" where
  "view_of contents m = (w_Ring (mwatcher m), w_Client (mwatcher m), \<lambda>a. map_option (map_prod id contents) (servers m a))"

definition view_refuses :: "mesh_view \<Rightarrow> string \<Rightarrow> u64 \<Rightarrow> code option" where
  "view_refuses v a e = (case snd (snd v) a of None \<Rightarrow> Some Unavailable | Some (mine, _) \<Rightarrow> checkEpoch mine e)"

definition view_holds :: "mesh_view \<Rightarrow> string \<Rightarrow> bytes \<Rightarrow> bool" where
  "view_holds v a i = (case snd (snd v) a of None \<Rightarrow> False | Some (_, ct) \<Rightarrow> ct i \<noteq> None)"

definition mesh_ok :: "('s \<Rightarrow> bool) \<Rightarrow> 's mesh \<Rightarrow> bool" where
  "mesh_ok okst m \<longleftrightarrow> (\<forall>a mine s. servers m a = Some (mine, s) \<longrightarrow> okst s) \<and> (\<forall>r. w_Ring (mwatcher m) = Some r \<longrightarrow> ring_ok r)"

lemma mesh_Contains_ok:
  assumes sc: "store_contract ops contents okst" and ok: "mesh_ok okst m" and raws: "\<forall>i \<in> set raws. id_ok i"
  shows "\<exists>m'. mesh_Contains ops a \<lparr>QRingEpoch = e, QBlockIds = raws\<rparr> m =
      (case view_refuses (view_of contents m) a e of Some x \<Rightarrow> Inl x | None \<Rightarrow> Inr (map (view_holds (view_of contents m) a) raws), m') \<and>
    mesh_ok okst m' \<and> view_of contents m' = view_of contents m"
proof (cases "servers m a")
  case None
  then show ?thesis using ok by (auto simp: mesh_Contains_def view_refuses_def view_of_def)
next
  case (Some ms)
  obtain mine s where ms: "ms = (mine, s)" by fastforce
  have s: "okst s" using ok Some ms by (auto simp: mesh_ok_def)
  show ?thesis
  proof (cases "checkEpoch mine e")
    case (Some c)
    then show ?thesis using \<open>servers m a = Some ms\<close> ok ms by (auto simp: mesh_Contains_def cn_Contains_def view_refuses_def view_of_def fun_upd_idem)
  next
    case None
    obtain s' where s': "contains_loop ops raws s = Some (Inr (map (\<lambda>i. contents s i \<noteq> None) raws), s')" "okst s'" "contents s' = contents s"
      using store_contract.contains_loop_ok [OF sc s raws] by blast
    let ?m = "m\<lparr>servers := (servers m)(a := Some (mine, s'))\<rparr>"
    have "mesh_ok okst ?m" using ok s'(2) by (auto simp: mesh_ok_def)
    moreover have "view_of contents ?m = view_of contents m" using Some ms s'(3) by (auto simp: view_of_def)
    moreover have "mesh_Contains ops a \<lparr>QRingEpoch = e, QBlockIds = raws\<rparr> m = (Inr (map (view_holds (view_of contents m) a) raws), ?m)"
      using Some ms None s'(1) by (simp add: mesh_Contains_def cn_Contains_def view_holds_def view_of_def)
    moreover have "view_refuses (view_of contents m) a e = None" using Some ms None by (simp add: view_refuses_def view_of_def)
    ultimately show ?thesis by auto
  qed
qed

lemma mesh_node_service:
  assumes sc: "store_contract ops contents okst" and gord: "\<forall>m bs. mset (gord m bs) = mset bs"
  shows "node_service (mesh_env ops gord pord now marsh) (mesh_ok okst) (view_of contents) fst (fst \<circ> snd) view_refuses view_holds"
proof
  fix w :: "'a mesh" and raws c e assume "mesh_ok okst w" "\<forall>i \<in> set raws. id_ok i"
  from mesh_Contains_ok [OF sc this] show "\<exists>w'. rpc_Contains (mesh_env ops gord pord now marsh) c \<lparr>QRingEpoch = e, QBlockIds = raws\<rparr> w =
      (case view_refuses (view_of contents w) c e of None \<Rightarrow> Inr (map (view_holds (view_of contents w) c) raws) | Some x \<Rightarrow> Inl x, w') \<and>
      mesh_ok okst w' \<and> view_of contents w' = view_of contents w" by (simp add: mesh_env_def)
qed (use gord in \<open>auto simp: mesh_env_def view_of_def mesh_ok_def\<close>)

interpretation lru_mesh: node_service "mesh_env lru_ops (\<lambda>_ bs. bs) (\<lambda>_ bs. bs) (\<lambda>_. 0) (\<lambda>_. None)" "mesh_ok lru_wf" "view_of lru_contents"
    fst "fst \<circ> snd" view_refuses view_holds
  by (rule mesh_node_service [OF lru.store_contract_axioms]) simp

lemma mesh_Match:
  assumes "store_contract ops contents okst" and "\<forall>m bs. mset (gord m bs) = mset bs" and "mesh_ok okst m"
    and "w_Ring (mwatcher m) = Some r" and "Size r \<noteq> 0" and "QChain req \<noteq> []" and "\<forall>i \<in> set (QChain req). id_ok i"
  shows "\<exists>m'. Match (mesh_env ops gord pord now marsh) rf req m =
      Some (Inr (match_spec (w_Client (mwatcher m)) (view_refuses (view_of contents m)) (view_holds (view_of contents m)) r rf (QChain req)), m') \<and>
    mesh_ok okst m' \<and> view_of contents m' = view_of contents m"
  using node_service.Match_exact [OF mesh_node_service [OF assms(1,2)] assms(3) refl _ assms(5-7)] assms(4)
  by (simp add: view_of_def)

text \<open>
  C2: \<open>Match\<close> returns the longest cached prefix. In a mesh whose watcher holds a ring and whose contents
  no one else changes during the call, for every chain of well-formed raws and in whatever order the
  fan-outs complete, the response is exactly the longest prefix of the chain such that every block of it
  is held by one of its first \<open>rf\<close> owners that is connected, up and not ahead of the ring, with the
  address of the first such owner; the call changes recency only.
\<close>

theorem Match_longest_prefix:
  assumes "store_contract ops contents okst" and "\<forall>m bs. mset (gord m bs) = mset bs" and "mesh_ok okst m"
    and "w_Ring (mwatcher m) = Some r" and "Size r \<noteq> 0" and "QChain req \<noteq> []" and "\<forall>i \<in> set (QChain req). id_ok i"
  shows "\<exists>m'. Match (mesh_env ops gord pord now marsh) rf req m =
      Some (Inr (match_spec (w_Client (mwatcher m)) (view_refuses (view_of contents m)) (view_holds (view_of contents m)) r rf (QChain req)), m') \<and>
    mesh_ok okst m' \<and> view_of contents m' = view_of contents m"
  by (rule mesh_Match [OF assms])

lemma first_hit_Some:
  assumes "first_hit cl refuse has r k i = Some n"
  shows "\<exists>c. cl n = Some c \<and> refuse c (Epoch r) = None \<and> has c i"
proof -
  have "\<exists>j. hit_at cl refuse has r j i = Some n" using assms by (induction k) (auto split: option.splits)
  then obtain j where "hit_at cl refuse has r j i = Some n" by blast
  then show ?thesis unfolding hit_at_def by (auto split: option.splits if_splits)
qed

text \<open>A client of the mesh fetching blocks directly from a node.\<close>

definition mesh_GetBlocks :: "'s store_ops \<Rightarrow> string \<Rightarrow> IdsRequest \<Rightarrow> 's mesh \<Rightarrow> (Block list \<times> cn_err option) \<times> 's mesh" where
  "mesh_GetBlocks ops addr req m =
     (case servers m addr of
        None \<Rightarrow> (([], Some (Status Unavailable)), m)
      | Some (mine, s) \<Rightarrow>
          (case cn_GetBlocks ops mine None req s of
             None \<Rightarrow> (([], Some StreamErr), m\<lparr>servers := (servers m)(addr := None)\<rparr>)
           | Some (res, s') \<Rightarrow> (res, m\<lparr>servers := (servers m)(addr := Some (mine, s'))\<rparr>)))"

lemma mesh_GetBlocks_held:
  assumes sc: "store_contract ops contents okst" and ok: "mesh_ok okst m" and i: "id_ok i"
    and up: "view_refuses (view_of contents m) a e = None" and held: "view_holds (view_of contents m) a i"
  shows "\<exists>mine s b m'. servers m a = Some (mine, s) \<and> contents s i = Some b \<and>
    mesh_GetBlocks ops a \<lparr>QRingEpoch = e, QBlockIds = [i]\<rparr> m = (([toProto b], None), m')"
proof -
  obtain mine s b where s: "servers m a = Some (mine, s)" "contents s i = Some b" "checkEpoch mine e = None"
    using up held by (cases "servers m a") (auto simp: view_refuses_def view_holds_def view_of_def)
  have "okst s" using ok s(1) by (auto simp: mesh_ok_def)
  then obtain s' where "get_loop ops None [i] s = Some ((map toProto (List.map_filter (contents s) [i]), None), s')"
    using store_contract.get_loop_ok [OF sc, of s "[i]"] i by auto
  then show ?thesis using s by (simp add: mesh_GetBlocks_def cn_GetBlocks_def map_filter_simps)
qed

text \<open>The refs of the specification point at nodes that serve the block, when clients are dialled at the ring's addresses.\<close>

lemma match_spec_refs:
  assumes "\<forall>n a. cl n = Some a \<longrightarrow> map_of (Nodes r) n = Some a" and "ref \<in> set (Refs (match_spec cl refuse has r rf ch))"
  shows "RefBlockId ref \<in> set ch \<and> refuse (RefNodeAddr ref) (Epoch r) = None \<and> has (RefNodeAddr ref) (RefBlockId ref)"
proof -
  let ?hit = "first_hit cl refuse has r (nat rf)"
  obtain i where i: "i \<in> set (takeWhile (\<lambda>i. ?hit i \<noteq> None) ch)" "RefBlockId ref = i"
    "RefNodeAddr ref = (case map_of (Nodes r) (the (?hit i)) of None \<Rightarrow> '''' | Some a \<Rightarrow> a)"
    using assms(2) by (auto simp: match_spec_def Let_def)
  then obtain n where n: "?hit i = Some n" "i \<in> set ch" by (auto dest: set_takeWhileD)
  from first_hit_Some [OF n(1)] obtain c where c: "cl n = Some c" "refuse c (Epoch r) = None" "has c i" by blast
  then have "RefNodeAddr ref = c" using i(3) n(1) assms(1) by simp
  then show ?thesis using c i(2) n(2) by simp
qed

subsection \<open>Writing and matching\<close>

text \<open>The node at \<open>a\<close> accepts the epoch and holds the block.\<close>

definition serves :: "('s \<Rightarrow> block_id \<rightharpoonup> blk) \<Rightarrow> 's mesh \<Rightarrow> u64 \<Rightarrow> bytes \<Rightarrow> string \<Rightarrow> bool" where
  "serves contents m e i a \<longleftrightarrow> view_refuses (view_of contents m) a e = None \<and> view_holds (view_of contents m) a i"

lemma mesh_put_one:
  assumes sc: "store_contract ops contents okst" and ok: "mesh_ok okst m" and b: "fromProto (Some p) = Inr b" "blk_ok b" "bID b = BlockId p"
  shows "\<exists>res m'. mesh_PutBlocks ops a [\<lparr>PRingEpoch = e, PBlock = Some p\<rparr>] m = (res, m') \<and> mesh_ok okst m' \<and> mwatcher m' = mwatcher m \<and>
    (\<forall>x. serves contents m e (BlockId p) x \<longrightarrow> serves contents m' e (BlockId p) x) \<and>
    (\<forall>resp. res = Inr resp \<longrightarrow> RStored resp = 0 \<or> serves contents m' e (BlockId p) a)"
proof (cases "servers m a")
  case None
  then show ?thesis using ok by (simp add: mesh_PutBlocks_def)
next
  case (Some ms)
  obtain mine s where ms: "ms = (mine, s)" by fastforce
  have s: "okst s" using ok Some ms by (auto simp: mesh_ok_def)
  show ?thesis
  proof (cases "checkEpoch mine e")
    case (Some c)
    then show ?thesis using \<open>servers m a = Some ms\<close> ok ms by (simp add: mesh_PutBlocks_def cn_PutBlocks_def fun_upd_idem)
  next
    case None
    obtain new s' where s': "st_Put ops b s = Some (new, s')" "okst s'"
      "if new then contents s (bID b) = None \<and> contents s' (bID b) = Some b \<and> contents s' \<subseteq>\<^sub>m (contents s)(bID b \<mapsto> b) else contents s' = contents s"
      using store_contract.put [OF sc s b(2)] by blast
    let ?m = "m\<lparr>servers := (servers m)(a := Some (mine, s'))\<rparr>"
    have put: "mesh_PutBlocks ops a [\<lparr>PRingEpoch = e, PBlock = Some p\<rparr>] m =
        (Inr \<lparr>RStored = (if new then 1 else 0), RExisting = (if new then 0 else 1)\<rparr>, ?m)"
      using Some ms None b(1) s'(1) by (simp add: mesh_PutBlocks_def cn_PutBlocks_def)
    have "mesh_ok okst ?m" using ok s'(2) by (auto simp: mesh_ok_def)
    moreover have "serves contents ?m e (BlockId p) x" if "serves contents m e (BlockId p) x" for x
      using that Some ms None s'(3) b(3) by (auto simp: serves_def view_refuses_def view_holds_def view_of_def split: if_splits)
    moreover have "serves contents ?m e (BlockId p) a" if new
      using that Some ms None s'(3) b(3) by (auto simp: serves_def view_refuses_def view_holds_def view_of_def)
    ultimately show ?thesis using put by (cases new) auto
  qed
qed

lemma put_fanout_one:
  assumes sc: "store_contract ops contents okst" and b: "fromProto (Some p) = Inr b" "blk_ok b" "bID b = BlockId p"
    and env_def: "env = mesh_env ops gord pord now marsh"
  shows "mesh_ok okst m \<Longrightarrow> \<forall>(n, bs) \<in> set os. bs = [p] \<Longrightarrow>
    \<exists>resp m'. put_fanout env e os st ex m = (resp, m') \<and> mesh_ok okst m' \<and> mwatcher m' = mwatcher m \<and>
      (\<forall>x. serves contents m e (BlockId p) x \<longrightarrow> serves contents m' e (BlockId p) x) \<and>
      (PStored resp = st \<or> (\<exists>n \<in> fst ` set os. \<exists>a. w_Client (mwatcher m) n = Some a \<and> serves contents m' e (BlockId p) a))"
proof (induction os arbitrary: st ex m)
  case (Cons nb os)
  obtain n where nb: "nb = (n, [p])" using Cons.prems(2) by (cases nb) auto
  have os: "\<forall>(n, bs) \<in> set os. bs = [p]" using Cons.prems(2) by simp
  have src: "src_Client env n m = (w_Client (mwatcher m) n, m)" by (simp add: env_def mesh_env_def)
  show ?case
  proof (cases "w_Client (mwatcher m) n")
    case None
    then show ?thesis using Cons.IH [OF Cons.prems(1) os, of st ex] src nb by auto
  next
    case (Some a)
    obtain res m1 where m1: "mesh_PutBlocks ops a [\<lparr>PRingEpoch = e, PBlock = Some p\<rparr>] m = (res, m1)" "mesh_ok okst m1" "mwatcher m1 = mwatcher m"
      "\<forall>x. serves contents m e (BlockId p) x \<longrightarrow> serves contents m1 e (BlockId p) x"
      "\<forall>resp. res = Inr resp \<longrightarrow> RStored resp = 0 \<or> serves contents m1 e (BlockId p) a"
      using mesh_put_one [OF sc Cons.prems(1) b] by blast
    define st' ex' where "st' = (case res of Inl _ \<Rightarrow> st | Inr r \<Rightarrow> st + RStored r)" and "ex' = (case res of Inl _ \<Rightarrow> ex | Inr r \<Rightarrow> ex + RExisting r)"
    have "put_fanout env e (nb # os) st ex m = put_fanout env e os st' ex' m1"
      using src Some m1(1) nb by (cases res) (simp_all add: st'_def ex'_def env_def mesh_env_def)
    moreover have "st' = st \<or> serves contents m1 e (BlockId p) a" using m1(5) by (cases res) (auto simp: st'_def)
    ultimately show ?thesis using Cons.IH [OF m1(2) os, of st' ex'] m1(3,4) Some nb by fastforce
  qed
qed simp


lemma owner_hit:
  assumes "n \<in> set (take (nat rf) (ring_order r i))" and "cl n = Some a" and "refuse a (Epoch r) = None" and "has a i"
  shows "first_hit cl refuse has r (nat rf) i \<noteq> None"
proof -
  obtain k where "k < nat rf" "owner_at r k i = Some n" using assms(1) by (auto simp: in_set_conv_nth owner_at_def)
  then show ?thesis using assms(2-4) by (auto simp: first_hit_None hit_at_def)
qed

lemma put_one_serves:
  assumes sc: "store_contract ops contents okst" and ord: "\<forall>m bs. mset (pord m bs) = mset bs" and ok: "mesh_ok okst m"
    and r: "w_Ring (mwatcher m) = Some r" "Size r \<noteq> 0" and p: "id_ok (BlockId p)" "id_ok (ParentId p)" "length (Payload p) < 2 ^ 63"
    and put: "gw_PutBlocks (mesh_env ops gord pord now marsh) rf True [Some p] m = Some (Inr resp, m1)" "PStored resp \<noteq> 0"
  shows "mesh_ok okst m1 \<and> mwatcher m1 = mwatcher m \<and>
    (\<exists>n \<in> set (take (nat rf) (ring_order r (BlockId p))). \<exists>a. w_Client (mwatcher m) n = Some a \<and> serves contents m1 (Epoch r) (BlockId p) a)"
proof -
  let ?env = "mesh_env ops gord pord now marsh"
  obtain b where b: "fromProto (Some p) = Inr b" "bID b = BlockId p" "bPayload b = Payload p" using fromProto_toProto [OF p(1,2)] by blast
  then have bo: "blk_ok b" using p(3) by (simp add: blk_ok_def)
  have src: "src_Ring ?env m = (Some r, m)" using r(1) by (simp add: mesh_env_def)
  have ro: "ring_ok r" using ok r(1) by (simp add: mesh_ok_def)
  obtain os where os: "recv_loop ?env rf True (map Some [p]) [] m = Some (Inr os, m)" "distinct (map fst os)"
    "\<And>n. map_of os n = (if blocks_for r rf [p] n = [] then None else Some (blocks_for r rf [p] n))"
    using recv_loop_spec [OF src ro r(2), of "[p]" "[]" rf] p(1) by auto
  have ent: "bs = [p] \<and> n \<in> set (take (nat rf) (ring_order r (BlockId p)))" if "(n, bs) \<in> set os" for n bs
    using os(3) [of n] map_of_is_SomeI [OF os(2) that] by (auto simp: blocks_for_def split: if_splits)
  have perm: "set (pord m os) = set os" using ord by (metis mset_eq_setD)
  then have "\<forall>(n, bs) \<in> set (pord m os). bs = [p]" using ent by auto
  then obtain resp' m' where f: "put_fanout ?env (Epoch r) (pord m os) 0 0 m = (resp', m')" "mesh_ok okst m'" "mwatcher m' = mwatcher m"
    "PStored resp' = 0 \<or> (\<exists>n \<in> fst ` set (pord m os). \<exists>a. w_Client (mwatcher m) n = Some a \<and> serves contents m' (Epoch r) (BlockId p) a)"
    using put_fanout_one [OF sc b(1) bo b(2) refl ok, of "pord m os" gord pord now marsh "Epoch r" 0 0] by blast
  have "resp' = resp \<and> m' = m1" using put(1) os(1) src f(1) by (simp add: gw_PutBlocks_def mesh_env_def)
  then show ?thesis using f(2-4) put(2) ent unfolding perm by fastforce
qed

text \<open>
  C6: a write is visible to the next match. In a mesh with a ring, when the gateway's \<open>PutBlocks\<close> of a
  well-formed block reports it stored, a \<open>Match\<close> of its id right after it hits: the block is found at one
  of its owners, whichever of them stored it and in whatever order the fan-outs completed.
\<close>

theorem stored_block_is_matched:
  assumes "store_contract ops contents okst" and "\<forall>m bs. mset (gord m bs) = mset bs" and "\<forall>m bs. mset (pord m bs) = mset bs"
    and "mesh_ok okst m" and "w_Ring (mwatcher m) = Some r" and "Size r \<noteq> 0"
    and "id_ok (BlockId p)" and "id_ok (ParentId p)" and "length (Payload p) < 2 ^ 63"
    and "gw_PutBlocks (mesh_env ops gord pord now marsh) rf True [Some p] m = Some (Inr resp, m1)" and "PStored resp \<noteq> 0"
  shows "\<exists>mr m2. Match (mesh_env ops gord pord now marsh) rf \<lparr>QModelId = model, QChain = [BlockId p]\<rparr> m1 = Some (Inr mr, m2) \<and>
    MatchedDepth mr = 1 \<and> map RefBlockId (Refs mr) = [BlockId p]"
proof -
  obtain n a where m1: "mesh_ok okst m1" "mwatcher m1 = mwatcher m" and n: "n \<in> set (take (nat rf) (ring_order r (BlockId p)))"
    "w_Client (mwatcher m1) n = Some a" "serves contents m1 (Epoch r) (BlockId p) a"
    using put_one_serves [OF assms(1,3-11)] by auto
  let ?v = "view_of contents m1"
  let ?resp = "match_spec (w_Client (mwatcher m1)) (view_refuses ?v) (view_holds ?v) r rf [BlockId p]"
  have "\<exists>m2. Match (mesh_env ops gord pord now marsh) rf \<lparr>QModelId = model, QChain = [BlockId p]\<rparr> m1 = Some (Inr ?resp, m2)"
    using mesh_Match [OF assms(1,2) m1(1) _ assms(6), where req = "\<lparr>QModelId = model, QChain = [BlockId p]\<rparr>"] assms(5,7) m1(2)
    by fastforce
  then obtain m2 where m2: "Match (mesh_env ops gord pord now marsh) rf \<lparr>QModelId = model, QChain = [BlockId p]\<rparr> m1 = Some (Inr ?resp, m2)" ..
  have "first_hit (w_Client (mwatcher m1)) (view_refuses ?v) (view_holds ?v) r (nat rf) (BlockId p) \<noteq> None"
    using n(3) by (intro owner_hit [where cl = "w_Client (mwatcher m1)", OF n(1,2)]) (simp_all add: serves_def)
  then have "MatchedDepth ?resp = 1 \<and> map RefBlockId (Refs ?resp) = [BlockId p]" by (auto simp: match_spec_def Let_def)
  then show ?thesis by (intro exI [of _ ?resp] exI [of _ m2] conjI m2) simp_all
qed

definition demo_mesh :: "LRU mesh" where
  "demo_mesh = \<lparr>mwatcher = w_install Some \<lparr>REpoch = 4, RNodes = [\<lparr>NodeId = ''n1'', Addr = ''h:1'', CapacityBytes = 200\<rparr>], VnodesPerNode = 1\<rparr>
       (NewWatcher [] True), servers = (\<lambda>a. if a = ''h:1'' then Some (Some 3, NewLRU 200) else None), published = []\<rparr>"

lemma demo_mesh_ring: "w_Ring (mwatcher demo_mesh) = Some (NewRing 4 [(''n1'', ''h:1'')] 1)"
  and demo_mesh_client: "w_Client (mwatcher demo_mesh) n = (if n = ''n1'' then Some ''h:1'' else None)"
  and demo_mesh_servers: "servers demo_mesh a = (if a = ''h:1'' then Some (Some 3, NewLRU 200) else None)"
  by (simp_all add: demo_mesh_def w_Ring_def w_Client_def w_install_def Let_def NewWatcher_def nodes_map_def ring_of_def)

lemma demo_mesh_ok: "mesh_ok lru_wf demo_mesh"
  by (auto simp: mesh_ok_def demo_mesh_ring demo_mesh_servers lru_wf_New NewRing_ok split: if_splits)

lemma demo_ring_size: "Size (NewRing 4 [(''n1'', ''h:1'')] 1) \<noteq> 0" "Nodes (NewRing 4 [(''n1'', ''h:1'')] 1) = [(''n1'', ''h:1'')]"
  by (simp_all add: Size_def Nodes_def NewRing_def)

lemma demo_ring_order: "ring_order (NewRing 4 [(''n1'', ''h:1'')] 1) i = [''n1'']"
proof -
  let ?r = "NewRing 4 [(''n1'', ''h:1'')] 1"
  have "ring_ok ?r" by (rule NewRing_ok) simp
  then have "set (ring_order ?r i) = {''n1''}" using ring_order_members [of ?r i] by (simp add: demo_ring_size)
  moreover have "length (ring_order ?r i) = 1" using length_clockwise_New [of "[(''n1'', ''h:1'')]" 4 1 "Uint64 i"] by (simp add: ring_order_def)
  ultimately show ?thesis by (cases "ring_order ?r i") auto
qed

abbreviation demo_mesh_env :: "(string, LRU mesh) gw_env" where
  "demo_mesh_env \<equiv> mesh_env lru_ops (\<lambda>_ bs. rev bs) (\<lambda>_ bs. bs) (\<lambda>_. 0) (\<lambda>_. None)"

lemma demo_ids: "\<forall>i \<in> set (QChain \<lparr>QModelId = ''m'', QChain = [demo_id 7]\<rparr>). id_ok i" "QChain \<lparr>QModelId = ''m'', QChain = [demo_id 7]\<rparr> \<noteq> []"
  by (simp_all add: id_ok_def demo_id_def HashSize_def)

theorem Match_longest_prefix_witness:
  "\<exists>m' resp. Match demo_mesh_env 1 \<lparr>QModelId = ''m'', QChain = [demo_id 7]\<rparr> demo_mesh = Some (Inr resp, m') \<and> MatchedDepth resp = 0"
proof -
  have "\<forall>(m :: LRU mesh) (bs :: (string \<times> string batch) list). mset ((\<lambda>_ bs. rev bs) m bs) = mset bs" by simp
  from Match_longest_prefix [OF lru.store_contract_axioms this demo_mesh_ok demo_mesh_ring demo_ring_size(1) demo_ids(2,1), of "\<lambda>_ bs. bs" "\<lambda>_. 0" "\<lambda>_. None" 1]
  obtain m' where m': "Match demo_mesh_env 1 \<lparr>QModelId = ''m'', QChain = [demo_id 7]\<rparr> demo_mesh =
      Some (Inr (match_spec (w_Client (mwatcher demo_mesh)) (view_refuses (view_of lru_contents demo_mesh)) (view_holds (view_of lru_contents demo_mesh))
        (NewRing 4 [(''n1'', ''h:1'')] 1) 1 [demo_id 7]), m')" by auto
  have "\<not> view_holds (view_of lru_contents demo_mesh) a i" for a i
    by (simp add: view_holds_def view_of_def demo_mesh_servers lru_contents_def NewLRU_def)
  then have "hit_at (w_Client (mwatcher demo_mesh)) (view_refuses (view_of lru_contents demo_mesh)) (view_holds (view_of lru_contents demo_mesh)) r k i = None" for r k i
    by (simp add: hit_at_def split: option.split)
  then show ?thesis using m' by (simp add: match_spec_def Let_def)
qed


lemma demo_gw_put:
  "\<exists>m1. gw_PutBlocks demo_mesh_env 1 True [Some (demo_block 7)] demo_mesh = Some (Inr \<lparr>PStored = 1, PExisting = 0\<rparr>, m1)"
proof -
  have len: "length (BlockId (demo_block 7)) = HashSize" by (simp add: demo_block_def demo_id_def HashSize_def)
  have "Owners (NewRing 4 [(''n1'', ''h:1'')] 1) (BlockId (demo_block 7)) 1 = Some [''n1'']"
    using Owners_ok [OF NewRing_ok, of "[(''n1'', ''h:1'')]" "BlockId (demo_block 7)" 4 1 1] len by (simp add: id_ok_def demo_ring_order)
  moreover have "\<exists>s'. cn_PutBlocks lru_ops True [(Some 3, \<lparr>PRingEpoch = 4, PBlock = Some (demo_block 7)\<rparr>)] (NewLRU 200) =
     Some (Inr \<lparr>RStored = 1, RExisting = 0\<rparr>, s')"
    by (simp add: cn_PutBlocks_def checkEpoch_def fromProto_def demo_block_def toID_def demo_id_def HashSize_def lru_ops_def
      LRU_Put_def NewLRU_def blockSize_def perBlockOverhead_def Let_def evict_loop.simps)
  moreover have "Epoch (NewRing 4 [(''n1'', ''h:1'')] 1) = 4" by (simp add: NewRing_def)
  ultimately show ?thesis using len
    by (auto simp: gw_PutBlocks_def mesh_env_def demo_mesh_ring demo_ring_size demo_mesh_client mesh_PutBlocks_def demo_mesh_servers)
qed

theorem stored_block_is_matched_witness:
  "\<exists>m1 mr m2. gw_PutBlocks demo_mesh_env 1 True [Some (demo_block 7)] demo_mesh = Some (Inr \<lparr>PStored = 1, PExisting = 0\<rparr>, m1) \<and>
     Match demo_mesh_env 1 \<lparr>QModelId = ''m'', QChain = [BlockId (demo_block 7)]\<rparr> m1 = Some (Inr mr, m2) \<and> MatchedDepth mr = 1"
proof -
  obtain m1 where m1: "gw_PutBlocks demo_mesh_env 1 True [Some (demo_block 7)] demo_mesh = Some (Inr \<lparr>PStored = 1, PExisting = 0\<rparr>, m1)"
    using demo_gw_put by blast
  have g: "\<forall>(m :: LRU mesh) (bs :: (string \<times> string batch) list). mset ((\<lambda>_ bs. rev bs) m bs) = mset bs"
    and p: "\<forall>(m :: LRU mesh) (bs :: (string \<times> Block list) list). mset ((\<lambda>_ bs. bs) m bs) = mset bs" by simp_all
  have "id_ok (BlockId (demo_block 7))" "id_ok (ParentId (demo_block 7))" "length (Payload (demo_block 7)) < 2 ^ 63"
    by (simp_all add: demo_block_def demo_id_def id_ok_def HashSize_def)
  from stored_block_is_matched [OF lru.store_contract_axioms g p demo_mesh_ok demo_mesh_ring demo_ring_size(1) this m1, of "''m''"]
  show ?thesis using m1 by auto
qed

end
