(* ===== verification/Spec2Isabelle.thy ===== *)
theory Spec2Isabelle
  imports DirectoryServer CacheAgent Mesh
begin

text \<open>
  A verification library for prefixmesh, a distributed cache of the key-value blocks of prompt prefixes.
  Paths are under \<^verbatim>\<open>src/\<close>.

  \<^bold>\<open>The program.\<close> A prompt is cut into blocks of tokens, and every block is named by a hash that chains all
  blocks before it (\<^verbatim>\<open>internal/chain\<close>). Blocks live on cache nodes (\<^verbatim>\<open>internal/cachenode\<close>), each over a block
  store (\<^verbatim>\<open>internal/blockstore\<close>). A consistent-hash ring (\<^verbatim>\<open>internal/hashring\<close>) says which nodes own a block.
  The members of the ring are agreed on by directory replicas (\<^verbatim>\<open>internal/directory\<close>) through a Paxos log
  (\<^verbatim>\<open>internal/paxos\<close>), and every change advances an epoch. Gateways and nodes follow the ring with a watcher
  (\<^verbatim>\<open>internal/ringwatch\<close>). A gateway (\<^verbatim>\<open>internal/gateway\<close>) answers how long a prefix of a chain is cached
  and where, and routes written blocks to their owners.

  \<^bold>\<open>Theories.\<close>
  \<^item> \<open>Prelude\<close>: Go's integers, bytes and strings, and shared lemmas. \<open>Messages\<close>: the protobuf messages.
  \<^item> \<open>Sha256\<close>, \<open>Chain\<close>: \<^verbatim>\<open>chain.go\<close> (\<open>Root\<close>, \<open>Next\<close>, \<open>Chunk\<close>, \<open>Build\<close>) over a full SHA-256. Equal chains
    come from equal prefixes unless the hash collides; a root can be made to collide with an inner block.
  \<^item> \<open>Hashring\<close>: \<^verbatim>\<open>ring.go\<close> (\<open>NewRing\<close>, \<open>Owners\<close>). Owners are the first distinct nodes clockwise, do not depend
    on map order, and move minimally when a node leaves.
  \<^item> \<open>Acceptor\<close>, \<open>PaxosLog\<close>, \<open>PaxosNode\<close>, \<open>PaxosSafety\<close>: \<^verbatim>\<open>paxos.go\<close>, \<^verbatim>\<open>log.go\<close>, \<^verbatim>\<open>node.go\<close>. The replicas are a
    step relation in which messages are lost, duplicated and reordered. Agreement, one history for all
    state machines, in-order application, and that a proposer left alone can decide.
  \<^item> \<open>DirectoryState\<close>, \<open>DirectoryServer\<close>: \<^verbatim>\<open>state.go\<close>, \<^verbatim>\<open>server.go\<close>, \<^verbatim>\<open>monitor.go\<close>, \<^verbatim>\<open>collector.go\<close>. The state
    machine refines a map from members to addresses; watchers lose no update; the handlers keep an invariant;
    the transport answers as a local call; a death needs a majority that suspects.
  \<^item> \<open>Blockstore\<close>, \<open>Paged\<close>, \<open>PagedStore\<close>: \<^verbatim>\<open>store.go\<close>, \<^verbatim>\<open>lru.go\<close>, \<^verbatim>\<open>paged.go\<close>. The Go interface is the locale
    \<open>store_contract\<close>, interpreted on both stores. No panic, every page free or owned once, what is put is
    what is got, and which blocks eviction keeps.
  \<^item> \<open>Ringwatch\<close>: \<^verbatim>\<open>watcher.go\<close>. The watcher holds the newest ring received; a ring of epoch 0 empties it.
  \<^item> \<open>Cachenode\<close>, \<open>CacheAgent\<close>: \<^verbatim>\<open>cachenode/server.go\<close>, \<^verbatim>\<open>agent.go\<close>, \<^verbatim>\<open>warmer.go\<close>, \<^verbatim>\<open>collector.go\<close>. Handlers over any
    store that keeps the contract, what they refuse, warming, rejoining after removal, telemetry.
  \<^item> \<open>Gateway\<close>: \<^verbatim>\<open>gateway/server.go\<close> over an arbitrary environment. The locale \<open>node_service\<close> states when the
    environment holds still; in it \<open>Match\<close> equals its specification.
  \<^item> \<open>Mesh\<close>: a gateway, its watcher and its cache nodes put together, an interpretation of \<open>node_service\<close>.
    The longest cached prefix, that what is matched can be fetched, and that what is stored is matched.

  \<^bold>\<open>Conventions.\<close> State is passed explicitly and \<open>None\<close> is a Go panic. A Go map that is iterated is an
  association list, in the order of the iteration. Integers keep their width where they can wrap. Parameters stand for
  code outside the sources: the protobuf codec, dialling and remote calls, the clock, floating-point
  arithmetic and random numbers. What is relied on is a named hypothesis, such as \<open>codec_ok\<close>.

  \<^bold>\<open>Bounds and fuel.\<close> Loops are structural or have a termination proof. \<open>apply_loop\<close> takes one step more than
  the slots chosen as fuel; each step applies a different chosen slot, so it never runs out. Ballots
  are ordered for rounds below \<open>2 ^ 56\<close>, the bits left beside the replica index, and blocks have payloads
  below \<open>2 ^ 63\<close> bytes, the range of a Go length.

  \<^bold>\<open>Not modelled.\<close> The prefetcher (\<^verbatim>\<open>internal/prefetch\<close>): its warm commands are an input of the warmer.
  The event transport (\<^verbatim>\<open>internal/events\<close>): a bus for tests and a wrapper of a Kafka client; the producer is
  a parameter. Prometheus metrics and their endpoint (\<^verbatim>\<open>internal/metrics\<close>), the mains and the load
  generator (\<^verbatim>\<open>cmd\<close>), which parse flags, wire components and do I/O, and the generated code (\<^verbatim>\<open>gen\<close>).
  The theorems of \<open>Mesh\<close> are about a mesh that nobody else writes to during the call; \<open>Match_refs_reported\<close>
  is the statement for one that changes.
\<close>

end
